(* ===== verification/Prelude.thy ===== *)
theory Prelude
  imports Main "HOL-Library.Word" "HOL-Library.Code_Target_Nat"
begin

text \<open>
  Shared vocabulary of the development: the machine types of the C++ sources, little-endian
  storage of integers in byte vectors (what \<open>*reinterpret_cast<IntType*>(&bytes[i])\<close> reads and
  writes on the supported hosts), the model of \<open>WTF::HashSet\<close> as a duplicate-free list in
  insertion order, and the generic list lemmas the component theories use.
\<close>

unbundle bit_operations_syntax

section \<open>Machine types\<close>

type_synonym u8 = "8 word"
type_synonym u16 = "16 word"
type_synonym u64 = "64 word"

text \<open>
  A C++ \<open>char\<close> is signed on the supported hosts; it is an \<open>int\<close> between -128 and 127.
  Values of \<open>uint32_t\<close> and \<open>unsigned\<close> are naturals; \<open>u32\<close> and \<open>to_int32\<close> are the conversions
  the code performs, written out.
\<close>

type_synonym cchar = int

definition u32 :: "nat \<Rightarrow> nat" where
  "u32 n = n mod 2 ^ 32"

definition u32_of_int :: "int \<Rightarrow> nat" where
  "u32_of_int i = nat (i mod 2 ^ 32)"

definition to_int32 :: "int \<Rightarrow> int" where
  "to_int32 i = (i + 2 ^ 31) mod 2 ^ 32 - 2 ^ 31"

definition u32_max :: nat where
  "u32_max = 2 ^ 32 - 1"

named_theorems machine_simps \<open>conversions between machine integers that lose nothing\<close>

lemma u32_id [machine_simps]: "n < 2 ^ 32 \<Longrightarrow> u32 n = n"
  by (simp add: u32_def)

lemma u32_less [simp]: "u32 n < 2 ^ 32"
  by (simp add: u32_def)

lemma u32_of_int_id [machine_simps]: "0 \<le> i \<Longrightarrow> i < 2 ^ 32 \<Longrightarrow> u32_of_int i = nat i"
  by (simp add: u32_of_int_def)

lemma to_int32_id [machine_simps]: "- (2 ^ 31) \<le> i \<Longrightarrow> i < 2 ^ 31 \<Longrightarrow> to_int32 i = i"
  by (simp add: to_int32_def)

section \<open>Little-endian storage\<close>

primrec encode_le :: "nat \<Rightarrow> int \<Rightarrow> u8 list" where
  "encode_le 0 v = []"
| "encode_le (Suc n) v = word_of_int v # encode_le n (v div 256)"

primrec decode_le :: "u8 list \<Rightarrow> int" where
  "decode_le [] = 0"
| "decode_le (b # bs) = uint b + 256 * decode_le bs"

text \<open>The value of an \<open>n\<close>-byte field read as a signed integer.\<close>

definition decode_signed_le :: "u8 list \<Rightarrow> int" where
  "decode_signed_le bs =
     (let v = decode_le bs in if 2 * v < 256 ^ length bs then v else v - 256 ^ length bs)"

lemma length_encode_le [simp]: "length (encode_le n v) = n"
  by (induction n arbitrary: v) auto

lemma decode_encode_le: "decode_le (encode_le n v) = v mod 256 ^ n"
proof (induction n arbitrary: v)
  case (Suc n)
  have "uint (word_of_int v :: u8) = v mod 256"
    by (simp add: uint_word_of_int)
  then show ?case
    using Suc.IH [of "v div 256"] by (simp add: zmod_zmult2_eq algebra_simps)
qed simp

lemma decode_encode_unsigned: "0 \<le> v \<Longrightarrow> v < 256 ^ n \<Longrightarrow> decode_le (encode_le n v) = v"
  by (simp add: decode_encode_le)

lemma mod_twos_complement:
  fixes v m :: int
  assumes "- m \<le> 2 * v" "2 * v < m"
  shows "(let w = v mod m in if 2 * w < m then w else w - m) = v"
proof (cases "0 \<le> v")
  case True
  then have "v mod m = v" using assms by auto
  then show ?thesis using assms by (simp add: Let_def)
next
  case False
  have "v mod m = (v + m) mod m" by simp
  also have "\<dots> = v + m" using assms False by (intro mod_pos_pos_trivial) auto
  finally show ?thesis using assms False by (simp add: Let_def)
qed

lemma decode_encode_signed:
  assumes "- (256 ^ n) \<le> 2 * v" "2 * v < 256 ^ n"
  shows "decode_signed_le (encode_le n v) = v"
  using mod_twos_complement [OF assms]
  unfolding decode_signed_le_def decode_encode_le length_encode_le .

lemma decode_le_bounds: "0 \<le> decode_le bs \<and> decode_le bs < 256 ^ length bs"
proof (induction bs)
  case (Cons b bs)
  have "0 \<le> uint b" "uint b < 256" using uint_lt2p [of b] by auto
  then show ?case using Cons.IH by auto
qed simp

section \<open>Reading a slice of a vector\<close>

definition vec_slice :: "nat \<Rightarrow> nat \<Rightarrow> 'a list \<Rightarrow> 'a list" where
  "vec_slice i n xs = take n (drop i xs)"

lemma vec_slice_append [simp]: "vec_slice (length pre) (length ys) (pre @ ys @ post) = ys"
  by (simp add: vec_slice_def)

lemma vec_slice_slice: "i + n \<le> m \<Longrightarrow> vec_slice i n (vec_slice j m xs) = vec_slice (j + i) n xs"
  by (simp add: vec_slice_def drop_take min_def add.commute)

lemma length_vec_slice [simp]: "i + n \<le> length xs \<Longrightarrow> length (vec_slice i n xs) = n"
  by (simp add: vec_slice_def)

lemma vec_slice_map_nth: "i + n \<le> length xs \<Longrightarrow> vec_slice i n xs = map ((!) xs) [i..<i + n]"
  by (auto simp: vec_slice_def intro!: nth_equalityI)

lemma list_all2_mem2: "list_all2 P xs ys \<Longrightarrow> y \<in> set ys \<Longrightarrow> \<exists>x \<in> set xs. P x y"
  by (induction xs ys rule: list_all2_induct) auto

section \<open>Hash sets as insertion-ordered lists\<close>

text \<open>
  \<open>WTF::HashSet\<close>: \<open>add\<close> reports whether the entry is new; iteration visits every element once.
  The iteration order of the table is not specified; the model iterates in insertion order, and
  every property is stated up to the order of these lists.
\<close>

definition hs_add :: "'a \<Rightarrow> 'a list \<Rightarrow> 'a list" where
  "hs_add x xs = (if x \<in> set xs then xs else xs @ [x])"

primrec hs_add_all :: "'a list \<Rightarrow> 'a list \<Rightarrow> 'a list" where
  "hs_add_all [] xs = xs"
| "hs_add_all (y # ys) xs = hs_add_all ys (hs_add y xs)"

lemma set_hs_add [simp]: "set (hs_add x xs) = insert x (set xs)"
  by (auto simp: hs_add_def)

lemma distinct_hs_add [simp]: "distinct (hs_add x xs) = distinct xs"
  by (auto simp: hs_add_def)

lemma set_hs_add_all [simp]: "set (hs_add_all ys xs) = set ys \<union> set xs"
  by (induction ys arbitrary: xs) auto

lemma distinct_hs_add_all [simp]: "distinct (hs_add_all ys xs) = distinct xs"
  by (induction ys arbitrary: xs) auto

section \<open>ASCII\<close>

text \<open>\<open>wtf/ASCIICType.h\<close>, at the one place the content extensions use it.\<close>

definition toASCIILower :: "int \<Rightarrow> int" where
  "toASCIILower c = (if 65 \<le> c \<and> c \<le> 90 then c + 32 else c)"

definition toASCIIUpper :: "int \<Rightarrow> int" where
  "toASCIIUpper c = (if 97 \<le> c \<and> c \<le> 122 then c - 32 else c)"

definition isASCIIAlpha :: "int \<Rightarrow> bool" where
  "isASCIIAlpha c \<longleftrightarrow> (65 \<le> c \<and> c \<le> 90) \<or> (97 \<le> c \<and> c \<le> 122)"

end
