(* ===== verification/Dfa.thy ===== *)
theory Dfa
  imports Prelude "HOL-Library.Sublist"
begin

text \<open>
  \<open>DFA.h\<close>, \<open>DFA.cpp\<close>, \<open>DFANode.h\<close>, \<open>DFANode.cpp\<close>: the compact partial DFA graph that every
  later phase works on. Nodes index into shared vectors of ranges, destinations and actions.
  Vector accesses out of range crash in the source; \<open>dfa_wf\<close> is the invariant under which none
  is out of range. The second half gives the automaton its meaning: \<open>delta\<close>, the nodes visited
  on an input, and the simulation principle that the minimiser, the combiner and the subset
  construction use.
\<close>

section \<open>Data\<close>

record char_range =
  cr_first :: cchar
  cr_last :: cchar

definition CharRange_size :: "char_range \<Rightarrow> int" where
  "CharRange_size r = cr_last r - cr_first r + 1"

record DFANode =
  actionsStart :: nat
  transitionsStart :: nat
  actionsLength :: nat
  transitionsLength :: nat
  nodeFlags :: u8

record DFA =
  nodes :: "DFANode list"
  actions :: "u64 list"
  transitionRanges :: "char_range list"
  transitionDestinations :: "nat list"
  root :: nat

type_synonym transition = "char_range \<times> nat"

definition DFANode_new :: DFANode where
  "DFANode_new = \<lparr>actionsStart = 0, transitionsStart = 0, actionsLength = 0,
     transitionsLength = 0, nodeFlags = 0\<rparr>"

definition DFA_new :: DFA where
  "DFA_new = \<lparr>nodes = [], actions = [], transitionRanges = [], transitionDestinations = [],
     root = 0\<rparr>"

definition DFA_empty :: DFA where
  "DFA_empty = DFA_new\<lparr>nodes := nodes DFA_new @ [DFANode_new]\<rparr>"

section \<open>Operations on nodes\<close>

definition IsKilled :: u8 where
  "IsKilled = 1"

definition isKilled :: "DFANode \<Rightarrow> bool" where
  "isKilled n \<longleftrightarrow> nodeFlags n AND IsKilled \<noteq> 0"

definition hasActions :: "DFANode \<Rightarrow> bool" where
  "hasActions n \<longleftrightarrow> actionsLength n \<noteq> 0"

definition setActions :: "nat \<Rightarrow> nat \<Rightarrow> DFANode \<Rightarrow> DFANode" where
  "setActions start len n = n\<lparr>actionsStart := start, actionsLength := len mod 2 ^ 16\<rparr>"

definition setTransitions :: "nat \<Rightarrow> nat \<Rightarrow> DFANode \<Rightarrow> DFANode" where
  "setTransitions start len n = n\<lparr>transitionsStart := start, transitionsLength := len mod 2 ^ 8\<rparr>"

definition transitions :: "DFA \<Rightarrow> DFANode \<Rightarrow> transition list" where
  "transitions d n =
     map (\<lambda>i. (transitionRanges d ! i, transitionDestinations d ! i))
       [transitionsStart n ..< transitionsStart n + transitionsLength n]"

definition node_actions :: "DFA \<Rightarrow> DFANode \<Rightarrow> u64 list" where
  "node_actions d n =
     map (\<lambda>i. actions d ! i) [actionsStart n ..< actionsStart n + actionsLength n]"

definition in_range :: "cchar \<Rightarrow> char_range \<Rightarrow> bool" where
  "in_range c r \<longleftrightarrow> cr_first r \<le> c \<and> c \<le> cr_last r"

definition containsTransition :: "cchar \<Rightarrow> DFA \<Rightarrow> DFANode \<Rightarrow> bool" where
  "containsTransition c d n \<longleftrightarrow> list_ex (\<lambda>(r, t). in_range c r) (transitions d n)"

text \<open>\<open>DFANode::kill\<close>: the node's slices of the shared vectors are overwritten.\<close>

definition fill :: "nat \<Rightarrow> nat \<Rightarrow> 'a \<Rightarrow> 'a list \<Rightarrow> 'a list" where
  "fill start len v xs = foldl (\<lambda>ys i. ys[i := v]) xs [start ..< start + len]"

definition kill :: "nat \<Rightarrow> DFA \<Rightarrow> DFA" where
  "kill k d =
     (let n = nodes d ! k in
      d\<lparr>transitionRanges :=
          fill (transitionsStart n) (transitionsLength n) \<lparr>cr_first = -1, cr_last = -1\<rparr> (transitionRanges d),
        transitionDestinations :=
          fill (transitionsStart n) (transitionsLength n) u32_max (transitionDestinations d),
        actions := fill (actionsStart n) (actionsLength n) (-1) (actions d),
        nodes := (nodes d)[k := n\<lparr>nodeFlags := IsKilled, actionsStart := 0, actionsLength := 0,
          transitionsStart := 0, transitionsLength := 0\<rparr>]\<rparr>)"

definition graphSize :: "DFA \<Rightarrow> nat" where
  "graphSize d = length (filter (\<lambda>n. \<not> isKilled n) (nodes d))"

section \<open>Fallback transitions\<close>

fun fallback_scan :: "cchar \<Rightarrow> transition list \<Rightarrow> bool" where
  "fallback_scan lastSeenCharacter [] = False"
| "fallback_scan lastSeenCharacter ((r, t) # trs) =
     (if cr_first r \<noteq> lastSeenCharacter + 1 then False
      else if cr_last r = 127 then True
      else fallback_scan (cr_last r) trs)"

definition canUseFallbackTransition :: "DFA \<Rightarrow> DFANode \<Rightarrow> bool" where
  "canUseFallbackTransition d n =
     (case transitions d n of
        [] \<Rightarrow> False
      | (r, t) # trs \<Rightarrow>
          if cr_first r = 0
          then (if cr_last r = 127 then True else fallback_scan (cr_last r) trs)
          else fallback_scan 0 ((r, t) # trs))"

fun best_target_loop :: "(nat \<rightharpoonup> int) \<Rightarrow> nat \<Rightarrow> int \<Rightarrow> transition list \<Rightarrow> nat" where
  "best_target_loop histogram bestTarget bestTargetScore [] = bestTarget"
| "best_target_loop histogram bestTarget bestTargetScore ((r, target) # trs) =
     (let value = (case histogram target of
                     None \<Rightarrow> CharRange_size r
                   | Some v \<Rightarrow> v + CharRange_size r);
          histogram' = histogram(target \<mapsto> value)
      in if value > bestTargetScore
         then best_target_loop histogram' target value trs
         else best_target_loop histogram' bestTarget bestTargetScore trs)"

text \<open>
  The source asserts that a transition is left after skipping \<open>'\0'\<close>; the empty case below is
  the one the assertion excludes (\<open>canUse_best_target\<close> shows it is not reached).
\<close>

definition bestFallbackTarget :: "DFA \<Rightarrow> DFANode \<Rightarrow> nat" where
  "bestFallbackTarget d n =
     (let trs = transitions d n;
          trs' = (case trs of
                    (r, t) # rest \<Rightarrow> if cr_first r = 0 \<and> cr_last r = 0 then rest else trs
                  | [] \<Rightarrow> [])
      in case trs' of
           [] \<Rightarrow> u32_max
         | (r, t) # rest \<Rightarrow>
             let score = (if cr_first r = 0 then CharRange_size r - 1 else CharRange_size r)
             in best_target_loop [t \<mapsto> score] t score rest)"

section \<open>Well-formedness\<close>

fun ranges_wf :: "cchar \<Rightarrow> transition list \<Rightarrow> bool" where
  "ranges_wf lo [] = True"
| "ranges_wf lo ((r, t) # trs) =
     (lo \<le> cr_first r \<and> cr_first r \<le> cr_last r \<and> cr_last r \<le> 127 \<and> ranges_wf (cr_last r + 1) trs)"

definition live :: "DFA \<Rightarrow> nat \<Rightarrow> bool" where
  "live d i \<longleftrightarrow> i < length (nodes d) \<and> \<not> isKilled (nodes d ! i)"

definition node_wf :: "DFA \<Rightarrow> DFANode \<Rightarrow> bool" where
  "node_wf d n \<longleftrightarrow>
     transitionsStart n + transitionsLength n \<le> length (transitionRanges d) \<and>
     transitionsStart n + transitionsLength n \<le> length (transitionDestinations d) \<and>
     actionsStart n + actionsLength n \<le> length (actions d) \<and>
     ranges_wf 0 (transitions d n) \<and>
     list_all (\<lambda>(r, t). live d t) (transitions d n)"

definition dfa_wf :: "DFA \<Rightarrow> bool" where
  "dfa_wf d \<longleftrightarrow> live d (root d) \<and> length (nodes d) < u32_max \<and>
     list_all (\<lambda>n. isKilled n \<or> node_wf d n) (nodes d)"

section \<open>Meaning\<close>

definition lookup_range :: "transition list \<Rightarrow> cchar \<Rightarrow> nat option" where
  "lookup_range trs c = map_option snd (find (\<lambda>(r, t). in_range c r) trs)"

definition delta :: "DFA \<Rightarrow> nat \<Rightarrow> cchar \<Rightarrow> nat option" where
  "delta d q c = lookup_range (transitions d (nodes d ! q)) c"

text \<open>The nodes a run enters, the start node included; the run stops where no transition applies.\<close>

fun dfa_visits :: "DFA \<Rightarrow> nat \<Rightarrow> cchar list \<Rightarrow> nat list" where
  "dfa_visits d q [] = [q]"
| "dfa_visits d q (c # cs) =
     q # (case delta d q c of None \<Rightarrow> [] | Some q' \<Rightarrow> dfa_visits d q' cs)"

fun dfa_run :: "DFA \<Rightarrow> nat \<Rightarrow> cchar list \<Rightarrow> nat option" where
  "dfa_run d q [] = Some q"
| "dfa_run d q (c # cs) = Option.bind (delta d q c) (\<lambda>q'. dfa_run d q' cs)"

definition actions_at :: "DFA \<Rightarrow> nat \<Rightarrow> u64 set" where
  "actions_at d q = set (node_actions d (nodes d ! q))"

definition dfa_matches :: "DFA \<Rightarrow> cchar list \<Rightarrow> u64 set" where
  "dfa_matches d cs = (\<Union>q \<in> set (dfa_visits d (root d) cs). actions_at d q)"

section \<open>Lemmas\<close>

lemma isKilled_new [simp]: "\<not> isKilled DFANode_new"
  by (simp add: isKilled_def DFANode_new_def)

lemma dfa_wf_node: "dfa_wf d \<Longrightarrow> live d q \<Longrightarrow> node_wf d (nodes d ! q)"
  by (auto simp: dfa_wf_def live_def list_all_length)

lemma ranges_wf_mono: "ranges_wf lo trs \<Longrightarrow> lo' \<le> lo \<Longrightarrow> ranges_wf lo' trs"
  by (cases trs) auto

lemma ranges_wf_member:
  "ranges_wf lo trs \<Longrightarrow> (r, t) \<in> set trs \<Longrightarrow> lo \<le> cr_first r \<and> cr_first r \<le> cr_last r \<and> cr_last r \<le> 127"
proof (induction lo trs rule: ranges_wf.induct)
  case (2 lo r' t' trs)
  then show ?case by (auto intro: order_trans)
qed simp

lemma lookup_range_Nil [simp]: "lookup_range [] c = None"
  by (simp add: lookup_range_def)

lemma lookup_range_Cons [simp]:
  "lookup_range ((r, t) # trs) c = (if in_range c r then Some t else lookup_range trs c)"
  by (simp add: lookup_range_def)

lemma lookup_range_SomeD: "lookup_range trs c = Some t \<Longrightarrow> \<exists>r. (r, t) \<in> set trs \<and> in_range c r"
  by (induction trs) (auto split: if_splits)

text \<open>In a well-formed list the ranges are disjoint, so the first match is the only one.\<close>

lemma lookup_range_unique:
  "ranges_wf lo trs \<Longrightarrow> (r, t) \<in> set trs \<Longrightarrow> in_range c r \<Longrightarrow> lookup_range trs c = Some t"
proof (induction lo trs rule: ranges_wf.induct)
  case (2 lo r' t' trs)
  show ?case
  proof (cases "(r, t) = (r', t')")
    case True
    then show ?thesis using 2 by simp
  next
    case False
    then have mem: "(r, t) \<in> set trs" using 2 by auto
    moreover have "ranges_wf (cr_last r' + 1) trs" using 2 by simp
    ultimately have "cr_last r' < cr_first r" by (auto dest: ranges_wf_member)
    then have "\<not> in_range c r'" using 2 by (auto simp: in_range_def)
    then show ?thesis using 2 mem by simp
  qed
qed simp

lemma lookup_range_bounds: "ranges_wf lo trs \<Longrightarrow> lookup_range trs c = Some t \<Longrightarrow> lo \<le> c \<and> c \<le> 127"
  by (fastforce dest: lookup_range_SomeD ranges_wf_member simp: in_range_def)

lemma delta_live: "dfa_wf d \<Longrightarrow> live d q \<Longrightarrow> delta d q c = Some q' \<Longrightarrow> live d q'"
  by (fastforce simp: delta_def node_wf_def list_all_iff dest!: dfa_wf_node lookup_range_SomeD)

lemma visits_live: "dfa_wf d \<Longrightarrow> live d q \<Longrightarrow> q' \<in> set (dfa_visits d q cs) \<Longrightarrow> live d q'"
proof (induction cs arbitrary: q)
  case (Cons c cs)
  then show ?case by (cases "delta d q c") (auto dest: delta_live)
qed simp

lemma lookup_range_None_iff: "lookup_range trs c = None \<longleftrightarrow> (\<forall>(r, t) \<in> set trs. \<not> in_range c r)"
  by (induction trs) (auto split: if_splits)

lemma containsTransition_delta: "containsTransition c d (nodes d ! q) \<longleftrightarrow> delta d q c \<noteq> None"
  unfolding containsTransition_def delta_def list_ex_iff lookup_range_None_iff by auto

lemma dfa_run_snoc: "dfa_run d q (w @ [c]) = Option.bind (dfa_run d q w) (\<lambda>q'. delta d q' c)"
  by (induction w arbitrary: q) (auto split: bind_splits)

lemma dfa_run_prefix_Cons:
  "(\<exists>w. prefix w (c # cs) \<and> dfa_run d q w = Some i) \<longleftrightarrow>
   i = q \<or> (\<exists>q' w. delta d q c = Some q' \<and> prefix w cs \<and> dfa_run d q' w = Some i)" (is "?l \<longleftrightarrow> ?r")
proof
  assume ?l
  then obtain w where w: "prefix w (c # cs)" "dfa_run d q w = Some i" by blast
  show ?r
  proof (cases w)
    case (Cons c' w')
    then show ?thesis using w by (cases "delta d q c") auto
  qed (use w in simp)
next
  assume ?r
  then consider "i = q" | q' w where "delta d q c = Some q'" "prefix w cs" "dfa_run d q' w = Some i" by blast
  then show ?l
  proof cases
    case 1
    then show ?thesis by (intro exI [of _ "[]"]) simp
  next
    case 2
    then show ?thesis by (intro exI [of _ "c # w"]) simp
  qed
qed

lemma set_dfa_visits: "set (dfa_visits d q cs) = {i. \<exists>w. prefix w cs \<and> dfa_run d q w = Some i}"
proof (induction cs arbitrary: q)
  case (Cons c cs)
  then show ?case unfolding dfa_run_prefix_Cons by (auto split: option.split)
qed auto

lemma dfa_matches_run:
  "dfa_matches d cs = {a. \<exists>w i. prefix w cs \<and> dfa_run d (root d) w = Some i \<and> a \<in> actions_at d i}"
  by (auto simp: dfa_matches_def set_dfa_visits)

subsection \<open>What a fallback transition covers\<close>

lemma fallback_scan_covers:
  "fallback_scan l trs \<Longrightarrow> l < c \<Longrightarrow> c \<le> 127 \<Longrightarrow> \<exists>t. lookup_range trs c = Some t"
proof (induction l trs rule: fallback_scan.induct)
  case (2 l r t trs)
  then show ?case by (cases "c \<le> cr_last r") (auto simp: in_range_def split: if_splits)
qed simp

lemma canUseFallbackTransition_covers:
  assumes "canUseFallbackTransition d n" "0 < c" "c \<le> 127"
  shows "\<exists>t. lookup_range (transitions d n) c = Some t"
proof (cases "transitions d n")
  case Nil
  then show ?thesis using assms by (simp add: canUseFallbackTransition_def)
next
  case (Cons a trs)
  obtain r t where a: "a = (r, t)" by (cases a)
  show ?thesis
  proof (cases "cr_first r = 0")
    case True
    with assms(1) Cons a have "cr_last r = 127 \<or> fallback_scan (cr_last r) trs"
      by (auto simp: canUseFallbackTransition_def split: if_splits)
    then show ?thesis using Cons a True assms fallback_scan_covers [of "cr_last r" trs c]
      by (cases "c \<le> cr_last r") (auto simp: in_range_def)
  next
    case False
    with assms(1) Cons a have "fallback_scan 0 (transitions d n)"
      by (simp add: canUseFallbackTransition_def)
    then show ?thesis using assms(2,3) by (rule fallback_scan_covers)
  qed
qed

lemma best_target_loop_mem:
  "best_target_loop h b s trs = b \<or> best_target_loop h b s trs \<in> snd ` set trs"
proof (induction trs arbitrary: h b s)
  case (Cons x trs)
  obtain r t where x: "x = (r, t)" by (cases x)
  have "\<exists>h' s'. best_target_loop h b s (x # trs) \<in>
      {best_target_loop h' t s' trs, best_target_loop h' b s trs}"
    by (simp add: x Let_def) blast
  then obtain h' s' where "best_target_loop h b s (x # trs) \<in>
      {best_target_loop h' t s' trs, best_target_loop h' b s trs}" by blast
  then show ?case using Cons.IH [of h' t s'] Cons.IH [of h' b s]
    by (elim insertE emptyE disjE) (simp_all only: x, auto)
qed simp

lemma bestFallbackTarget_mem:
  assumes "canUseFallbackTransition d n"
  shows "\<exists>r. (r, bestFallbackTarget d n) \<in> set (transitions d n)"
proof -
  obtain r t trs where T: "transitions d n = (r, t) # trs"
    using assms by (cases "transitions d n") (auto simp: canUseFallbackTransition_def)
  have ne: "trs \<noteq> []" if "cr_first r = 0" "cr_last r = 0"
    using assms that T by (auto simp: canUseFallbackTransition_def)
  define trs' where "trs' = (if cr_first r = 0 \<and> cr_last r = 0 then trs else transitions d n)"
  then obtain r' t' rest where T': "trs' = (r', t') # rest"
    using ne T by (cases trs') (auto split: if_splits)
  have "set trs' \<subseteq> set (transitions d n)" using T by (auto simp: trs'_def)
  moreover obtain h s where "bestFallbackTarget d n = best_target_loop h t' s rest"
    using T T' by (auto simp: bestFallbackTarget_def trs'_def Let_def split: if_splits)
  ultimately show ?thesis using T' best_target_loop_mem [of h t' s rest] by force
qed

subsection \<open>Simulation\<close>

text \<open>
  The interface between the automaton transformations and what they promise: a relation between
  the nodes of two DFAs that agrees on the actions and is kept by every transition. Every
  transformation that exhibits such a relation preserves what is matched.
\<close>

locale dfa_simulation =
  fixes R :: "nat \<Rightarrow> nat \<Rightarrow> bool" and d1 d2 :: DFA
  assumes root_related: "R (root d1) (root d2)"
    and actions_related: "R p q \<Longrightarrow> actions_at d1 p = actions_at d2 q"
    and delta_related: "R p q \<Longrightarrow> rel_option R (delta d1 p c) (delta d2 q c)"
begin

lemma visits_related: "R p q \<Longrightarrow> list_all2 R (dfa_visits d1 p cs) (dfa_visits d2 q cs)"
proof (induction cs arbitrary: p q)
  case (Cons c cs)
  then show ?case using delta_related [OF Cons.prems, of c]
    by (auto simp: option_rel_Some1 option_rel_Some2 split: option.splits)
qed simp

lemma matches_eq: "dfa_matches d1 cs = dfa_matches d2 cs"
proof -
  have "list_all2 R (dfa_visits d1 (root d1) cs) (dfa_visits d2 (root d2) cs)"
    by (rule visits_related [OF root_related])
  then have "list_all2 (\<lambda>p q. actions_at d1 p = actions_at d2 q)
      (dfa_visits d1 (root d1) cs) (dfa_visits d2 (root d2) cs)"
    by (rule list_all2_mono) (rule actions_related)
  then have "map (actions_at d1) (dfa_visits d1 (root d1) cs) =
      map (actions_at d2) (dfa_visits d2 (root d2) cs)"
    by (simp add: list_all2_conv_all_nth nth_equalityI list_eq_iff_nth_eq)
  then show ?thesis unfolding dfa_matches_def
    by (metis image_set)
qed

end

end
