(* ===== verification/Bytecode.thy ===== *)
theory Bytecode
  imports Prelude
begin

text \<open>
  \<open>DFABytecode.h\<close> and the constants of \<open>ResourceLoadInfo.h\<close> that the bytecode shares with the rule
  compiler: the instructions, the size of the jump field, and the layout of an action word.
\<close>

section \<open>Instructions\<close>

datatype DFABytecodeInstruction =
    CheckValueCaseInsensitive | CheckValueCaseSensitive
  | JumpTableCaseInsensitive | JumpTableCaseSensitive
  | CheckValueRangeCaseInsensitive | CheckValueRangeCaseSensitive
  | AppendAction | AppendActionWithIfDomain
  | TestFlagsAndAppendAction | TestFlagsAndAppendActionWithIfDomain
  | Terminate | Jump

fun opcode :: "DFABytecodeInstruction \<Rightarrow> u8" where
  "opcode CheckValueCaseInsensitive = 0x0"
| "opcode CheckValueCaseSensitive = 0x1"
| "opcode JumpTableCaseInsensitive = 0x2"
| "opcode JumpTableCaseSensitive = 0x3"
| "opcode CheckValueRangeCaseInsensitive = 0x4"
| "opcode CheckValueRangeCaseSensitive = 0x5"
| "opcode AppendAction = 0x6"
| "opcode AppendActionWithIfDomain = 0x7"
| "opcode TestFlagsAndAppendAction = 0x8"
| "opcode TestFlagsAndAppendActionWithIfDomain = 0x9"
| "opcode Terminate = 0xA"
| "opcode Jump = 0xB"

definition all_instructions :: "DFABytecodeInstruction list" where
  "all_instructions =
     [CheckValueCaseInsensitive, CheckValueCaseSensitive, JumpTableCaseInsensitive,
      JumpTableCaseSensitive, CheckValueRangeCaseInsensitive, CheckValueRangeCaseSensitive,
      AppendAction, AppendActionWithIfDomain, TestFlagsAndAppendAction,
      TestFlagsAndAppendActionWithIfDomain, Terminate, Jump]"

definition DFABytecodeInstructionMask :: u8 where
  "DFABytecodeInstructionMask = 0x0F"

definition DFABytecodeJumpSizeMask :: u8 where
  "DFABytecodeJumpSizeMask = 0xF0"

text \<open>Reading the enumeration back from a byte; \<open>None\<close> is a value outside the enumeration.\<close>

definition instruction_of_byte :: "u8 \<Rightarrow> DFABytecodeInstruction option" where
  "instruction_of_byte b =
     find (\<lambda>i. opcode i = b AND DFABytecodeInstructionMask) all_instructions"

section \<open>Jump sizes\<close>

datatype DFABytecodeJumpSize = Int8 | Int16 | Int24 | Int32

fun jump_size_code :: "DFABytecodeJumpSize \<Rightarrow> u8" where
  "jump_size_code Int8 = 0x10"
| "jump_size_code Int16 = 0x20"
| "jump_size_code Int24 = 0x30"
| "jump_size_code Int32 = 0x40"

definition jump_size_of_byte :: "u8 \<Rightarrow> DFABytecodeJumpSize option" where
  "jump_size_of_byte b =
     find (\<lambda>s. jump_size_code s = b AND DFABytecodeJumpSizeMask) [Int8, Int16, Int24, Int32]"

fun jumpSizeInBytes :: "DFABytecodeJumpSize \<Rightarrow> nat" where
  "jumpSizeInBytes Int8 = 1"
| "jumpSizeInBytes Int16 = 2"
| "jumpSizeInBytes Int24 = 3"
| "jumpSizeInBytes Int32 = 4"

text \<open>The enumeration compares by its values, so \<open>std::max\<close> picks the wider field.\<close>

instantiation DFABytecodeJumpSize :: linorder
begin

definition less_eq_DFABytecodeJumpSize :: "DFABytecodeJumpSize \<Rightarrow> DFABytecodeJumpSize \<Rightarrow> bool" where
  "a \<le> b \<longleftrightarrow> jumpSizeInBytes a \<le> jumpSizeInBytes b"

definition less_DFABytecodeJumpSize :: "DFABytecodeJumpSize \<Rightarrow> DFABytecodeJumpSize \<Rightarrow> bool" where
  "a < b \<longleftrightarrow> jumpSizeInBytes a < jumpSizeInBytes b"

instance
proof
  fix a b :: DFABytecodeJumpSize
  show "a \<le> b \<Longrightarrow> b \<le> a \<Longrightarrow> a = b"
    by (cases a; cases b) (simp_all add: less_eq_DFABytecodeJumpSize_def)
qed (auto simp: less_eq_DFABytecodeJumpSize_def less_DFABytecodeJumpSize_def)

end

definition Int24Max :: int where
  "Int24Max = 2 ^ 23 - 1"

definition Int24Min :: int where
  "Int24Min = - (2 ^ 23)"

definition smallestPossibleJumpSize :: "int \<Rightarrow> DFABytecodeJumpSize" where
  "smallestPossibleJumpSize longestPossibleJump =
     (if longestPossibleJump \<le> 127 \<and> longestPossibleJump \<ge> -128 then Int8
      else if longestPossibleJump \<le> 32767 \<and> longestPossibleJump \<ge> -32768 then Int16
      else if longestPossibleJump \<le> Int24Max \<and> longestPossibleJump \<ge> Int24Min then Int24
      else Int32)"

text \<open>\<open>None\<close>: the sizes the source refuses with \<open>RELEASE_ASSERT_NOT_REACHED\<close>.\<close>

fun instructionSizeWithArguments :: "DFABytecodeInstruction \<Rightarrow> nat option" where
  "instructionSizeWithArguments AppendAction = Some (1 + 4)"
| "instructionSizeWithArguments AppendActionWithIfDomain = Some (1 + 4)"
| "instructionSizeWithArguments TestFlagsAndAppendAction = Some (1 + 2 + 4)"
| "instructionSizeWithArguments TestFlagsAndAppendActionWithIfDomain = Some (1 + 2 + 4)"
| "instructionSizeWithArguments Terminate = Some 1"
| "instructionSizeWithArguments _ = None"

section \<open>Action words\<close>

definition ActionFlagMask :: u64 where
  "ActionFlagMask = 0x0000FFFF00000000"

definition IfDomainFlag :: u64 where
  "IfDomainFlag = 0x0001000000000000"

definition ResourceTypeMask :: u16 where
  "ResourceTypeMask = 0x03FF"

definition LoadTypeMask :: u16 where
  "LoadTypeMask = 0x0C00"

section \<open>Lemmas\<close>

lemma instruction_of_byte_opcode [simp]: "instruction_of_byte (opcode i) = Some i"
  by (cases i) (simp_all add: instruction_of_byte_def all_instructions_def
    DFABytecodeInstructionMask_def)

text \<open>The two nibbles of an instruction byte do not disturb each other.\<close>

lemma instruction_of_byte_with_size [simp]:
  "instruction_of_byte (opcode i OR jump_size_code s) = Some i"
  by (cases i; cases s) (simp_all add: instruction_of_byte_def all_instructions_def
    DFABytecodeInstructionMask_def)

lemma jump_size_of_byte_with_size [simp]:
  "jump_size_of_byte (opcode i OR jump_size_code s) = Some s"
  by (cases i; cases s) (simp_all add: jump_size_of_byte_def DFABytecodeJumpSizeMask_def)

text \<open>A distance fits the field chosen for any longer jump.\<close>

definition fits :: "DFABytecodeJumpSize \<Rightarrow> int \<Rightarrow> bool" where
  "fits s v \<longleftrightarrow> - (256 ^ jumpSizeInBytes s) \<le> 2 * v \<and> 2 * v < 256 ^ jumpSizeInBytes s"

lemma fits_smallest:
  "- (2 ^ 31) \<le> v \<Longrightarrow> v < 2 ^ 31 \<Longrightarrow> fits (smallestPossibleJumpSize v) v"
  by (auto simp: fits_def smallestPossibleJumpSize_def Int24Max_def Int24Min_def)

lemma fits_mono: "fits s v \<Longrightarrow> s \<le> s' \<Longrightarrow> fits s' v"
  by (cases s; cases s') (auto simp: fits_def less_eq_DFABytecodeJumpSize_def)

lemma fits_between: "fits s v \<Longrightarrow> 0 \<le> w \<Longrightarrow> w \<le> v \<Longrightarrow> fits s w"
  by (cases s) (auto simp: fits_def)

lemma decode_encode_fits:
  "fits s v \<Longrightarrow> decode_signed_le (encode_le (jumpSizeInBytes s) v) = v"
  by (simp add: fits_def decode_encode_signed)

lemma jumpSizeInBytes_bounds: "1 \<le> jumpSizeInBytes s \<and> jumpSizeInBytes s \<le> 4"
  by (cases s) auto

end
