(* ===== verification/Bytecode_Compiler.thy ===== *)
theory Bytecode_Compiler
  imports Dfa Bytecode "HOL-Library.Monad_Syntax"
begin

text \<open>
  \<open>DFABytecodeCompiler.h\<close>, \<open>DFABytecodeCompiler.cpp\<close>: lowering a DFA to bytecode. The compiler
  object is the record \<open>DFABytecodeCompiler\<close>, passed through every member function. \<open>None\<close> is a
  failed \<open>RELEASE_ASSERT\<close>; debug assertions are not part of the model, they are lemmas of
  \<open>Compile_Correct\<close>.
\<close>

section \<open>Data\<close>

record Range =
  rg_min :: nat
  rg_max :: nat
  rg_destination :: nat
  rg_caseSensitive :: bool

record JumpTable =
  jt_min :: nat
  jt_max :: nat
  jt_caseSensitive :: bool
  jt_destinations :: "nat list"

record Transitions =
  jumpTables :: "JumpTable list"
  ranges :: "Range list"
  useFallbackTransition :: bool
  fallbackTransitionTarget :: nat

record LinkRecord =
  lr_jumpSize :: DFABytecodeJumpSize
  lr_longestPossibleJump :: int
  lr_instructionLocation :: nat
  lr_jumpLocation :: nat
  lr_destinationNodeIndex :: nat

record DFABytecodeCompiler =
  m_bytecode :: "u8 list"
  m_maxNodeStartOffsets :: "nat list"
  m_nodeStartOffsets :: "nat list"
  m_linkRecords :: "LinkRecord list"

section \<open>Bytes\<close>

definition append_int :: "nat \<Rightarrow> int \<Rightarrow> DFABytecodeCompiler \<Rightarrow> DFABytecodeCompiler" where
  "append_int width value c = c\<lparr>m_bytecode := m_bytecode c @ encode_le width value\<rparr>"

definition append_byte :: "u8 \<Rightarrow> DFABytecodeCompiler \<Rightarrow> DFABytecodeCompiler" where
  "append_byte b c = c\<lparr>m_bytecode := m_bytecode c @ [b]\<rparr>"

fun appendZeroes :: "DFABytecodeJumpSize \<Rightarrow> DFABytecodeCompiler \<Rightarrow> DFABytecodeCompiler" where
  "appendZeroes Int8 c = append_int 1 0 c"
| "appendZeroes Int16 c = append_int 2 0 c"
| "appendZeroes Int24 c = append_int 1 0 (append_int 2 0 c)"
| "appendZeroes Int32 c = append_int 4 0 c"

definition setBits :: "nat \<Rightarrow> nat \<Rightarrow> int \<Rightarrow> u8 list \<Rightarrow> u8 list option" where
  "setBits width index value bytecode =
     (if index + width \<le> length bytecode
      then Some (take index bytecode @ encode_le width value @ drop (index + width) bytecode)
      else None)"

section \<open>Actions\<close>

definition appendActionBytecodeSize :: "u64 \<Rightarrow> nat" where
  "appendActionBytecodeSize action = (if action AND ActionFlagMask \<noteq> 0 then 1 + 2 + 4 else 1 + 4)"

definition emitAppendAction :: "u64 \<Rightarrow> DFABytecodeCompiler \<Rightarrow> DFABytecodeCompiler" where
  "emitAppendAction action c =
     (if action AND ActionFlagMask \<noteq> 0
      then append_int 4 (uint action)
             (append_int 2 (uint (drop_bit 32 action))
               (append_byte (if action AND IfDomainFlag \<noteq> 0
                             then opcode TestFlagsAndAppendActionWithIfDomain
                             else opcode TestFlagsAndAppendAction) c))
      else append_int 4 (uint action)
             (append_byte (if action AND IfDomainFlag \<noteq> 0
                           then opcode AppendActionWithIfDomain
                           else opcode AppendAction) c))"

section \<open>Jumps\<close>

definition longestPossibleJump :: "nat \<Rightarrow> nat \<Rightarrow> nat \<Rightarrow> DFABytecodeCompiler \<Rightarrow> int" where
  "longestPossibleJump instructionLocation sourceNodeIndex destinationNodeIndex c =
     (if m_nodeStartOffsets c ! destinationNodeIndex = u32_max
      then to_int32 (int (m_maxNodeStartOffsets c ! destinationNodeIndex)
             - int (m_maxNodeStartOffsets c ! sourceNodeIndex)
             - (int (m_nodeStartOffsets c ! sourceNodeIndex) - int instructionLocation))
      else to_int32 (int (m_nodeStartOffsets c ! destinationNodeIndex) - int instructionLocation))"

definition append_link ::
  "DFABytecodeJumpSize \<Rightarrow> int \<Rightarrow> nat \<Rightarrow> nat \<Rightarrow> nat \<Rightarrow> DFABytecodeCompiler \<Rightarrow> DFABytecodeCompiler" where
  "append_link jsize longest instructionLocation jumpLocation destination c =
     c\<lparr>m_linkRecords := m_linkRecords c @
        [\<lparr>lr_jumpSize = jsize, lr_longestPossibleJump = longest,
          lr_instructionLocation = instructionLocation, lr_jumpLocation = jumpLocation,
          lr_destinationNodeIndex = destination\<rparr>]\<rparr>"

definition emitJump :: "nat \<Rightarrow> nat \<Rightarrow> DFABytecodeCompiler \<Rightarrow> DFABytecodeCompiler" where
  "emitJump sourceNodeIndex destinationNodeIndex c =
     (let instructionLocation = u32 (length (m_bytecode c));
          jumpLocation = u32 (instructionLocation + 1);
          distance = longestPossibleJump instructionLocation sourceNodeIndex destinationNodeIndex c;
          jumpSize = smallestPossibleJumpSize distance
      in appendZeroes jumpSize
           (append_link jumpSize distance instructionLocation jumpLocation destinationNodeIndex
             (append_byte (opcode Jump OR jump_size_code jumpSize) c)))"

definition emitCheckValue ::
  "nat \<Rightarrow> nat \<Rightarrow> nat \<Rightarrow> bool \<Rightarrow> DFABytecodeCompiler \<Rightarrow> DFABytecodeCompiler" where
  "emitCheckValue value sourceNodeIndex destinationNodeIndex caseSensitive c =
     (let instructionLocation = u32 (length (m_bytecode c));
          jumpLocation = u32 (instructionLocation + 2 * 1);
          distance = longestPossibleJump instructionLocation sourceNodeIndex destinationNodeIndex c;
          jumpSize = smallestPossibleJumpSize distance;
          instruction = (if caseSensitive then CheckValueCaseSensitive else CheckValueCaseInsensitive)
      in appendZeroes jumpSize
           (append_link jumpSize distance instructionLocation jumpLocation destinationNodeIndex
             (append_int 1 (int value)
               (append_byte (opcode instruction OR jump_size_code jumpSize) c))))"

definition emitCheckValueRange ::
  "nat \<Rightarrow> nat \<Rightarrow> nat \<Rightarrow> nat \<Rightarrow> bool \<Rightarrow> DFABytecodeCompiler \<Rightarrow> DFABytecodeCompiler" where
  "emitCheckValueRange lowValue highValue sourceNodeIndex destinationNodeIndex caseSensitive c =
     (let instructionLocation = u32 (length (m_bytecode c));
          jumpLocation = u32 (instructionLocation + 3 * 1);
          distance = longestPossibleJump instructionLocation sourceNodeIndex destinationNodeIndex c;
          jumpSize = smallestPossibleJumpSize distance;
          instruction = (if caseSensitive then CheckValueRangeCaseSensitive
                         else CheckValueRangeCaseInsensitive)
      in appendZeroes jumpSize
           (append_link jumpSize distance instructionLocation jumpLocation destinationNodeIndex
             (append_int 1 (int highValue)
               (append_int 1 (int lowValue)
                 (append_byte (opcode instruction OR jump_size_code jumpSize) c)))))"

definition emitTerminate :: "DFABytecodeCompiler \<Rightarrow> DFABytecodeCompiler" where
  "emitTerminate c = append_byte (opcode Terminate) c"

section \<open>The transitions of a node\<close>

definition lower8 :: "nat \<Rightarrow> nat" where
  "lower8 k = nat (toASCIILower (int k))"

definition noDestination :: nat where
  "noDestination = u32_max"

fun fill_destinations :: "nat option \<Rightarrow> transition list \<Rightarrow> nat list \<Rightarrow> nat list" where
  "fill_destinations skip [] destinations = destinations"
| "fill_destinations skip ((r, target) # trs) destinations =
     (if skip = Some target then fill_destinations skip trs destinations
      else fill_destinations skip trs
             (foldl (\<lambda>ds i. ds[nat i := target]) destinations [cr_first r .. cr_last r]))"

text \<open>The end of a range at \<open>rangeMax\<close>: it becomes case-insensitive when the lower-case cells agree.\<close>

definition range_folds_case :: "nat \<Rightarrow> nat \<Rightarrow> nat list \<Rightarrow> bool" where
  "range_folds_case rangeMin rangeMax destinations \<longleftrightarrow>
     rangeMin \<ge> 65 \<and> rangeMax \<le> 90 \<and>
     list_all (\<lambda>k. destinations ! rangeMin = destinations ! lower8 k) [rangeMin ..< rangeMax + 1]"

definition close_range :: "nat \<Rightarrow> nat \<Rightarrow> nat list \<Rightarrow> Range list \<Rightarrow> nat list \<times> Range list" where
  "close_range rangeMin i destinations rs =
     (let rangeMax = i - 1;
          caseSensitive = (\<not> range_folds_case rangeMin rangeMax destinations)
      in if \<not> caseSensitive
         then (let destinations' =
                     foldl (\<lambda>ds k. ds[lower8 k := noDestination]) destinations [rangeMin ..< rangeMax + 1]
               in (destinations', rs @ [\<lparr>rg_min = lower8 rangeMin, rg_max = lower8 rangeMax,
                    rg_destination = destinations' ! rangeMin, rg_caseSensitive = caseSensitive\<rparr>]))
         else (destinations, rs @ [\<lparr>rg_min = rangeMin, rg_max = rangeMax,
                    rg_destination = destinations ! rangeMin, rg_caseSensitive = caseSensitive\<rparr>]))"

text \<open>One iteration of the scan; \<open>None\<close> in the last component is \<open>!hasRangeMin\<close>.\<close>

definition range_step ::
  "nat \<Rightarrow> nat list \<times> Range list \<times> nat option \<Rightarrow> nat list \<times> Range list \<times> nat option" where
  "range_step i st =
     (case st of (destinations, rs, rm) \<Rightarrow>
        (case rm of
           Some rangeMin \<Rightarrow>
             if destinations ! i \<noteq> destinations ! rangeMin
             then (case close_range rangeMin i destinations rs of
                     (destinations', rs') \<Rightarrow>
                       (destinations', rs', if destinations' ! i = noDestination then None else Some i))
             else st
         | None \<Rightarrow>
             if destinations ! i \<noteq> noDestination then (destinations, rs, Some i) else st))"

definition collect_ranges :: "nat list \<Rightarrow> Range list" where
  "collect_ranges destinations =
     (case fold range_step [0 ..< 128] (destinations, [], None) of
        (destinations', rs, rm) \<Rightarrow>
          (case rm of
             None \<Rightarrow> rs
           | Some rangeMin \<Rightarrow> rs @ [\<lparr>rg_min = rangeMin, rg_max = 127,
                rg_destination = destinations' ! rangeMin, rg_caseSensitive = True\<rparr>]))"

definition extractJumpTable :: "Range list \<Rightarrow> nat \<Rightarrow> nat \<Rightarrow> JumpTable \<times> Range list" where
  "extractJumpTable rs firstRange lastRange =
     (\<lparr>jt_min = rg_min (rs ! firstRange), jt_max = rg_max (rs ! lastRange),
       jt_caseSensitive = rg_caseSensitive (rs ! lastRange),
       jt_destinations = map (\<lambda>i. rg_destination (rs ! i)) [firstRange ..< lastRange + 1]\<rparr>,
      take firstRange rs @ drop (lastRange + 1) rs)"

function table_loop ::
  "Range list \<Rightarrow> JumpTable list \<Rightarrow> nat \<Rightarrow> nat option \<Rightarrow> Range list \<times> JumpTable list \<times> nat option" where
  "table_loop rs tables rangePosition base =
     (if rangePosition < length rs
      then (let rng = rs ! rangePosition in
            case base of
              Some b \<Rightarrow>
                if rg_min rng \<noteq> rg_max rng
                   \<or> rg_caseSensitive (rs ! b) \<noteq> rg_caseSensitive rng
                   \<or> rg_max (rs ! (rangePosition - 1)) + 1 \<noteq> rg_min rng
                then (if rangePosition - b > 1
                      then (let (table, rs') = extractJumpTable rs b (rangePosition - 1)
                            in table_loop rs' (tables @ [table]) (b + 1) None)
                      else table_loop rs tables (rangePosition + 1) None)
                else table_loop rs tables (rangePosition + 1) base
            | None \<Rightarrow>
                if rg_min rng = rg_max rng
                then table_loop rs tables (rangePosition + 1) (Some rangePosition)
                else table_loop rs tables (rangePosition + 1) None)
      else (rs, tables, base))"
  by pat_completeness auto
termination
  by (relation "measure (\<lambda>(rs, tables, rangePosition, base). length rs - rangePosition)")
    (auto simp: extractJumpTable_def)

definition split_tables :: "Range list \<Rightarrow> Range list \<times> JumpTable list" where
  "split_tables rs =
     (case table_loop rs [] 0 None of
        (rs', tables, base) \<Rightarrow>
          (case base of
             Some b \<Rightarrow>
               if length rs' - b > 1
               then (let (table, rs'') = extractJumpTable rs' b (length rs' - 1)
                     in (rs'', tables @ [table]))
               else (rs', tables)
           | None \<Rightarrow> (rs', tables)))"

definition node_transitions :: "DFA \<Rightarrow> DFANode \<Rightarrow> Transitions" where
  "node_transitions d n =
     (let useFallback = canUseFallbackTransition d n;
          target = (if useFallback then bestFallbackTarget d n else u32_max);
          destinations = fill_destinations (if useFallback then Some target else None)
            (transitions d n) (replicate 128 noDestination);
          (rs, tables) = split_tables (collect_ranges destinations)
      in \<lparr>jumpTables = tables, ranges = rs, useFallbackTransition = useFallback,
          fallbackTransitionTarget = target\<rparr>)"

section \<open>Worst-case sizes\<close>

definition checkForJumpTableMaxBytecodeSize :: "JumpTable \<Rightarrow> nat" where
  "checkForJumpTableMaxBytecodeSize table = 1 + 2 * 1 + (jt_max table - jt_min table + 1) * 4"

definition checkForRangeMaxBytecodeSize :: "Range \<Rightarrow> nat" where
  "checkForRangeMaxBytecodeSize rng =
     (if rg_min rng = rg_max rng then 1 + 1 + 4 else 1 + 2 * 1 + 4)"

definition nodeTransitionsMaxBytecodeSize :: "DFA \<Rightarrow> DFANode \<Rightarrow> nat" where
  "nodeTransitionsMaxBytecodeSize d n =
     (let t = node_transitions d n in
      sum_list (map checkForJumpTableMaxBytecodeSize (jumpTables t))
      + sum_list (map checkForRangeMaxBytecodeSize (ranges t))
      + (if useFallbackTransition t then 1 + 4 else 1))"

definition compiledNodeMaxBytecodeSize :: "DFA \<Rightarrow> nat \<Rightarrow> nat" where
  "compiledNodeMaxBytecodeSize d index =
     (let n = nodes d ! index in
      if isKilled n then 0
      else sum_list (map appendActionBytecodeSize (node_actions d n))
           + nodeTransitionsMaxBytecodeSize d n)"

section \<open>Nodes\<close>

definition compileJumpTable :: "nat \<Rightarrow> JumpTable \<Rightarrow> DFABytecodeCompiler \<Rightarrow> DFABytecodeCompiler" where
  "compileJumpTable nodeIndex table c =
     (let instructionLocation = u32 (length (m_bytecode c));
          jumpSize = foldl (\<lambda>s destination. max s (smallestPossibleJumpSize
            (longestPossibleJump instructionLocation nodeIndex destination c))) Int8 (jt_destinations table);
          instruction = (if jt_caseSensitive table then JumpTableCaseSensitive
                         else JumpTableCaseInsensitive);
          c1 = append_int 1 (int (jt_max table))
                 (append_int 1 (int (jt_min table))
                   (append_byte (opcode instruction OR jump_size_code jumpSize) c))
      in foldl (\<lambda>c' destination.
           let distance = longestPossibleJump instructionLocation nodeIndex destination c' in
           appendZeroes jumpSize
             (append_link jumpSize distance instructionLocation (u32 (length (m_bytecode c'))) destination c'))
           c1 (jt_destinations table))"

definition compileCheckForRange :: "nat \<Rightarrow> Range \<Rightarrow> DFABytecodeCompiler \<Rightarrow> DFABytecodeCompiler" where
  "compileCheckForRange nodeIndex rng c =
     (if rg_min rng = rg_max rng
      then emitCheckValue (rg_min rng) nodeIndex (rg_destination rng) (rg_caseSensitive rng) c
      else emitCheckValueRange (rg_min rng) (rg_max rng) nodeIndex (rg_destination rng)
             (rg_caseSensitive rng) c)"

definition compileNodeTransitions :: "DFA \<Rightarrow> nat \<Rightarrow> DFABytecodeCompiler \<Rightarrow> DFABytecodeCompiler" where
  "compileNodeTransitions d nodeIndex c =
     (let t = node_transitions d (nodes d ! nodeIndex);
          c1 = foldl (\<lambda>c' table. compileJumpTable nodeIndex table c') c (jumpTables t);
          c2 = foldl (\<lambda>c' rng. compileCheckForRange nodeIndex rng c') c1 (ranges t)
      in if useFallbackTransition t
         then emitJump nodeIndex (fallbackTransitionTarget t) c2
         else emitTerminate c2)"

definition record_start :: "nat \<Rightarrow> DFABytecodeCompiler \<Rightarrow> DFABytecodeCompiler" where
  "record_start index c =
     c\<lparr>m_nodeStartOffsets := (m_nodeStartOffsets c)[index := u32 (length (m_bytecode c))]\<rparr>"

definition compileNode :: "DFA \<Rightarrow> nat \<Rightarrow> bool \<Rightarrow> DFABytecodeCompiler \<Rightarrow> DFABytecodeCompiler" where
  "compileNode d index isRoot c =
     (let n = nodes d ! index in
      if isKilled n then c
      else (let c1 = (if \<not> isRoot then record_start index c else c);
                c2 = foldl (\<lambda>c' action. emitAppendAction action c') c1 (node_actions d n);
                c3 = (if isRoot then record_start index c2 else c2)
            in compileNodeTransitions d index c3))"

section \<open>The whole DFA\<close>

definition max_node_start_offsets :: "DFA \<Rightarrow> nat list" where
  "max_node_start_offsets d =
     (let rootActionsSize =
            sum_list (map appendActionBytecodeSize (node_actions d (nodes d ! root d)));
          offsets = (replicate (length (nodes d)) 0)[root d := u32 (4 + rootActionsSize)];
          nextIndex = u32 (4 + compiledNodeMaxBytecodeSize d (root d))
      in fst (foldl (\<lambda>(offsets, nextIndex) i.
           if i \<noteq> root d
           then (offsets[i := nextIndex], u32 (nextIndex + compiledNodeMaxBytecodeSize d i))
           else (offsets, nextIndex)) (offsets, nextIndex) [0 ..< length (nodes d)]))"

definition link_record :: "nat list \<Rightarrow> LinkRecord \<Rightarrow> u8 list \<Rightarrow> u8 list option" where
  "link_record starts r bytecode =
     (let destination = starts ! lr_destinationNodeIndex r in
      if \<not> destination < 2 ^ 31 - 1 then None
      else (let distance = to_int32 (int destination - int (lr_instructionLocation r)) in
            case lr_jumpSize r of
              Int8 \<Rightarrow> if - 128 \<le> distance \<and> distance \<le> 127
                      then setBits 1 (lr_jumpLocation r) distance bytecode else None
            | Int16 \<Rightarrow> if - 32768 \<le> distance \<and> distance \<le> 32767
                       then setBits 2 (lr_jumpLocation r) distance bytecode else None
            | Int24 \<Rightarrow> if distance \<ge> Int24Min \<and> distance \<le> Int24Max
                       then do {
                         bytecode' \<leftarrow> setBits 2 (lr_jumpLocation r) distance bytecode;
                         setBits 1 (lr_jumpLocation r + 2) (distance div 2 ^ 16) bytecode'
                       } else None
            | Int32 \<Rightarrow> setBits 4 (lr_jumpLocation r) distance bytecode))"

fun link_all :: "nat list \<Rightarrow> LinkRecord list \<Rightarrow> u8 list \<Rightarrow> u8 list option" where
  "link_all starts [] bytecode = Some bytecode"
| "link_all starts (r # rs) bytecode =
     do { bytecode' \<leftarrow> link_record starts r bytecode; link_all starts rs bytecode' }"

definition compile_nodes :: "DFA \<Rightarrow> u8 list \<Rightarrow> DFABytecodeCompiler" where
  "compile_nodes d bytecode0 =
     (let c0 = \<lparr>m_bytecode = bytecode0 @ encode_le 4 0,
                m_maxNodeStartOffsets = max_node_start_offsets d,
                m_nodeStartOffsets = replicate (length (nodes d)) u32_max,
                m_linkRecords = []\<rparr>;
          c1 = compileNode d (root d) True c0
      in foldl (\<lambda>c i. if i \<noteq> root d then compileNode d i False c else c) c1 [0 ..< length (nodes d)])"

definition compile :: "DFA \<Rightarrow> u8 list \<Rightarrow> u8 list option" where
  "compile d bytecode0 =
     (let startLocation = u32 (length bytecode0);
          c = compile_nodes d bytecode0
      in do {
        bytecode \<leftarrow> link_all (m_nodeStartOffsets c) (m_linkRecords c) (m_bytecode c);
        setBits 4 startLocation (int (length bytecode) - int startLocation) bytecode
      })"

end
