(* ===== verification/Bytecode_Interpreter.thy ===== *)
theory Bytecode_Interpreter
  imports Bytecode "HOL-Library.Monad_Syntax"
begin

text \<open>
  \<open>DFABytecodeInterpreter.h\<close>, \<open>DFABytecodeInterpreter.cpp\<close>: running the bytecode of one or more
  DFAs over a URL. \<open>None\<close> is every way not to return a set of actions: a read outside the bytecode
  or outside the C string of the URL, a value outside an enumeration (\<open>RELEASE_ASSERT_NOT_REACHED\<close>),
  or a loop that does not end. A statement that a run is \<open>Some\<close> therefore states memory safety,
  termination and the result at once.
\<close>

section \<open>State\<close>

record DFABytecodeInterpreter =
  i_bytecode :: "u8 list"
  i_url :: "cchar list"
  i_flags :: u16
  i_domainActions :: "u64 set option"

text \<open>The variables of the interpretation loop: \<open>programCounter\<close>, \<open>urlIndex\<close>,
  \<open>urlIndexIsAfterEndOfString\<close> and \<open>actions\<close>.\<close>

type_synonym run_state = "nat \<times> nat \<times> bool \<times> u64 set"

section \<open>Reading\<close>

definition getBits :: "nat \<Rightarrow> u8 list \<Rightarrow> nat \<Rightarrow> int option" where
  "getBits width bytecode index =
     (if index + width \<le> length bytecode then Some (decode_le (vec_slice index width bytecode)) else None)"

definition getSignedBits :: "nat \<Rightarrow> u8 list \<Rightarrow> nat \<Rightarrow> int option" where
  "getSignedBits width bytecode index =
     (if index + width \<le> length bytecode
      then Some (decode_signed_le (vec_slice index width bytecode)) else None)"

definition getByte :: "u8 list \<Rightarrow> nat \<Rightarrow> u8 option" where
  "getByte bytecode index = (if index < length bytecode then Some (bytecode ! index) else None)"

text \<open>The inner option is \<open>None\<close> when the nibble is not a value of the enumeration.\<close>

definition getInstruction :: "u8 list \<Rightarrow> nat \<Rightarrow> DFABytecodeInstruction option option" where
  "getInstruction bytecode index = map_option instruction_of_byte (getByte bytecode index)"

definition getJumpSize :: "u8 list \<Rightarrow> nat \<Rightarrow> DFABytecodeJumpSize option" where
  "getJumpSize bytecode index = do { b \<leftarrow> getByte bytecode index; jump_size_of_byte b }"

fun getJumpDistance :: "u8 list \<Rightarrow> nat \<Rightarrow> DFABytecodeJumpSize \<Rightarrow> int option" where
  "getJumpDistance bytecode index Int8 = getSignedBits 1 bytecode index"
| "getJumpDistance bytecode index Int16 = getSignedBits 2 bytecode index"
| "getJumpDistance bytecode index Int24 =
     do {
       low \<leftarrow> getBits 2 bytecode index;
       high \<leftarrow> getSignedBits 1 bytecode (u32 (index + 2));
       Some (low OR to_int32 (high * 2 ^ 16))
     }"
| "getJumpDistance bytecode index Int32 = getSignedBits 4 bytecode index"

text \<open>\<open>url[index]\<close> on the NUL-terminated data of a \<open>CString\<close>.\<close>

definition url_at :: "cchar list \<Rightarrow> nat \<Rightarrow> cchar option" where
  "url_at url index =
     (if index < length url then Some (url ! index)
      else if index = length url then Some 0 else None)"

definition jump_by :: "nat \<Rightarrow> int \<Rightarrow> nat" where
  "jump_by programCounter distance = u32_of_int (int programCounter + distance)"

section \<open>Actions\<close>

definition matchesDomain :: "u64 \<Rightarrow> u64 set \<Rightarrow> bool" where
  "matchesDomain actionAndFlags domainActions \<longleftrightarrow>
     (actionAndFlags AND IfDomainFlag \<noteq> 0) = (actionAndFlags \<in> domainActions)"

definition add_if_domain_matches :: "DFABytecodeInterpreter \<Rightarrow> u64 \<Rightarrow> u64 set \<Rightarrow> u64 set" where
  "add_if_domain_matches p action acts =
     (case i_domainActions p of
        None \<Rightarrow> insert action acts
      | Some domainActions \<Rightarrow> if matchesDomain action domainActions then insert action acts else acts)"

definition interpretAppendAction ::
  "DFABytecodeInterpreter \<Rightarrow> nat \<Rightarrow> u64 set \<Rightarrow> bool \<Rightarrow> (nat \<times> u64 set) option" where
  "interpretAppendAction p programCounter acts ifDomain =
     do {
       bits \<leftarrow> getBits 4 (i_bytecode p) (u32 (programCounter + 1));
       len \<leftarrow> instructionSizeWithArguments AppendAction;
       let action = (if ifDomain then IfDomainFlag else 0) OR word_of_int bits;
       Some (u32 (programCounter + len), add_if_domain_matches p action acts)
     }"

definition flags_match :: "u16 \<Rightarrow> u16 \<Rightarrow> bool" where
  "flags_match flagsToCheck flags =
     (let loadTypeFlags = flagsToCheck AND LoadTypeMask;
          resourceTypeFlags = flagsToCheck AND ResourceTypeMask;
          loadTypeMatches = (if loadTypeFlags \<noteq> 0 then loadTypeFlags AND flags \<noteq> 0 else True);
          resourceTypeMatches = (if resourceTypeFlags \<noteq> 0 then resourceTypeFlags AND flags \<noteq> 0 else True)
      in loadTypeMatches \<and> resourceTypeMatches)"

definition interpretTestFlagsAndAppendAction ::
  "DFABytecodeInterpreter \<Rightarrow> nat \<Rightarrow> u64 set \<Rightarrow> bool \<Rightarrow> (nat \<times> u64 set) option" where
  "interpretTestFlagsAndAppendAction p programCounter acts ifDomain =
     do {
       flagBits \<leftarrow> getBits 2 (i_bytecode p) (u32 (programCounter + 1));
       len \<leftarrow> instructionSizeWithArguments TestFlagsAndAppendAction;
       let flagsToCheck = (word_of_int flagBits :: u16);
       if flags_match flagsToCheck (i_flags p)
       then do {
         bits \<leftarrow> getBits 4 (i_bytecode p) (u32 (programCounter + 1 + 2));
         let actionAndFlags = (if ifDomain then IfDomainFlag else 0)
               OR push_bit 32 (word_of_int flagBits) OR word_of_int bits;
         Some (u32 (programCounter + len), add_if_domain_matches p actionAndFlags acts)
       }
       else Some (u32 (programCounter + len), acts)
     }"

section \<open>One instruction\<close>

definition fold_case :: "bool \<Rightarrow> cchar \<Rightarrow> cchar" where
  "fold_case caseSensitive c = (if caseSensitive then c else toASCIILower c)"

definition interpetJumpTable ::
  "DFABytecodeInterpreter \<Rightarrow> bool \<Rightarrow> run_state \<Rightarrow> run_state option" where
  "interpetJumpTable p caseSensitive st =
     (case st of (programCounter, urlIndex, afterEnd, acts) \<Rightarrow>
      do {
        jumpSize \<leftarrow> getJumpSize (i_bytecode p) programCounter;
        c \<leftarrow> url_at (i_url p) urlIndex;
        let character = fold_case caseSensitive c;
        firstCharacter \<leftarrow> getBits 1 (i_bytecode p) (u32 (programCounter + 1));
        lastCharacter \<leftarrow> getBits 1 (i_bytecode p) (u32 (programCounter + 1 + 1));
        if firstCharacter \<le> character \<and> character \<le> lastCharacter
        then do {
          distance \<leftarrow> getJumpDistance (i_bytecode p)
            (u32 (programCounter + 1 + 2 * 1 + nat (character - firstCharacter) * jumpSizeInBytes jumpSize))
            jumpSize;
          Some (jump_by programCounter distance, u32 (urlIndex + 1), afterEnd \<or> character = 0, acts)
        }
        else Some (u32 (programCounter + 1 + 2 * 1
               + jumpSizeInBytes jumpSize * nat (lastCharacter - firstCharacter + 1)),
               urlIndex, afterEnd, acts)
      })"

definition interpretCheckValue ::
  "DFABytecodeInterpreter \<Rightarrow> bool \<Rightarrow> run_state \<Rightarrow> run_state option" where
  "interpretCheckValue p caseSensitive st =
     (case st of (programCounter, urlIndex, afterEnd, acts) \<Rightarrow>
      do {
        c \<leftarrow> url_at (i_url p) urlIndex;
        let character = fold_case caseSensitive c;
        jumpSize \<leftarrow> getJumpSize (i_bytecode p) programCounter;
        value \<leftarrow> getBits 1 (i_bytecode p) (u32 (programCounter + 1));
        if character = value
        then do {
          distance \<leftarrow> getJumpDistance (i_bytecode p) (u32 (programCounter + 1 + 1)) jumpSize;
          Some (jump_by programCounter distance, u32 (urlIndex + 1), afterEnd \<or> character = 0, acts)
        }
        else Some (u32 (programCounter + 1 + 1 + jumpSizeInBytes jumpSize), urlIndex, afterEnd, acts)
      })"

definition interpretCheckValueRange ::
  "DFABytecodeInterpreter \<Rightarrow> bool \<Rightarrow> run_state \<Rightarrow> run_state option" where
  "interpretCheckValueRange p caseSensitive st =
     (case st of (programCounter, urlIndex, afterEnd, acts) \<Rightarrow>
      do {
        c \<leftarrow> url_at (i_url p) urlIndex;
        let character = fold_case caseSensitive c;
        jumpSize \<leftarrow> getJumpSize (i_bytecode p) programCounter;
        lowValue \<leftarrow> getBits 1 (i_bytecode p) (u32 (programCounter + 1));
        highValue \<leftarrow> getBits 1 (i_bytecode p) (u32 (programCounter + 1 + 1));
        if lowValue \<le> character \<and> character \<le> highValue
        then do {
          distance \<leftarrow> getJumpDistance (i_bytecode p) (u32 (programCounter + 1 + 2 * 1)) jumpSize;
          Some (jump_by programCounter distance, u32 (urlIndex + 1), afterEnd \<or> character = 0, acts)
        }
        else Some (u32 (programCounter + 1 + 2 * 1 + jumpSizeInBytes jumpSize), urlIndex, afterEnd, acts)
      })"

definition interpretJump :: "DFABytecodeInterpreter \<Rightarrow> run_state \<Rightarrow> (u64 set + run_state) option" where
  "interpretJump p st =
     (case st of (programCounter, urlIndex, afterEnd, acts) \<Rightarrow>
      do {
        c \<leftarrow> url_at (i_url p) urlIndex;
        if c = 0 \<or> afterEnd then Some (Inl acts)
        else do {
          jumpSize \<leftarrow> getJumpSize (i_bytecode p) programCounter;
          distance \<leftarrow> getJumpDistance (i_bytecode p) (u32 (programCounter + 1)) jumpSize;
          Some (Inr (jump_by programCounter distance, u32 (urlIndex + 1), afterEnd, acts))
        }
      })"

text \<open>The body of the \<open>while (true)\<close> loop; \<open>Inl\<close> is \<open>goto nextDFA\<close>.\<close>

definition unless_after_end ::
  "run_state \<Rightarrow> run_state option \<Rightarrow> (u64 set + run_state) option" where
  "unless_after_end st next =
     (case st of (programCounter, urlIndex, afterEnd, acts) \<Rightarrow>
        if afterEnd then Some (Inl acts) else map_option Inr next)"

definition then_at :: "nat \<Rightarrow> bool \<Rightarrow> (nat \<times> u64 set) option \<Rightarrow> (u64 set + run_state) option" where
  "then_at urlIndex afterEnd r =
     map_option (\<lambda>(programCounter, acts). Inr (programCounter, urlIndex, afterEnd, acts)) r"

definition interpret_step :: "DFABytecodeInterpreter \<Rightarrow> run_state \<Rightarrow> (u64 set + run_state) option" where
  "interpret_step p st =
     (case st of (programCounter, urlIndex, afterEnd, acts) \<Rightarrow>
      do {
        enum \<leftarrow> getInstruction (i_bytecode p) programCounter;
        instruction \<leftarrow> enum;
        case instruction of
          Terminate \<Rightarrow> Some (Inl acts)
        | CheckValueCaseSensitive \<Rightarrow> unless_after_end st (interpretCheckValue p True st)
        | CheckValueCaseInsensitive \<Rightarrow> unless_after_end st (interpretCheckValue p False st)
        | JumpTableCaseInsensitive \<Rightarrow> unless_after_end st (interpetJumpTable p False st)
        | JumpTableCaseSensitive \<Rightarrow> unless_after_end st (interpetJumpTable p True st)
        | CheckValueRangeCaseSensitive \<Rightarrow> unless_after_end st (interpretCheckValueRange p True st)
        | CheckValueRangeCaseInsensitive \<Rightarrow> unless_after_end st (interpretCheckValueRange p False st)
        | Jump \<Rightarrow> interpretJump p st
        | AppendAction \<Rightarrow>
            then_at urlIndex afterEnd (interpretAppendAction p programCounter acts False)
        | AppendActionWithIfDomain \<Rightarrow>
            then_at urlIndex afterEnd (interpretAppendAction p programCounter acts True)
        | TestFlagsAndAppendAction \<Rightarrow>
            then_at urlIndex afterEnd (interpretTestFlagsAndAppendAction p programCounter acts False)
        | TestFlagsAndAppendActionWithIfDomain \<Rightarrow>
            then_at urlIndex afterEnd (interpretTestFlagsAndAppendAction p programCounter acts True)
      })"

partial_function (option) interpret_dfa :: "DFABytecodeInterpreter \<Rightarrow> run_state \<Rightarrow> u64 set option" where
  "interpret_dfa p st =
     do {
       r \<leftarrow> interpret_step p st;
       case r of Inl acts \<Rightarrow> Some acts | Inr st' \<Rightarrow> interpret_dfa p st'
     }"

section \<open>The actions of the first root\<close>

text \<open>The loop of \<open>interpret\<close> that skips the actions without flags of the first DFA's root.\<close>

partial_function (option) skip_universal_actions ::
  "DFABytecodeInterpreter \<Rightarrow> nat \<Rightarrow> nat \<Rightarrow> u64 set \<Rightarrow> (nat \<times> u64 set) option" where
  "skip_universal_actions p dfaBytecodeLength programCounter acts =
     (if programCounter < dfaBytecodeLength
      then do {
        enum \<leftarrow> getInstruction (i_bytecode p) programCounter;
        if enum = Some AppendAction \<or> enum = Some AppendActionWithIfDomain
        then do {
          len \<leftarrow> Option.bind enum instructionSizeWithArguments;
          skip_universal_actions p dfaBytecodeLength (u32 (programCounter + len)) acts
        }
        else if enum = Some TestFlagsAndAppendAction \<or> enum = Some TestFlagsAndAppendActionWithIfDomain
        then do {
          r \<leftarrow> interpretTestFlagsAndAppendAction p programCounter acts
                 (enum = Some TestFlagsAndAppendActionWithIfDomain);
          skip_universal_actions p dfaBytecodeLength (fst r) (snd r)
        }
        else Some (programCounter, acts)
      }
      else Some (programCounter, acts))"

text \<open>\<open>actionsMatchingEverything\<close>: the actions without flags of the first DFA's root.\<close>

partial_function (option) matching_everything_loop ::
  "DFABytecodeInterpreter \<Rightarrow> nat \<Rightarrow> nat \<Rightarrow> u64 set \<Rightarrow> u64 set option" where
  "matching_everything_loop p dfaBytecodeLength programCounter acts =
     (if programCounter < dfaBytecodeLength
      then do {
        enum \<leftarrow> getInstruction (i_bytecode p) programCounter;
        if enum = Some AppendAction \<or> enum = Some AppendActionWithIfDomain
        then do {
          r \<leftarrow> interpretAppendAction p programCounter acts (enum = Some AppendActionWithIfDomain);
          matching_everything_loop p dfaBytecodeLength (fst r) (snd r)
        }
        else if enum = Some TestFlagsAndAppendAction \<or> enum = Some TestFlagsAndAppendActionWithIfDomain
        then do {
          len \<leftarrow> Option.bind enum instructionSizeWithArguments;
          matching_everything_loop p dfaBytecodeLength (u32 (programCounter + len)) acts
        }
        else Some acts
      }
      else Some acts)"

definition actionsMatchingEverything :: "DFABytecodeInterpreter \<Rightarrow> u64 set option" where
  "actionsMatchingEverything p =
     do {
       dfaBytecodeLength \<leftarrow> getBits 4 (i_bytecode p) 0;
       matching_everything_loop p (nat dfaBytecodeLength) 4 {}
     }"

section \<open>All the DFAs\<close>

partial_function (option) interpret_loop ::
  "DFABytecodeInterpreter \<Rightarrow> nat \<Rightarrow> u64 set \<Rightarrow> u64 set option" where
  "interpret_loop p dfaStart acts =
     (if dfaStart < length (i_bytecode p)
      then do {
        header \<leftarrow> getBits 4 (i_bytecode p) dfaStart;
        let dfaBytecodeLength = nat header;
        r \<leftarrow> (if dfaStart = 0
              then skip_universal_actions p dfaBytecodeLength (u32 (dfaStart + 4)) acts
              else Some (u32 (dfaStart + 4), acts));
        if dfaStart = 0 \<and> fst r \<ge> length (i_bytecode p) then Some (snd r)
        else do {
          acts' \<leftarrow> interpret_dfa p (fst r, 0, False, snd r);
          interpret_loop p (u32 (dfaStart + dfaBytecodeLength)) acts'
        }
      }
      else Some acts)"

definition interpret_url :: "u8 list \<Rightarrow> cchar list \<Rightarrow> u16 \<Rightarrow> u64 set option" where
  "interpret_url bytecode url flags =
     interpret_loop \<lparr>i_bytecode = bytecode, i_url = url, i_flags = flags, i_domainActions = None\<rparr> 0 {}"

definition interpretWithDomains :: "u8 list \<Rightarrow> cchar list \<Rightarrow> u16 \<Rightarrow> u64 set \<Rightarrow> u64 set option" where
  "interpretWithDomains bytecode url flags domainActions =
     interpret_loop \<lparr>i_bytecode = bytecode, i_url = url, i_flags = flags,
       i_domainActions = Some domainActions\<rparr> 0 {}"

declare interpret_dfa.simps [code] skip_universal_actions.simps [code]
  matching_everything_loop.simps [code] interpret_loop.simps [code]

end
