(* ===== verification/Transition_Tables.thy ===== *)
theory Transition_Tables
  imports Bytecode_Compiler Bytecode_Interpreter
begin

text \<open>
  What \<open>DFABytecodeCompiler::transitions\<close> computes: the case-folded ranges and jump tables it
  returns, read in order, give exactly the transitions of the node that the fallback does not
  cover. The two passes (scanning the destination array, then extracting jump tables) are
  verified by an invariant each.
\<close>

definition rg_matches :: "Range \<Rightarrow> cchar \<Rightarrow> bool" where
  "rg_matches r c \<longleftrightarrow> int (rg_min r) \<le> fold_case (rg_caseSensitive r) c
     \<and> fold_case (rg_caseSensitive r) c \<le> int (rg_max r)"

definition jt_lookup :: "JumpTable \<Rightarrow> cchar \<Rightarrow> nat option" where
  "jt_lookup t c =
     (let c' = fold_case (jt_caseSensitive t) c in
      if int (jt_min t) \<le> c' \<and> c' \<le> int (jt_max t)
      then Some (jt_destinations t ! nat (c' - int (jt_min t))) else None)"

definition range_wf :: "Range \<Rightarrow> bool" where
  "range_wf r \<longleftrightarrow> rg_min r \<le> rg_max r \<and> rg_max r < 128 \<and> (rg_caseSensitive r \<or> 97 \<le> rg_min r)"

definition table_wf :: "JumpTable \<Rightarrow> bool" where
  "table_wf t \<longleftrightarrow> jt_min t \<le> jt_max t \<and> jt_max t < 128 \<and>
     (jt_caseSensitive t \<or> 97 \<le> jt_min t) \<and>
     length (jt_destinations t) = jt_max t - jt_min t + 1"

text \<open>The characters an entry covers, with their destinations.\<close>

definition cov_range :: "Range \<Rightarrow> (nat \<times> nat) set" where
  "cov_range r = {(c, rg_destination r) | c. c < 128 \<and> rg_matches r (int c)}"

definition cov_table :: "JumpTable \<Rightarrow> (nat \<times> nat) set" where
  "cov_table t = {(c, x) | c x. c < 128 \<and> jt_lookup t (int c) = Some x}"

definition cover :: "Range list \<Rightarrow> JumpTable list \<Rightarrow> (nat \<times> nat) set" where
  "cover rs ts = (\<Union>r \<in> set rs. cov_range r) \<union> (\<Union>t \<in> set ts. cov_table t)"

section \<open>The scan of the destination array\<close>

lemma length_foldl_update [simp]: "length (foldl (\<lambda>ys k. ys[f k := v]) xs ks) = length xs"
  by (induction ks arbitrary: xs) auto

lemma nth_foldl_update:
  "i < length xs \<Longrightarrow>
   foldl (\<lambda>ys k. ys[f k := v]) xs ks ! i = (if i \<in> f ` set ks then v else xs ! i)"
  by (induction ks arbitrary: xs) (auto simp: nth_list_update)

lemma lower8_upper: "65 \<le> k \<Longrightarrow> k \<le> 90 \<Longrightarrow> lower8 k = k + 32"
  by (simp add: lower8_def toASCIILower_def)

lemma sensitive_matches:
  "rg_matches \<lparr>rg_min = a, rg_max = b, rg_destination = x, rg_caseSensitive = True\<rparr> (int c)
     \<longleftrightarrow> a \<le> c \<and> c \<le> b"
  by (auto simp: rg_matches_def fold_case_def)

lemma insensitive_matches:
  assumes "65 \<le> a" "b \<le> 90"
  shows "rg_matches \<lparr>rg_min = a + 32, rg_max = b + 32, rg_destination = x, rg_caseSensitive = False\<rparr> (int c)
     \<longleftrightarrow> (a \<le> c \<and> c \<le> b) \<or> (a + 32 \<le> c \<and> c \<le> b + 32)"
  using assms by (auto simp: rg_matches_def fold_case_def toASCIILower_def)

definition covered :: "Range list \<Rightarrow> nat \<Rightarrow> bool" where
  "covered rs c \<longleftrightarrow> (\<exists>r \<in> set rs. rg_matches r (int c))"

definition sound_ranges :: "nat list \<Rightarrow> Range list \<Rightarrow> bool" where
  "sound_ranges D rs \<longleftrightarrow> (\<forall>r \<in> set rs. range_wf r \<and>
     (\<forall>c < 128. rg_matches r (int c) \<longrightarrow> D ! c = rg_destination r \<and> D ! c \<noteq> noDestination))"

definition scan_inv :: "nat list \<Rightarrow> nat \<Rightarrow> nat list \<times> Range list \<times> nat option \<Rightarrow> bool" where
  "scan_inv D i st =
     (case st of (ds, rs, rm) \<Rightarrow>
        length ds = 128 \<and> sound_ranges D rs \<and>
        (\<forall>c < 128. ds ! c = D ! c \<or> ds ! c = noDestination \<and> covered rs c) \<and>
        (\<forall>c < i. D ! c \<noteq> noDestination \<longrightarrow> covered rs c \<or> (\<exists>m. rm = Some m \<and> m \<le> c)) \<and>
        (\<forall>m. rm = Some m \<longrightarrow> m < i \<and> ds ! m \<noteq> noDestination \<and> (\<forall>c. m \<le> c \<and> c < i \<longrightarrow> ds ! m = ds ! c)))"

lemma covered_append [simp]: "covered (rs @ [r]) c \<longleftrightarrow> covered rs c \<or> rg_matches r (int c)"
  by (auto simp: covered_def)

lemma sound_ranges_append: "sound_ranges D (rs @ [r]) \<longleftrightarrow> sound_ranges D rs \<and> range_wf r \<and>
    (\<forall>c < 128. rg_matches r (int c) \<longrightarrow> rg_destination r = D ! c \<and> rg_destination r \<noteq> noDestination)"
  by (auto simp: sound_ranges_def)

lemma close_range_inv:
  assumes inv: "scan_inv D i (ds, rs, Some m)" and i: "i < 128"
    and cl: "close_range m i ds rs = (ds', rs')"
  shows "length ds' = 128" "sound_ranges D rs'"
    "\<forall>c < 128. ds' ! c = D ! c \<or> ds' ! c = noDestination \<and> covered rs' c"
    "\<forall>c < i. D ! c \<noteq> noDestination \<longrightarrow> covered rs' c"
    "ds' ! i = ds ! i"
proof -
  have len: "length ds = 128" and snd: "sound_ranges D rs"
    and gen: "\<And>c. c < 128 \<Longrightarrow> ds ! c = D ! c \<or> ds ! c = noDestination \<and> covered rs c"
    and compl: "\<And>c. c < i \<Longrightarrow> D ! c \<noteq> noDestination \<Longrightarrow> covered rs c \<or> m \<le> c"
    and m: "m < i" "ds ! m \<noteq> noDestination" and const: "\<And>c. m \<le> c \<Longrightarrow> c < i \<Longrightarrow> ds ! m = ds ! c"
    using inv by (auto simp: scan_inv_def)
  have D_eq: "ds ! m = D ! c" if "m \<le> c" "c < i" for c
    using gen [of c] const [OF that] that m i by auto
  define ins where "ins = range_folds_case m (i - 1) ds"
  have eqs: "ds' = (if ins then foldl (\<lambda>ds k. ds[lower8 k := noDestination]) ds [m ..< i - 1 + 1] else ds)"
    "rs' = rs @ [if ins then \<lparr>rg_min = lower8 m, rg_max = lower8 (i - 1), rg_destination = ds' ! m,
        rg_caseSensitive = False\<rparr> else \<lparr>rg_min = m, rg_max = i - 1, rg_destination = ds ! m,
        rg_caseSensitive = True\<rparr>]"
    using cl unfolding close_range_def Let_def ins_def [symmetric] by (auto split: if_splits)
  have all: "length ds' = 128 \<and> sound_ranges D rs' \<and>
    (\<forall>c < 128. ds' ! c = D ! c \<or> ds' ! c = noDestination \<and> covered rs' c) \<and>
    (\<forall>c < i. D ! c \<noteq> noDestination \<longrightarrow> covered rs' c) \<and> ds' ! i = ds ! i"
  proof (cases ins)
    case False
    then have rs': "rs' = rs @ [\<lparr>rg_min = m, rg_max = i - 1, rg_destination = ds ! m, rg_caseSensitive = True\<rparr>]"
      and ds': "ds' = ds" using eqs by auto
    show ?thesis unfolding rs' ds' covered_append sensitive_matches
    proof (intro conjI)
      show "sound_ranges D (rs @ [\<lparr>rg_min = m, rg_max = i - 1, rg_destination = ds ! m, rg_caseSensitive = True\<rparr>])"
        unfolding sound_ranges_append sensitive_matches
        using snd m i D_eq by (auto simp: range_wf_def)
      show "length ds = 128" by (rule len)
      show "\<forall>c<128. ds ! c = D ! c \<or> ds ! c = noDestination \<and> (covered rs c \<or> m \<le> c \<and> c \<le> i - 1)"
        using gen by blast
      show "\<forall>c<i. D ! c \<noteq> noDestination \<longrightarrow> covered rs c \<or> m \<le> c \<and> c \<le> i - 1"
        using compl by (metis Suc_pred' less_Suc_eq_le not_less_zero zero_less_iff_neq_zero)
    qed (rule refl)
  next
    case True
    then have b: "65 \<le> m" "i - 1 \<le> 90" and low: "\<And>k. m \<le> k \<Longrightarrow> k < i \<Longrightarrow> ds ! m = ds ! (k + 32)"
      using m by (auto simp: ins_def range_folds_case_def list_all_iff lower8_upper)
    have img: "lower8 ` set [m ..< i - 1 + 1] = {m + 32 ..< i + 32}"
    proof -
      have "lower8 ` set [m ..< i - 1 + 1] = (\<lambda>k. k + 32) ` {m ..< i}"
        using b m by (intro image_cong) (auto simp: lower8_upper)
      then show ?thesis by (simp add: image_add_atLeastLessThan')
    qed
    have nth': "ds' ! c = (if m + 32 \<le> c \<and> c < i + 32 then noDestination else ds ! c)" if "c < 128" for c
      using True that len img by (simp add: eqs(1) nth_foldl_update)
    have dsm: "ds' ! m = ds ! m" using nth' [of m] m i by simp
    have rs': "rs' = rs @ [\<lparr>rg_min = m + 32, rg_max = i - 1 + 32, rg_destination = ds ! m, rg_caseSensitive = False\<rparr>]"
      using True eqs(2) dsm b m by (simp add: lower8_upper)
    have D_low: "ds ! m = D ! c" if "m + 32 \<le> c" "c < i + 32" for c
    proof -
      have "ds ! m = ds ! c" using low [of "c - 32"] that by simp
      then show ?thesis using gen [of c] that b m by auto
    qed
    show ?thesis unfolding rs' covered_append insensitive_matches [OF b]
    proof (intro conjI)
      show "length ds' = 128" using len eqs(1) by simp
      show "sound_ranges D (rs @ [\<lparr>rg_min = m + 32, rg_max = i - 1 + 32, rg_destination = ds ! m, rg_caseSensitive = False\<rparr>])"
        unfolding sound_ranges_append insensitive_matches [OF b]
        using snd m b D_eq D_low by (auto simp: range_wf_def)
      show "\<forall>c<128. ds' ! c = D ! c \<or> ds' ! c = noDestination \<and>
          (covered rs c \<or> m \<le> c \<and> c \<le> i - 1 \<or> m + 32 \<le> c \<and> c \<le> i - 1 + 32)"
        using gen nth' m by auto
      show "\<forall>c<i. D ! c \<noteq> noDestination \<longrightarrow>
          covered rs c \<or> m \<le> c \<and> c \<le> i - 1 \<or> m + 32 \<le> c \<and> c \<le> i - 1 + 32"
        using compl by (metis Suc_pred' less_Suc_eq_le not_less_zero zero_less_iff_neq_zero)
      show "ds' ! i = ds ! i" using nth' [OF i] b m by auto
    qed
  qed
  then show "length ds' = 128" "sound_ranges D rs'"
    "\<forall>c < 128. ds' ! c = D ! c \<or> ds' ! c = noDestination \<and> covered rs' c"
    "\<forall>c < i. D ! c \<noteq> noDestination \<longrightarrow> covered rs' c"
    "ds' ! i = ds ! i" by auto
qed

lemma range_step_inv:
  assumes inv: "scan_inv D i st" and i: "i < 128"
  shows "scan_inv D (Suc i) (range_step i st)"
proof -
  obtain ds rs rm where st: "st = (ds, rs, rm)" by (cases st)
  show ?thesis
  proof (cases rm)
    case None
    then show ?thesis using inv i st
      by (auto simp: scan_inv_def range_step_def less_Suc_eq)
  next
    case (Some m)
    show ?thesis
    proof (cases "ds ! i = ds ! m")
      case True
      then show ?thesis using inv i st Some by (auto simp: scan_inv_def range_step_def less_Suc_eq)
    next
      case False
      obtain ds' rs' where cl: "close_range m i ds rs = (ds', rs')" by fastforce
      have inv': "scan_inv D i (ds, rs, Some m)" using inv st Some by simp
      note c = close_range_inv [OF inv' i cl]
      have "range_step i st = (ds', rs', if ds' ! i = noDestination then None else Some i)"
        using False st Some cl by (simp add: range_step_def)
      then show ?thesis using c i by (auto simp: scan_inv_def less_Suc_eq)
    qed
  qed
qed

lemma fold_range_step_inv: "i \<le> 128 \<Longrightarrow> length D = 128 \<Longrightarrow> scan_inv D i (fold range_step [0 ..< i] (D, [], None))"
proof (induction i)
  case 0
  then show ?case by (simp add: scan_inv_def sound_ranges_def)
next
  case (Suc i)
  then show ?case using range_step_inv [of D i] by simp
qed

lemma collect_ranges_correct:
  assumes "length D = 128"
  shows "sound_ranges D (collect_ranges D)"
    and "\<And>c. c < 128 \<Longrightarrow> D ! c \<noteq> noDestination \<Longrightarrow> covered (collect_ranges D) c"
proof -
  obtain ds rs rm where F: "fold range_step [0 ..< 128] (D, [], None) = (ds, rs, rm)"
    by (cases "fold range_step [0 ..< 128] (D, [], None)")
  have inv: "scan_inv D 128 (ds, rs, rm)" using fold_range_step_inv [of 128 D] assms F by simp
  have "sound_ranges D (collect_ranges D) \<and> (\<forall>c<128. D ! c \<noteq> noDestination \<longrightarrow> covered (collect_ranges D) c)"
  proof (cases rm)
    case None
    then show ?thesis using inv F by (auto simp: scan_inv_def collect_ranges_def)
  next
    case (Some m)
    then have C: "collect_ranges D = rs @ [\<lparr>rg_min = m, rg_max = 127, rg_destination = ds ! m, rg_caseSensitive = True\<rparr>]"
      using F by (simp add: collect_ranges_def)
    have D_eq: "ds ! m = D ! c \<and> ds ! m \<noteq> noDestination" if "m \<le> c" "c < 128" for c
      using inv that Some unfolding scan_inv_def by simp metis
    have snd: "sound_ranges D rs" and m: "m < 128"
      and compl: "\<And>c. c < 128 \<Longrightarrow> D ! c \<noteq> noDestination \<Longrightarrow> covered rs c \<or> m \<le> c"
      using inv Some by (auto simp: scan_inv_def)
    have N: "D ! c \<noteq> noDestination" and E: "D ! c = ds ! m" if "m \<le> c" "c \<le> 127" for c
      using D_eq [of c] that by auto
    have "sound_ranges D (collect_ranges D)"
      unfolding C sound_ranges_append using snd m N E by (auto simp: range_wf_def sensitive_matches)
    moreover have "\<forall>c<128. D ! c \<noteq> noDestination \<longrightarrow> covered (collect_ranges D) c"
      unfolding C covered_append sensitive_matches using compl by auto
    ultimately show ?thesis ..
  qed
  then show "sound_ranges D (collect_ranges D)"
    and "\<And>c. c < 128 \<Longrightarrow> D ! c \<noteq> noDestination \<Longrightarrow> covered (collect_ranges D) c" by auto
qed


section \<open>Extracting jump tables\<close>

text \<open>A block of single-character ranges with consecutive characters and one case sensitivity.\<close>

definition block :: "Range list \<Rightarrow> nat \<Rightarrow> nat \<Rightarrow> bool" where
  "block rs b e \<longleftrightarrow> b < e \<and> e \<le> length rs \<and>
     (\<forall>k. b \<le> k \<and> k < e \<longrightarrow> rg_min (rs ! k) = rg_min (rs ! b) + (k - b)
        \<and> rg_max (rs ! k) = rg_min (rs ! b) + (k - b)
        \<and> rg_caseSensitive (rs ! k) = rg_caseSensitive (rs ! b))"

lemma blockD:
  assumes "block rs b e" "b \<le> k" "k < e"
  shows "rg_min (rs ! k) = rg_min (rs ! b) + (k - b)" "rg_max (rs ! k) = rg_min (rs ! b) + (k - b)"
    "rg_caseSensitive (rs ! k) = rg_caseSensitive (rs ! b)"
  using assms unfolding block_def by blast+

lemma block_bounds: "block rs b e \<Longrightarrow> b < e \<and> e \<le> length rs"
  by (simp add: block_def)

lemma block_table:
  assumes blk: "block rs b e" and ex: "extractJumpTable rs b (e - 1) = (t, rs')"
  shows "rs' = take b rs @ drop e rs"
    and "jt_min t = rg_min (rs ! b)" and "jt_max t = rg_min (rs ! b) + (e - 1 - b)"
    and "jt_caseSensitive t = rg_caseSensitive (rs ! b)"
    and "length (jt_destinations t) = e - b"
    and "\<And>k. k < e - b \<Longrightarrow> jt_destinations t ! k = rg_destination (rs ! (b + k))"
proof -
  have e: "b < e" "e - 1 + 1 = e" "b \<le> e - 1" "e - 1 < e" using block_bounds [OF blk] by auto
  have t: "t = \<lparr>jt_min = rg_min (rs ! b), jt_max = rg_max (rs ! (e - 1)),
       jt_caseSensitive = rg_caseSensitive (rs ! (e - 1)),
       jt_destinations = map (\<lambda>i. rg_destination (rs ! i)) [b ..< e]\<rparr>"
    and rs': "rs' = take b rs @ drop e rs"
    using ex unfolding extractJumpTable_def e(2) by auto
  show "rs' = take b rs @ drop e rs" by (rule rs')
  show "jt_max t = rg_min (rs ! b) + (e - 1 - b)" using blockD(2) [OF blk e(3,4)] by (simp add: t)
  show "jt_caseSensitive t = rg_caseSensitive (rs ! b)" using blockD(3) [OF blk e(3,4)] by (simp add: t)
qed (use ex block_bounds [OF blk] in \<open>auto simp: extractJumpTable_def\<close>)

lemma cov_block_table:
  assumes blk: "block rs b e" and ex: "extractJumpTable rs b (e - 1) = (t, rs')"
  shows "cov_table t = (\<Union>k \<in> {b ..< e}. cov_range (rs ! k))"
proof -
  note T = block_table [OF assms]
  define lo where "lo = rg_min (rs ! b)"
  have be: "b < e" using block_bounds [OF blk] by simp
  have rk: "rg_min (rs ! k) = lo + (k - b)" "rg_max (rs ! k) = lo + (k - b)"
      "rg_caseSensitive (rs ! k) = jt_caseSensitive t" if "k \<in> {b ..< e}" for k
    using blockD [OF blk, of k] that T(4) by (simp_all add: lo_def)
  have "jt_lookup t (int c) = Some x \<longleftrightarrow>
      (\<exists>k \<in> {b ..< e}. rg_matches (rs ! k) (int c) \<and> x = rg_destination (rs ! k))" for c x
  proof -
    define c' where "c' = fold_case (jt_caseSensitive t) (int c)"
    have m: "rg_matches (rs ! k) (int c) \<longleftrightarrow> c' = int lo + int (k - b)" if "k \<in> {b ..< e}" for k
      using rk [OF that] by (auto simp: rg_matches_def c'_def)
    have "jt_lookup t (int c) = Some x \<longleftrightarrow>
        int lo \<le> c' \<and> c' \<le> int lo + int (e - 1 - b) \<and> x = jt_destinations t ! nat (c' - int lo)"
      using T(2,3) by (auto simp: jt_lookup_def c'_def lo_def Let_def)
    also have "\<dots> \<longleftrightarrow> (\<exists>k \<in> {b ..< e}. c' = int lo + int (k - b) \<and> x = rg_destination (rs ! k))"
      (is "?L \<longleftrightarrow> ?R")
    proof
      assume L: ?L
      define k where "k = b + nat (c' - int lo)"
      have "k \<in> {b ..< e}" "c' = int lo + int (k - b)" using L be by (auto simp: k_def)
      moreover have "x = rg_destination (rs ! k)"
        using L T(6) [of "nat (c' - int lo)"] be by (auto simp: k_def)
      ultimately show ?R by blast
    next
      assume ?R
      then obtain k where k: "k \<in> {b ..< e}" "c' = int lo + int (k - b)" "x = rg_destination (rs ! k)"
        by blast
      then have "nat (c' - int lo) = k - b" by simp
      moreover have "x = jt_destinations t ! (k - b)" using k T(6) [of "k - b"] by auto
      moreover have "int lo \<le> c'" "c' \<le> int lo + int (e - 1 - b)" using k by auto
      ultimately show ?L by metis
    qed
    finally show ?thesis using m by auto
  qed
  then show ?thesis unfolding cov_table_def cov_range_def by auto
qed

lemma set_split_block:
  assumes "b \<le> e" "e \<le> length rs"
  shows "set rs = set (take b rs @ drop e rs) \<union> (\<lambda>k. rs ! k) ` {b ..< e}"
proof -
  have "rs = take b rs @ drop b rs" by simp
  also have "drop b rs = take (e - b) (drop b rs) @ drop e rs"
    using assms append_take_drop_id [of "e - b" "drop b rs"] by simp
  also have "take (e - b) (drop b rs) = map ((!) rs) [b ..< e]"
    using assms vec_slice_map_nth [of b "e - b" rs] by (simp add: vec_slice_def)
  finally have "set rs = set (take b rs @ map ((!) rs) [b ..< e] @ drop e rs)" by (rule arg_cong)
  then show ?thesis by auto
qed

lemma cover_extract:
  assumes blk: "block rs b e" and ex: "extractJumpTable rs b (e - 1) = (t, rs')"
  shows "cover rs' (ts @ [t]) = cover rs ts"
proof -
  have "set rs = set rs' \<union> (\<lambda>k. rs ! k) ` {b ..< e}"
    using set_split_block [of b e rs] block_table(1) [OF assms] block_bounds [OF blk] by simp
  then show ?thesis using cov_block_table [OF assms] by (auto simp: cover_def)
qed

lemma table_wf_extract:
  assumes blk: "block rs b e" and ex: "extractJumpTable rs b (e - 1) = (t, rs')"
    and wf: "\<forall>r \<in> set rs. range_wf r"
  shows "table_wf t" and "\<forall>r \<in> set rs'. range_wf r"
proof -
  note T = block_table [OF blk ex]
  have e: "b < e" "e \<le> length rs" using block_bounds [OF blk] by auto
  then have "range_wf (rs ! (e - 1))" "range_wf (rs ! b)" using wf by simp_all
  moreover have "rg_max (rs ! (e - 1)) = rg_min (rs ! b) + (e - 1 - b)"
    using e by (intro blockD(2) [OF blk]) auto
  ultimately show "table_wf t" using T e by (auto simp: table_wf_def range_wf_def Suc_diff_Suc)
  show "\<forall>r \<in> set rs'. range_wf r" using wf T(1) by (auto dest: in_set_takeD in_set_dropD)
qed


text \<open>The loop that looks for blocks, and what it leaves.\<close>

definition base_inv :: "Range list \<Rightarrow> nat \<Rightarrow> nat option \<Rightarrow> bool" where
  "base_inv rs pos base = (case base of None \<Rightarrow> True | Some b \<Rightarrow> block rs b pos)"

lemma block_single: "i < length rs \<Longrightarrow> rg_min (rs ! i) = rg_max (rs ! i) \<Longrightarrow> block rs i (Suc i)"
  unfolding block_def by (auto simp: le_less_Suc_eq)

lemma block_extend:
  assumes blk: "block rs b e" and e: "e < length rs"
    and r: "rg_min (rs ! e) = rg_max (rs ! e)" "rg_caseSensitive (rs ! b) = rg_caseSensitive (rs ! e)"
      "rg_max (rs ! (e - 1)) + 1 = rg_min (rs ! e)"
  shows "block rs b (Suc e)"
proof -
  have be: "b < e" using block_bounds [OF blk] by simp
  then have "rg_max (rs ! (e - 1)) = rg_min (rs ! b) + (e - 1 - b)"
    by (intro blockD(2) [OF blk]) auto
  then have last: "rg_min (rs ! e) = rg_min (rs ! b) + (e - b)" using r be by simp
  show ?thesis unfolding block_def
  proof (intro conjI allI impI)
    fix k assume "b \<le> k \<and> k < Suc e"
    then consider "b \<le> k" "k < e" | "k = e" by linarith
    then have "rg_min (rs ! k) = rg_min (rs ! b) + (k - b)
        \<and> rg_max (rs ! k) = rg_min (rs ! b) + (k - b)
        \<and> rg_caseSensitive (rs ! k) = rg_caseSensitive (rs ! b)"
      by cases (use blockD [OF blk, of k] last r in simp_all)
    then show "rg_min (rs ! k) = rg_min (rs ! b) + (k - b)"
      "rg_max (rs ! k) = rg_min (rs ! b) + (k - b)"
      "rg_caseSensitive (rs ! k) = rg_caseSensitive (rs ! b)" by auto
  qed (use be e in auto)
qed

definition tables_ok :: "(nat \<times> nat) set \<Rightarrow> Range list \<Rightarrow> JumpTable list \<Rightarrow> bool" where
  "tables_ok C rs ts \<longleftrightarrow> cover rs ts = C \<and> (\<forall>r \<in> set rs. range_wf r) \<and> (\<forall>t \<in> set ts. table_wf t)"

lemma tables_ok_extract:
  assumes "block rs b e" "extractJumpTable rs b (e - 1) = (t, rs')" "tables_ok C rs ts"
  shows "tables_ok C rs' (ts @ [t])"
  using assms cover_extract [OF assms(1,2)] table_wf_extract [OF assms(1,2)]
  by (auto simp: tables_ok_def)

declare table_loop.simps [simp del]

text \<open>Whatever the extraction of a block keeps, the loop keeps.\<close>

lemma table_loop_preserves:
  assumes Q: "\<And>rs ts b e t rs'. block rs b e \<Longrightarrow> extractJumpTable rs b (e - 1) = (t, rs') \<Longrightarrow> Q rs ts \<Longrightarrow> Q rs' (ts @ [t])"
  shows "Q rs ts \<Longrightarrow> base_inv rs pos base \<Longrightarrow> table_loop rs ts pos base = (rs', ts', base') \<Longrightarrow>
   Q rs' ts' \<and> base_inv rs' (length rs') base'"
proof (induction rs ts pos base rule: table_loop.induct)
  case (1 rs ts pos base)
  note IH = "1.IH" and ok = "1.prems"(1) and binv = "1.prems"(2)
  note run = "1.prems"(3) [unfolded table_loop.simps [of rs ts pos base]]
  show ?case
  proof (cases "pos < length rs")
    case False
    then have "pos = length rs" if "base = Some b" for b
      using binv that block_bounds [of rs b pos] by (simp add: base_inv_def)
    then show ?thesis using False run ok binv by (auto simp: base_inv_def split: option.splits)
  next
    case pos: True
    show ?thesis
    proof (cases base)
      case None
      then show ?thesis using run pos ok IH(1,2) [OF pos refl None]
        by (auto simp: base_inv_def block_single Let_def split: if_splits)
    next
      case (Some b)
      define brk where "brk \<longleftrightarrow> rg_min (rs ! pos) \<noteq> rg_max (rs ! pos)
        \<or> rg_caseSensitive (rs ! b) \<noteq> rg_caseSensitive (rs ! pos)
        \<or> rg_max (rs ! (pos - 1)) + 1 \<noteq> rg_min (rs ! pos)"
      have blk: "block rs b pos" using binv Some by (simp add: base_inv_def)
      note IHs = IH(3,4,5) [OF pos refl Some]
      show ?thesis
      proof (cases brk)
        case False
        then have "base_inv rs (pos + 1) base"
          using block_extend [OF blk pos] Some by (simp add: base_inv_def brk_def)
        then show ?thesis using run pos Some False IHs(3) ok
          unfolding brk_def by (simp add: Let_def)
      next
        case brk: True
        show ?thesis
        proof (cases "pos - b > 1")
          case True
          obtain t rs1 where ex: "extractJumpTable rs b (pos - 1) = (t, rs1)" by fastforce
          have "table_loop rs1 (ts @ [t]) (b + 1) None = (rs', ts', base')"
            using run pos Some brk True ex unfolding brk_def by (simp add: Let_def)
          then show ?thesis
            using IHs(1) brk True ex Q [OF blk ex ok]
            unfolding brk_def by (simp add: base_inv_def)
        next
          case False
          then show ?thesis using run pos Some brk IHs(2) ok
            unfolding brk_def by (simp add: base_inv_def Let_def)
        qed
      qed
    qed
  qed
qed

lemma split_tables_preserves:
  assumes Q: "\<And>rs ts b e t rs'. block rs b e \<Longrightarrow> extractJumpTable rs b (e - 1) = (t, rs') \<Longrightarrow> Q rs ts \<Longrightarrow> Q rs' (ts @ [t])"
    and "Q rs []" and sp: "split_tables rs = (rs', ts)"
  shows "Q rs' ts"
proof -
  obtain rs1 ts1 base where L: "table_loop rs [] 0 None = (rs1, ts1, base)"
    by (cases "table_loop rs [] 0 None")
  have "Q rs1 ts1 \<and> base_inv rs1 (length rs1) base"
  proof (rule table_loop_preserves [where Q = Q, OF _ _ _ L])
    show "Q rs []" by (rule assms(2))
  qed (rule Q, assumption+, simp add: base_inv_def)
  then have ok: "Q rs1 ts1" and b: "base_inv rs1 (length rs1) base" by auto
  show ?thesis
  proof (cases "\<exists>b. base = Some b \<and> length rs1 - b > 1")
    case True
    then obtain b0 where b0: "base = Some b0" "length rs1 - b0 > 1" by blast
    obtain t rs2 where ex: "extractJumpTable rs1 b0 (length rs1 - 1) = (t, rs2)" by fastforce
    then show ?thesis using Q [OF _ ex ok] b b0 sp L
      by (auto simp: split_tables_def base_inv_def)
  next
    case False
    then show ?thesis using sp L ok by (auto simp: split_tables_def split: option.splits if_splits)
  qed
qed

lemma split_tables_ok:
  assumes "\<forall>r \<in> set rs. range_wf r" "split_tables rs = (rs', ts)"
  shows "tables_ok (cover rs []) rs' ts"
proof (rule split_tables_preserves [OF _ _ assms(2)])
  show "tables_ok (cover rs []) rs []" using assms(1) by (simp add: tables_ok_def)
qed (rule tables_ok_extract)

section \<open>The destination array\<close>

lemma fill_destinations_nth:
  "ranges_wf lo trs \<Longrightarrow> 0 \<le> lo \<Longrightarrow> length D = 128 \<Longrightarrow>
   length (fill_destinations skip trs D) = 128 \<and>
   (\<forall>c < 128. fill_destinations skip trs D ! c =
      (case lookup_range trs (int c) of
         Some t \<Rightarrow> if skip = Some t then D ! c else t
       | None \<Rightarrow> D ! c))"
proof (induction skip trs D arbitrary: lo rule: fill_destinations.induct)
  case (2 skip r t trs D)
  define D' where "D' = foldl (\<lambda>ds i. ds[nat i := t]) D [cr_first r .. cr_last r]"
  have wf: "lo \<le> cr_first r" "cr_last r \<le> 127" "ranges_wf (cr_last r + 1) trs" "0 \<le> cr_last r + 1"
    using "2.prems" by auto
  have len: "length D' = 128" using "2.prems"(3) by (simp add: D'_def)
  have D': "D' ! c = (if in_range (int c) r then t else D ! c)" if "c < 128" for c
  proof -
    have "c \<in> nat ` set [cr_first r .. cr_last r] \<longleftrightarrow> in_range (int c) r"
      using wf(1) "2.prems"(2) by (force simp: in_range_def image_iff)
    then show ?thesis using that "2.prems"(3) by (simp add: D'_def nth_foldl_update)
  qed
  have out: "lookup_range trs (int c) = None" if "in_range (int c) r" for c
    using that lookup_range_bounds [OF wf(3), of "int c"] by (cases "lookup_range trs (int c)") (auto simp: in_range_def)
  show ?case
  proof (cases "skip = Some t")
    case True
    then show ?thesis using "2.IH"(1) [OF True wf(3,4) "2.prems"(3)] out by auto
  next
    case False
    then show ?thesis using "2.IH"(2) [OF False wf(3,4)] len D' out
      unfolding D'_def [symmetric] fill_destinations.simps by (auto split: option.splits)
  qed
qed simp

section \<open>Reading the result\<close>

text \<open>The entries in the order in which their instructions are emitted.\<close>

fun tables_lookup :: "JumpTable list \<Rightarrow> cchar \<Rightarrow> nat option" where
  "tables_lookup [] c = None"
| "tables_lookup (t # ts) c = (case jt_lookup t c of Some x \<Rightarrow> Some x | None \<Rightarrow> tables_lookup ts c)"

fun ranges_lookup :: "Range list \<Rightarrow> cchar \<Rightarrow> nat option" where
  "ranges_lookup [] c = None"
| "ranges_lookup (r # rs) c = (if rg_matches r c then Some (rg_destination r) else ranges_lookup rs c)"

definition explicit_lookup :: "Transitions \<Rightarrow> cchar \<Rightarrow> nat option" where
  "explicit_lookup T c =
     (case tables_lookup (jumpTables T) c of Some x \<Rightarrow> Some x | None \<Rightarrow> ranges_lookup (ranges T) c)"

lemma explicit_lookup_cover:
  assumes "c < 128" "\<And>x y. (c, x) \<in> cover (ranges T) (jumpTables T) \<Longrightarrow> (c, y) \<in> cover (ranges T) (jumpTables T) \<Longrightarrow> x = y"
  shows "explicit_lookup T (int c) = Some x \<longleftrightarrow> (c, x) \<in> cover (ranges T) (jumpTables T)"
proof -
  have t_some: "\<exists>t \<in> set ts. jt_lookup t (int c) = Some y" if "tables_lookup ts (int c) = Some y" for ts y
    using that by (induction ts) (auto split: option.splits)
  have t_none: "jt_lookup t (int c) = None" if "tables_lookup ts (int c) = None" "t \<in> set ts" for ts t
    using that by (induction ts) (auto split: option.splits)
  have r_some: "\<exists>r \<in> set rs. rg_matches r (int c) \<and> y = rg_destination r" if "ranges_lookup rs (int c) = Some y" for rs y
    using that by (induction rs) (auto split: if_splits)
  have r_none: "\<not> rg_matches r (int c)" if "ranges_lookup rs (int c) = None" "r \<in> set rs" for rs r
    using that by (induction rs) (auto split: if_splits)
  have mem: "(c, y) \<in> cover (ranges T) (jumpTables T) \<longleftrightarrow>
      (\<exists>r \<in> set (ranges T). rg_matches r (int c) \<and> y = rg_destination r) \<or>
      (\<exists>t \<in> set (jumpTables T). jt_lookup t (int c) = Some y)" for y
    using assms(1) by (auto simp: cover_def cov_range_def cov_table_def)
  have some: "(c, y) \<in> cover (ranges T) (jumpTables T)" if "explicit_lookup T (int c) = Some y" for y
    using that t_some r_some unfolding mem explicit_lookup_def by (fastforce split: option.splits)
  have none: "(c, y) \<notin> cover (ranges T) (jumpTables T)" if "explicit_lookup T (int c) = None" for y
    using that t_none r_none unfolding mem explicit_lookup_def by (fastforce split: option.splits)
  show ?thesis using some none assms(2) by (cases "explicit_lookup T (int c)") blast+
qed

definition node_dests :: "DFA \<Rightarrow> DFANode \<Rightarrow> nat list" where
  "node_dests d n = fill_destinations
     (if canUseFallbackTransition d n then Some (bestFallbackTarget d n) else None)
     (transitions d n) (replicate 128 noDestination)"

text \<open>What the explicit instructions of a node must send each character to.\<close>

definition explicit_target :: "DFA \<Rightarrow> DFANode \<Rightarrow> cchar \<Rightarrow> nat option" where
  "explicit_target d n c =
     (case lookup_range (transitions d n) c of
        None \<Rightarrow> None
      | Some t \<Rightarrow> if canUseFallbackTransition d n \<and> t = bestFallbackTarget d n then None else Some t)"

lemma node_target_live: "node_wf d n \<Longrightarrow> lookup_range (transitions d n) c = Some t \<Longrightarrow> live d t"
  by (fastforce simp: node_wf_def list_all_iff dest!: lookup_range_SomeD)

lemma live_not_none: "length (nodes d) < u32_max \<Longrightarrow> live d t \<Longrightarrow> t \<noteq> noDestination"
  by (simp add: live_def noDestination_def)

lemma node_dests_nth:
  assumes "node_wf d n" "length (nodes d) < u32_max" "c < 128"
  shows "node_dests d n ! c = (case explicit_target d n (int c) of None \<Rightarrow> noDestination | Some t \<Rightarrow> t)"
    and "node_dests d n ! c \<noteq> noDestination \<longleftrightarrow> explicit_target d n (int c) \<noteq> None"
    and "length (node_dests d n) = 128"
proof -
  have F: "length (node_dests d n) = 128 \<and> (\<forall>c < 128. node_dests d n ! c =
      (case lookup_range (transitions d n) (int c) of
         Some t \<Rightarrow> if (if canUseFallbackTransition d n then Some (bestFallbackTarget d n) else None) = Some t
           then replicate 128 noDestination ! c else t
       | None \<Rightarrow> replicate 128 noDestination ! c))"
    unfolding node_dests_def using assms(1)
    by (intro fill_destinations_nth [of 0]) (simp_all add: node_wf_def)
  then show nth: "node_dests d n ! c = (case explicit_target d n (int c) of None \<Rightarrow> noDestination | Some t \<Rightarrow> t)"
    using assms(3) by (auto simp: explicit_target_def split: option.splits)
  have "t \<noteq> noDestination" if "explicit_target d n (int c) = Some t" for t
    using that node_target_live [OF assms(1)] live_not_none [OF assms(2)]
    by (auto simp: explicit_target_def split: option.splits if_splits)
  then show "node_dests d n ! c \<noteq> noDestination \<longleftrightarrow> explicit_target d n (int c) \<noteq> None"
    using nth by (auto split: option.splits)
  show "length (node_dests d n) = 128" using F by simp
qed

lemma node_transitions_cover:
  assumes wf: "node_wf d n" and sz: "length (nodes d) < u32_max"
  defines "T \<equiv> node_transitions d n"
  shows "tables_ok {(c, t) | c t. c < 128 \<and> explicit_target d n (int c) = Some t} (ranges T) (jumpTables T)"
proof -
  let ?rs = "collect_ranges (node_dests d n)"
  have T: "split_tables ?rs = (ranges T, jumpTables T)"
    by (auto simp: T_def node_transitions_def Let_def node_dests_def split: prod.splits)
  note nth = node_dests_nth [OF wf sz]
  have len: "length (node_dests d n) = 128" using nth(3) [of 0] by simp
  note C = collect_ranges_correct [OF len]
  have "cover ?rs [] = {(c, t) | c t. c < 128 \<and> explicit_target d n (int c) = Some t}"
  proof (intro set_eqI iffI)
    fix p assume "p \<in> cover ?rs []"
    then obtain r c where r: "r \<in> set ?rs" "c < 128" "rg_matches r (int c)" "p = (c, rg_destination r)"
      by (auto simp: cover_def cov_range_def)
    then have "node_dests d n ! c = rg_destination r" "node_dests d n ! c \<noteq> noDestination"
      using C(1) unfolding sound_ranges_def by blast+
    then show "p \<in> {(c, t) | c t. c < 128 \<and> explicit_target d n (int c) = Some t}"
      using r nth(1,2) [of c] by (auto split: option.splits)
  next
    fix p assume "p \<in> {(c, t) | c t. c < 128 \<and> explicit_target d n (int c) = Some t}"
    then obtain c t where p: "p = (c, t)" "c < 128" "explicit_target d n (int c) = Some t" by blast
    then have D: "node_dests d n ! c = t" "node_dests d n ! c \<noteq> noDestination"
      using nth(1,2) [of c] by auto
    then obtain r where r: "r \<in> set ?rs" "rg_matches r (int c)"
      using C(2) p by (auto simp: covered_def)
    then have "t = rg_destination r" using C(1) p D unfolding sound_ranges_def by blast
    then show "p \<in> cover ?rs []" using r p by (auto simp: cover_def cov_range_def)
  qed
  then show ?thesis using split_tables_ok [OF _ T] C(1) by (simp add: sound_ranges_def)
qed

lemma node_transitions_lookup:
  assumes wf: "node_wf d n" and sz: "length (nodes d) < u32_max" and c: "0 \<le> c" "c \<le> 127"
  shows "explicit_lookup (node_transitions d n) c = explicit_target d n c"
proof -
  let ?T = "node_transitions d n"
  have cov: "(nat c, x) \<in> cover (ranges ?T) (jumpTables ?T) \<longleftrightarrow> explicit_target d n c = Some x" for x
    using node_transitions_cover [OF wf sz] c by (auto simp: tables_ok_def)
  have "explicit_lookup ?T (int (nat c)) = Some x \<longleftrightarrow> explicit_target d n c = Some x" for x
    using explicit_lookup_cover [of "nat c" ?T x] c unfolding cov by auto
  then show ?thesis using c by (metis int_nat_eq option.exhaust_sel option.discI)
qed

lemma node_transitions_wf:
  assumes wf: "node_wf d n" and sz: "length (nodes d) < u32_max"
  defines "T \<equiv> node_transitions d n"
  shows "\<And>r. r \<in> set (ranges T) \<Longrightarrow> range_wf r \<and> live d (rg_destination r)"
    and "\<And>t. t \<in> set (jumpTables T) \<Longrightarrow> table_wf t \<and> (\<forall>x \<in> set (jt_destinations t). live d x)"
    and "useFallbackTransition T = canUseFallbackTransition d n"
    and "useFallbackTransition T \<Longrightarrow> fallbackTransitionTarget T = bestFallbackTarget d n"
    and "useFallbackTransition T \<Longrightarrow> live d (fallbackTransitionTarget T)"
proof -
  note ok = node_transitions_cover [OF wf sz, folded T_def, unfolded tables_ok_def]
  have live: "live d x" if "(c, x) \<in> cover (ranges T) (jumpTables T)" for c x
    using that ok node_target_live [OF wf] by (auto simp: explicit_target_def split: option.splits if_splits)
  show "range_wf r \<and> live d (rg_destination r)" if r: "r \<in> set (ranges T)" for r
  proof -
    have w: "range_wf r" using ok r by blast
    then have "(rg_min r, rg_destination r) \<in> cov_range r"
      by (auto simp: cov_range_def rg_matches_def range_wf_def fold_case_def toASCIILower_def)
    then show ?thesis using w r live by (auto simp: cover_def)
  qed
  show "table_wf t \<and> (\<forall>x \<in> set (jt_destinations t). live d x)" if t: "t \<in> set (jumpTables T)" for t
  proof -
    have w: "table_wf t" using ok t by blast
    have "live d (jt_destinations t ! k)" if "k < length (jt_destinations t)" for k
    proof -
      have "(jt_min t + k, jt_destinations t ! k) \<in> cov_table t"
        using w that by (auto simp: cov_table_def jt_lookup_def table_wf_def fold_case_def toASCIILower_def Let_def)
      then show ?thesis using t live by (auto simp: cover_def)
    qed
    then show ?thesis using w by (auto simp: in_set_conv_nth)
  qed
  show u: "useFallbackTransition T = canUseFallbackTransition d n"
    and f: "useFallbackTransition T \<Longrightarrow> fallbackTransitionTarget T = bestFallbackTarget d n"
    by (auto simp: T_def node_transitions_def Let_def split: prod.splits)
  show "live d (fallbackTransitionTarget T)" if "useFallbackTransition T"
    using that u f bestFallbackTarget_mem [of d n] wf by (auto simp: node_wf_def list_all_iff)
qed

section \<open>The number of entries\<close>

definition entries :: "Range list \<Rightarrow> JumpTable list \<Rightarrow> nat" where
  "entries rs ts = length rs + sum_list (map (\<lambda>t. length (jt_destinations t)) ts)"

lemma collect_ranges_length: "length (collect_ranges D) \<le> 129"
proof -
  have step: "length (fst (snd (range_step i st))) \<le> Suc (length (fst (snd st)))" for i st
    by (auto simp: range_step_def close_range_def Let_def split: prod.splits option.splits)
  have "length (fst (snd (fold range_step is st))) \<le> length is + length (fst (snd st))" for "is" st
  proof (induction "is" arbitrary: st)
    case (Cons i "is")
    have "length (fst (snd (fold range_step is (range_step i st)))) \<le> length is + length (fst (snd (range_step i st)))"
      by (rule Cons.IH)
    then show ?case using step [of i st] by simp
  qed simp
  from this [of "[0 ..< 128]" "(D, [], None)"] show ?thesis
    by (auto simp: collect_ranges_def split: prod.splits option.splits)
qed

text \<open>Moving a block into a table moves entries, it never adds one.\<close>

lemma entries_extract:
  assumes "block rs b e" "extractJumpTable rs b (e - 1) = (t, rs')" "entries rs ts \<le> n"
  shows "entries rs' (ts @ [t]) \<le> n"
  using assms(3) block_table(1,5) [OF assms(1,2)] block_bounds [OF assms(1)] by (simp add: entries_def)

lemma node_entries: "entries (ranges (node_transitions d n)) (jumpTables (node_transitions d n)) \<le> 129"
proof -
  have "split_tables (collect_ranges (node_dests d n)) =
      (ranges (node_transitions d n), jumpTables (node_transitions d n))"
    by (auto simp: node_transitions_def Let_def node_dests_def split: prod.splits)
  then show ?thesis
  proof (rule split_tables_preserves [rotated 2])
    show "entries (collect_ranges (node_dests d n)) [] \<le> 129" by (simp add: entries_def collect_ranges_length)
  qed (rule entries_extract)
qed

text \<open>An upper bound on the code of a node that needs no computation of its transitions.\<close>

definition node_size_bound :: "DFANode \<Rightarrow> nat" where
  "node_size_bound n = 7 * actionsLength n + 908"

definition dfa_size_bound :: "DFA \<Rightarrow> nat" where
  "dfa_size_bound d = 4 + sum_list (map node_size_bound (nodes d))"

lemma nodeTransitionsMax_bound:
  assumes wf: "node_wf d n" and sz: "length (nodes d) < u32_max"
  shows "nodeTransitionsMaxBytecodeSize d n \<le> 908"
proof -
  let ?T = "node_transitions d n"
  have t: "checkForJumpTableMaxBytecodeSize t \<le> 7 * length (jt_destinations t)" if "t \<in> set (jumpTables ?T)" for t
    using node_transitions_wf(2) [OF wf sz that] by (simp add: checkForJumpTableMaxBytecodeSize_def table_wf_def)
  have "sum_list (map checkForJumpTableMaxBytecodeSize (jumpTables ?T)) \<le> sum_list (map (\<lambda>t. 7 * length (jt_destinations t)) (jumpTables ?T))"
    using t by (intro sum_list_mono) auto
  moreover have "sum_list (map checkForRangeMaxBytecodeSize (ranges ?T)) \<le> sum_list (map (\<lambda>r. 7) (ranges ?T))"
    by (intro sum_list_mono) (simp add: checkForRangeMaxBytecodeSize_def)
  ultimately show ?thesis using node_entries [of d n]
    by (simp add: nodeTransitionsMaxBytecodeSize_def Let_def entries_def sum_list_const_mult sum_list_triv)
qed

lemma compiledNodeMax_bound:
  assumes "dfa_wf d" "q < length (nodes d)"
  shows "compiledNodeMaxBytecodeSize d q \<le> node_size_bound (nodes d ! q)"
proof (cases "isKilled (nodes d ! q)")
  case False
  then have "node_wf d (nodes d ! q)" using assms by (intro dfa_wf_node) (simp_all add: live_def)
  then have "nodeTransitionsMaxBytecodeSize d (nodes d ! q) \<le> 908"
    using assms by (intro nodeTransitionsMax_bound) (simp_all add: dfa_wf_def)
  moreover have "sum_list (map appendActionBytecodeSize as) \<le> 7 * length as" for as
    by (induction as) (auto simp: appendActionBytecodeSize_def)
  then have "sum_list (map appendActionBytecodeSize (node_actions d (nodes d ! q))) \<le> 7 * actionsLength (nodes d ! q)"
    by (metis (no_types) add_diff_cancel_left' length_map length_upt node_actions_def)
  ultimately show ?thesis using False by (simp add: compiledNodeMaxBytecodeSize_def Let_def node_size_bound_def)
qed (simp add: compiledNodeMaxBytecodeSize_def Let_def)

end
