(* ===== verification/Code_Layout.thy ===== *)
theory Code_Layout
  imports Transition_Tables
begin

text \<open>
  What \<open>DFABytecodeCompiler\<close> writes, instruction by instruction. An emitted instruction is its
  fixed bytes followed by jump fields of one width; the compiler writes zeroes into the fields
  and a link record for each, and the final loop of \<open>compile\<close> overwrites the zeroes. The lemmas
  say where every node's code ends up, that every field is wide enough for its distance (so no
  \<open>RELEASE_ASSERT\<close> of the linker fails), and what the linked bytes are.
\<close>

section \<open>Emitted instructions\<close>

type_synonym emitted = "u8 list \<times> nat list \<times> DFABytecodeJumpSize"

fun esize :: "emitted \<Rightarrow> nat" where
  "esize (h, ds, s) = length h + length ds * jumpSizeInBytes s"

definition csize :: "emitted list \<Rightarrow> nat" where
  "csize es = sum_list (map esize es)"

fun unlinked :: "emitted \<Rightarrow> u8 list" where
  "unlinked (h, ds, s) = h @ replicate (length ds * jumpSizeInBytes s) 0"

type_synonym link_key = "DFABytecodeJumpSize \<times> nat \<times> nat \<times> nat"

definition link_key :: "LinkRecord \<Rightarrow> link_key" where
  "link_key r = (lr_jumpSize r, lr_instructionLocation r, lr_jumpLocation r, lr_destinationNodeIndex r)"

fun field_keys :: "DFABytecodeJumpSize \<Rightarrow> nat \<Rightarrow> nat \<Rightarrow> nat list \<Rightarrow> link_key list" where
  "field_keys s loc pos [] = []"
| "field_keys s loc pos (x # xs) = (s, u32 loc, u32 pos, x) # field_keys s loc (pos + jumpSizeInBytes s) xs"

fun link_keys :: "nat \<Rightarrow> emitted list \<Rightarrow> link_key list" where
  "link_keys loc [] = []"
| "link_keys loc ((h, ds, s) # es) =
     field_keys s loc (loc + length h) ds @ link_keys (loc + esize (h, ds, s)) es"

text \<open>A predicate on every instruction of a sequence and its location.\<close>

fun all_at :: "(nat \<Rightarrow> emitted \<Rightarrow> bool) \<Rightarrow> nat \<Rightarrow> emitted list \<Rightarrow> bool" where
  "all_at P loc [] = True"
| "all_at P loc (e # es) = (P loc e \<and> all_at P (loc + esize e) es)"

definition action_instr :: "u64 \<Rightarrow> emitted" where
  "action_instr a = (m_bytecode (emitAppendAction a
     \<lparr>m_bytecode = [], m_maxNodeStartOffsets = [], m_nodeStartOffsets = [], m_linkRecords = []\<rparr>), [], Int8)"

definition table_instr :: "JumpTable \<Rightarrow> DFABytecodeJumpSize \<Rightarrow> emitted" where
  "table_instr t s =
     ([opcode (if jt_caseSensitive t then JumpTableCaseSensitive else JumpTableCaseInsensitive) OR jump_size_code s,
       word_of_int (int (jt_min t)), word_of_int (int (jt_max t))], jt_destinations t, s)"

definition range_instr :: "Range \<Rightarrow> DFABytecodeJumpSize \<Rightarrow> emitted" where
  "range_instr r s =
     (if rg_min r = rg_max r
      then ([opcode (if rg_caseSensitive r then CheckValueCaseSensitive else CheckValueCaseInsensitive)
               OR jump_size_code s, word_of_int (int (rg_min r))], [rg_destination r], s)
      else ([opcode (if rg_caseSensitive r then CheckValueRangeCaseSensitive else CheckValueRangeCaseInsensitive)
               OR jump_size_code s, word_of_int (int (rg_min r)), word_of_int (int (rg_max r))],
            [rg_destination r], s))"

definition jump_instr :: "nat \<Rightarrow> DFABytecodeJumpSize \<Rightarrow> emitted" where
  "jump_instr x s = ([opcode Jump OR jump_size_code s], [x], s)"

definition terminate_instr :: emitted where
  "terminate_instr = ([opcode Terminate], [], Int8)"

lemma csize_Nil [simp]: "csize [] = 0"
  by (simp add: csize_def)

lemma csize_Cons [simp]: "csize (e # es) = esize e + csize es"
  by (simp add: csize_def)

lemma csize_append [simp]: "csize (es @ es') = csize es + csize es'"
  by (simp add: csize_def)

lemma length_unlinked [simp]: "length (unlinked e) = esize e"
  by (cases e) simp

lemma length_concat_unlinked [simp]: "length (concat (map unlinked es)) = csize es"
  by (induction es) auto

lemma link_keys_append: "link_keys loc (es @ es') = link_keys loc es @ link_keys (loc + csize es) es'"
  by (induction loc es rule: link_keys.induct) (auto simp: add.assoc)

lemma all_at_append [simp]: "all_at P loc (es @ es') \<longleftrightarrow> all_at P loc es \<and> all_at P (loc + csize es) es'"
  by (induction es arbitrary: loc) (auto simp: add.assoc)

lemma all_at_mono: "all_at P loc es \<Longrightarrow> (\<And>l e. P l e \<Longrightarrow> Q l e) \<Longrightarrow> all_at Q loc es"
  by (induction es arbitrary: loc) auto

section \<open>Emission\<close>

text \<open>
  The width chosen for a field is that of the longest possible jump to its destination, or more.
\<close>

definition wide_enough :: "DFABytecodeCompiler \<Rightarrow> nat \<Rightarrow> nat \<Rightarrow> emitted \<Rightarrow> bool" where
  "wide_enough c q loc e = (case e of (h, ds, s) \<Rightarrow>
     \<forall>x \<in> set ds. smallestPossibleJumpSize (longestPossibleJump (u32 loc) q x c) \<le> s)"

definition emits :: "nat \<Rightarrow> DFABytecodeCompiler \<Rightarrow> DFABytecodeCompiler \<Rightarrow> emitted list \<Rightarrow> bool" where
  "emits q c c' es \<longleftrightarrow>
     m_bytecode c' = m_bytecode c @ concat (map unlinked es) \<and>
     m_maxNodeStartOffsets c' = m_maxNodeStartOffsets c \<and>
     m_nodeStartOffsets c' = m_nodeStartOffsets c \<and>
     map link_key (m_linkRecords c') =
       map link_key (m_linkRecords c) @ link_keys (length (m_bytecode c)) es \<and>
     all_at (wide_enough c q) (length (m_bytecode c)) es"

lemma longestPossibleJump_cong:
  "m_maxNodeStartOffsets c' = m_maxNodeStartOffsets c \<Longrightarrow> m_nodeStartOffsets c' = m_nodeStartOffsets c \<Longrightarrow>
   longestPossibleJump loc q x c' = longestPossibleJump loc q x c"
  by (simp add: longestPossibleJump_def)

lemma wide_enough_cong:
  "m_maxNodeStartOffsets c' = m_maxNodeStartOffsets c \<Longrightarrow> m_nodeStartOffsets c' = m_nodeStartOffsets c \<Longrightarrow>
   wide_enough c' = wide_enough c"
  by (intro ext) (simp add: wide_enough_def longestPossibleJump_cong [of c' c])

lemma emits_Nil [simp]: "emits q c c []"
  by (simp add: emits_def)

lemma emits_trans: "emits q c c' es \<Longrightarrow> emits q c' c'' es' \<Longrightarrow> emits q c c'' (es @ es')"
  by (auto simp: emits_def link_keys_append dest: wide_enough_cong)

lemma emits_snoc: "emits q c c' es \<Longrightarrow> emits q c' c'' [e] \<Longrightarrow> emits q c c'' (es @ [e])"
  by (rule emits_trans)

lemma appendZeroes_simps [simp]:
  "m_bytecode (appendZeroes s c) = m_bytecode c @ replicate (jumpSizeInBytes s) 0"
  "m_maxNodeStartOffsets (appendZeroes s c) = m_maxNodeStartOffsets c"
  "m_nodeStartOffsets (appendZeroes s c) = m_nodeStartOffsets c"
  "m_linkRecords (appendZeroes s c) = m_linkRecords c"
  by (cases s; simp add: append_int_def numeral_eq_Suc)+

lemmas emit_defs = append_int_def append_byte_def append_link_def

lemma u32_add [simp]: "u32 (u32 a + b) = u32 (a + b)"
  by (simp add: u32_def mod_add_left_eq)

lemma u32_Suc [simp]:
  "u32 (Suc (u32 a)) = u32 (Suc a)" "u32 (Suc (Suc (u32 a))) = u32 (Suc (Suc a))"
  "u32 (Suc (Suc (Suc (u32 a)))) = u32 (Suc (Suc (Suc a)))"
  using u32_add [of a 1] u32_add [of a 2] u32_add [of a 3] by (simp_all add: numeral_3_eq_3)

lemma u32_idem [simp]: "u32 (u32 a) = u32 a"
  by (simp add: u32_def)

lemma emits_jump: "\<exists>s. emits q c (emitJump q x c) [jump_instr x s]"
  by (rule exI [of _ "smallestPossibleJumpSize (longestPossibleJump (u32 (length (m_bytecode c))) q x c)"])
    (simp add: emits_def emitJump_def Let_def emit_defs jump_instr_def link_key_def wide_enough_def
      longestPossibleJump_def)

lemma emits_check: "\<exists>s. emits q c (compileCheckForRange q r c) [range_instr r s]"
  by (rule exI [of _ "smallestPossibleJumpSize (longestPossibleJump (u32 (length (m_bytecode c))) q (rg_destination r) c)"])
    (simp add: emits_def compileCheckForRange_def emitCheckValue_def emitCheckValueRange_def Let_def
      emit_defs range_instr_def link_key_def wide_enough_def longestPossibleJump_def numeral_3_eq_3)

lemma emits_terminate: "emits q c (emitTerminate c) [terminate_instr]"
  by (simp add: emits_def emitTerminate_def emit_defs terminate_instr_def wide_enough_def)

lemma emits_action: "emits q c (emitAppendAction a c) [action_instr a]"
  by (simp add: emits_def emitAppendAction_def emit_defs action_instr_def wide_enough_def)

lemma emits_actions:
  "emits q c (foldl (\<lambda>c' a. emitAppendAction a c') c as) (map action_instr as)"
proof (induction as rule: rev_induct)
  case (snoc a as)
  then show ?case using emits_snoc [OF snoc emits_action] by simp
qed simp

lemma max_foldl_le:
  fixes f :: "'b \<Rightarrow> 'a::linorder"
  shows "s \<le> foldl (\<lambda>s x. max s (f x)) s xs \<and> (\<forall>x \<in> set xs. f x \<le> foldl (\<lambda>s x. max s (f x)) s xs)"
proof (induction xs arbitrary: s)
  case (Cons x xs)
  have "max s (f x) \<le> foldl (\<lambda>s x. max s (f x)) (max s (f x)) xs" using Cons.IH by blast
  then show ?case using Cons.IH [of "max s (f x)"] by auto
qed simp

lemma table_fields:
  fixes c :: DFABytecodeCompiler and s :: DFABytecodeJumpSize and q loc :: nat
  defines "step \<equiv> \<lambda>c' x.
      let distance = longestPossibleJump loc q x c' in
      appendZeroes s (append_link s distance (u32 loc) (u32 (length (m_bytecode c'))) x c')"
  shows "m_bytecode (foldl step c xs) = m_bytecode c @ replicate (length xs * jumpSizeInBytes s) 0"
    and "m_maxNodeStartOffsets (foldl step c xs) = m_maxNodeStartOffsets c"
    and "m_nodeStartOffsets (foldl step c xs) = m_nodeStartOffsets c"
    and "map link_key (m_linkRecords (foldl step c xs)) =
      map link_key (m_linkRecords c) @ field_keys s loc (length (m_bytecode c)) xs"
  by (induction xs arbitrary: c)
    (simp_all add: step_def append_link_def Let_def link_key_def replicate_add)

lemma emits_table: "\<exists>s. emits q c (compileJumpTable q t c) [table_instr t s]"
proof -
  let ?loc = "length (m_bytecode c)"
  define s where "s = foldl (\<lambda>s x. max s (smallestPossibleJumpSize
      (longestPossibleJump (u32 ?loc) q x c))) Int8 (jt_destinations t)"
  define c1 where "c1 = append_int 1 (int (jt_max t)) (append_int 1 (int (jt_min t))
      (append_byte (opcode (if jt_caseSensitive t then JumpTableCaseSensitive else JumpTableCaseInsensitive)
         OR jump_size_code s) c))"
  have c1: "m_bytecode c1 = m_bytecode c @ fst (table_instr t s)"
    "m_maxNodeStartOffsets c1 = m_maxNodeStartOffsets c" "m_nodeStartOffsets c1 = m_nodeStartOffsets c"
    "m_linkRecords c1 = m_linkRecords c"
    by (simp_all add: c1_def emit_defs table_instr_def)
  have C: "compileJumpTable q t c = foldl (\<lambda>c' x.
      let distance = longestPossibleJump (u32 ?loc) q x c' in
      appendZeroes s (append_link s distance (u32 (u32 ?loc)) (u32 (length (m_bytecode c'))) x c'))
      c1 (jt_destinations t)"
    by (simp add: compileJumpTable_def s_def c1_def Let_def)
  have keys: "field_keys s (u32 ?loc) pos xs = field_keys s ?loc pos xs" for pos xs
    by (induction xs arbitrary: pos) auto
  have "emits q c (compileJumpTable q t c) [table_instr t s]"
    unfolding emits_def C table_fields c1
    using max_foldl_le [of Int8 "\<lambda>x. smallestPossibleJumpSize (longestPossibleJump (u32 ?loc) q x c)"
      "jt_destinations t"]
    by (simp add: table_instr_def keys wide_enough_def s_def [symmetric] add.commute)
  then show ?thesis ..
qed

lemma emits_foldl:
  assumes "\<And>c x. x \<in> set xs \<Longrightarrow> \<exists>s. emits q c (f c x) [g x s]"
  shows "\<exists>es. emits q c (foldl f c xs) es \<and> list_all2 (\<lambda>x e. \<exists>s. e = g x s) xs es"
  using assms
proof (induction xs rule: rev_induct)
  case (snoc x xs)
  then obtain es where "emits q c (foldl f c xs) es" "list_all2 (\<lambda>x e. \<exists>s. e = g x s) xs es" by auto
  moreover obtain s where "emits q (foldl f c xs) (f (foldl f c xs) x) [g x s]" using snoc.prems by fastforce
  ultimately show ?case
    by (intro exI [of _ "es @ [g x s]"]) (auto intro: emits_trans intro!: list_all2_appendI)
qed simp

definition trans_shape :: "Transitions \<Rightarrow> emitted list \<Rightarrow> bool" where
  "trans_shape T es \<longleftrightarrow>
     (\<exists>ts rs e. es = ts @ rs @ [e] \<and>
        list_all2 (\<lambda>t e. \<exists>s. e = table_instr t s) (jumpTables T) ts \<and>
        list_all2 (\<lambda>r e. \<exists>s. e = range_instr r s) (ranges T) rs \<and>
        (if useFallbackTransition T then \<exists>s. e = jump_instr (fallbackTransitionTarget T) s
         else e = terminate_instr))"

lemma emits_transitions:
  "\<exists>es. emits q c (compileNodeTransitions d q c) es \<and> trans_shape (node_transitions d (nodes d ! q)) es"
proof -
  let ?T = "node_transitions d (nodes d ! q)"
  let ?c1 = "foldl (\<lambda>c' table. compileJumpTable q table c') c (jumpTables ?T)"
  let ?c2 = "foldl (\<lambda>c' rng. compileCheckForRange q rng c') ?c1 (ranges ?T)"
  obtain ts where ts: "emits q c ?c1 ts" "list_all2 (\<lambda>t e. \<exists>s. e = table_instr t s) (jumpTables ?T) ts"
    using emits_foldl [of _ q "\<lambda>c t. compileJumpTable q t c" table_instr] emits_table by blast
  obtain rs where rs: "emits q ?c1 ?c2 rs" "list_all2 (\<lambda>r e. \<exists>s. e = range_instr r s) (ranges ?T) rs"
    using emits_foldl [of _ q "\<lambda>c t. compileCheckForRange q t c" range_instr] emits_check by blast
  obtain e where e: "emits q ?c2 (compileNodeTransitions d q c) [e]"
    "if useFallbackTransition ?T then \<exists>s. e = jump_instr (fallbackTransitionTarget ?T) s else e = terminate_instr"
  proof (cases "useFallbackTransition ?T")
    case True
    then have "compileNodeTransitions d q c = emitJump q (fallbackTransitionTarget ?T) ?c2"
      by (simp add: compileNodeTransitions_def Let_def)
    moreover obtain s where "emits q ?c2 (emitJump q (fallbackTransitionTarget ?T) ?c2)
        [jump_instr (fallbackTransitionTarget ?T) s]" using emits_jump by blast
    ultimately show ?thesis using that [of "jump_instr (fallbackTransitionTarget ?T) s"] True by auto
  next
    case False
    then have "compileNodeTransitions d q c = emitTerminate ?c2"
      by (simp add: compileNodeTransitions_def Let_def)
    then show ?thesis using that [of terminate_instr] emits_terminate [of q ?c2] False by auto
  qed
  show ?thesis
    using emits_trans [OF emits_trans [OF ts(1) rs(1)] e(1)] ts(2) rs(2) e(2)
    by (intro exI [of _ "ts @ rs @ [e]"]) (auto simp: trans_shape_def)
qed

section \<open>Sizes\<close>

definition max_bytecode_size :: "DFA \<Rightarrow> nat" where
  "max_bytecode_size d = 4 + sum_list (map (compiledNodeMaxBytecodeSize d) [0 ..< length (nodes d)])"

definition acts_code :: "DFA \<Rightarrow> nat \<Rightarrow> emitted list" where
  "acts_code d q = map action_instr (node_actions d (nodes d ! q))"

lemma esize_action [simp]: "esize (action_instr a) = appendActionBytecodeSize a"
  by (simp add: action_instr_def emitAppendAction_def emit_defs appendActionBytecodeSize_def)

lemma csize_acts: "csize (acts_code d q) = sum_list (map appendActionBytecodeSize (node_actions d (nodes d ! q)))"
  by (simp add: acts_code_def csize_def comp_def)

lemma esize_range_le: "esize (range_instr r s) \<le> checkForRangeMaxBytecodeSize r"
  using jumpSizeInBytes_bounds [of s] by (simp add: range_instr_def checkForRangeMaxBytecodeSize_def)

lemma esize_table_le: "table_wf t \<Longrightarrow> esize (table_instr t s) \<le> checkForJumpTableMaxBytecodeSize t"
  using jumpSizeInBytes_bounds [of s] mult_le_mono2 [of "jumpSizeInBytes s" 4 "length (jt_destinations t)"]
  by (simp add: table_instr_def checkForJumpTableMaxBytecodeSize_def table_wf_def)

lemma csize_le_sum:
  "list_all2 (\<lambda>x e. \<exists>s. e = g x s) xs es \<Longrightarrow> (\<And>x s. x \<in> set xs \<Longrightarrow> esize (g x s) \<le> f x) \<Longrightarrow>
   csize es \<le> sum_list (map f xs)"
proof (induction xs es rule: list_all2_induct)
  case (Cons x xs e es)
  then have "esize e \<le> f x" "csize es \<le> sum_list (map f xs)" by auto
  then show ?case by simp
qed simp

lemma trans_shape_size:
  assumes "trans_shape (node_transitions d n) es" "node_wf d n" "length (nodes d) < u32_max"
  shows "csize es \<le> nodeTransitionsMaxBytecodeSize d n"
proof -
  let ?T = "node_transitions d n"
  obtain ts rs e where es: "es = ts @ rs @ [e]"
    and ts: "list_all2 (\<lambda>t e. \<exists>s. e = table_instr t s) (jumpTables ?T) ts"
    and rs: "list_all2 (\<lambda>r e. \<exists>s. e = range_instr r s) (ranges ?T) rs"
    and e: "if useFallbackTransition ?T then \<exists>s. e = jump_instr (fallbackTransitionTarget ?T) s else e = terminate_instr"
    using assms(1) by (auto simp: trans_shape_def)
  have "csize ts \<le> sum_list (map checkForJumpTableMaxBytecodeSize (jumpTables ?T))"
    using ts by (rule csize_le_sum) (use node_transitions_wf(2) [OF assms(2,3)] in \<open>blast intro: esize_table_le\<close>)
  moreover have "csize rs \<le> sum_list (map checkForRangeMaxBytecodeSize (ranges ?T))"
    using rs by (rule csize_le_sum) (rule esize_range_le)
  moreover have "esize e \<le> (if useFallbackTransition ?T then 1 + 4 else 1)"
    using e jumpSizeInBytes_bounds by (auto simp: jump_instr_def terminate_instr_def split: if_splits)
  ultimately show ?thesis by (simp add: nodeTransitionsMaxBytecodeSize_def Let_def es)
qed

lemma trans_shape_live:
  assumes "trans_shape (node_transitions d n) es" "node_wf d n" "length (nodes d) < u32_max"
    and "(h, ds, s) \<in> set es" "x \<in> set ds"
  shows "live d x"
proof -
  let ?T = "node_transitions d n"
  note W = node_transitions_wf [OF assms(2,3)]
  obtain ts rs e where es: "es = ts @ rs @ [e]"
    and ts: "list_all2 (\<lambda>t e. \<exists>s. e = table_instr t s) (jumpTables ?T) ts"
    and rs: "list_all2 (\<lambda>r e. \<exists>s. e = range_instr r s) (ranges ?T) rs"
    and e: "if useFallbackTransition ?T then \<exists>s. e = jump_instr (fallbackTransitionTarget ?T) s else e = terminate_instr"
    using assms(1) by (auto simp: trans_shape_def)
  consider "(h, ds, s) \<in> set ts" | "(h, ds, s) \<in> set rs" | "(h, ds, s) = e" using assms(4) es by auto
  then show ?thesis
  proof cases
    case 1
    then obtain t s' where "t \<in> set (jumpTables ?T)" "(h, ds, s) = table_instr t s'"
      using ts by (auto simp: list_all2_conv_all_nth in_set_conv_nth) metis
    then show ?thesis using W(2) assms(5) by (auto simp: table_instr_def)
  next
    case 2
    then obtain r s' where "r \<in> set (ranges ?T)" "(h, ds, s) = range_instr r s'"
      using rs by (auto simp: list_all2_conv_all_nth in_set_conv_nth) metis
    then show ?thesis using W(1) assms(5) by (auto simp: range_instr_def split: if_splits)
  next
    case 3
    then show ?thesis using e W(5) assms(5) by (auto simp: jump_instr_def terminate_instr_def split: if_splits)
  qed
qed

section \<open>The order of the nodes and their worst-case offsets\<close>

definition compile_order :: "DFA \<Rightarrow> nat list" where
  "compile_order d = root d # filter (\<lambda>i. i \<noteq> root d) [0 ..< length (nodes d)]"

definition live_order :: "DFA \<Rightarrow> nat list" where
  "live_order d = filter (live d) (compile_order d)"

lemma distinct_live_order: "distinct (live_order d)"
  by (simp add: live_order_def compile_order_def)

lemma set_live_order: "dfa_wf d \<Longrightarrow> set (live_order d) = {q. live d q}"
  by (auto simp: live_order_def compile_order_def dfa_wf_def live_def)

lemma live_order_root: "dfa_wf d \<Longrightarrow> live_order d = root d # filter (live d) (filter (\<lambda>i. i \<noteq> root d) [0 ..< length (nodes d)])"
  by (simp add: live_order_def compile_order_def dfa_wf_def)

lemma foldl_filter: "foldl (\<lambda>c x. if P x then f c x else c) c xs = foldl f c (filter P xs)"
  by (induction xs arbitrary: c) auto

lemma filter_split:
  "filter P zs = xs @ q # ys \<Longrightarrow> \<exists>us ws. zs = us @ q # ws \<and> filter P us = xs"
proof (induction zs arbitrary: xs)
  case (Cons z zs)
  show ?case
  proof (cases "P z \<and> xs = []")
    case True
    then show ?thesis using Cons.prems by (intro exI [of _ "[]"] exI [of _ zs]) auto
  next
    case False
    then obtain xs' where x: "filter P zs = xs' @ q # ys" "xs = (if P z then z # xs' else xs')"
      using Cons.prems by (cases xs) (auto split: if_splits)
    then show ?thesis using Cons.IH [OF x(1)] by (metis append_Cons filter.simps(2))
  qed
qed simp

lemma offsets_fold:
  assumes "distinct is" "next + sum_list (map f is) < 2 ^ 32" "\<forall>i \<in> set is. i < length offs"
  shows "\<exists>offs' next'. foldl (\<lambda>(offs, next) i. (offs[i := next], u32 (next + f i))) (offs, next) is = (offs', next') \<and>
     length offs' = length offs \<and>
     (\<forall>i. i \<notin> set is \<longrightarrow> offs' ! i = offs ! i) \<and>
     (\<forall>xs i ys. is = xs @ i # ys \<longrightarrow> offs' ! i = next + sum_list (map f xs))"
  using assms
proof (induction "is" arbitrary: offs "next")
  case (Cons j js)
  have u: "u32 (next + f j) = next + f j" using Cons.prems by (intro u32_id) simp
  obtain offs' next' where IH: "foldl (\<lambda>(offs, next) i. (offs[i := next], u32 (next + f i)))
      (offs[j := next], next + f j) js = (offs', next')" "length offs' = length offs"
    "\<forall>i. i \<notin> set js \<longrightarrow> offs' ! i = offs[j := next] ! i"
    "\<forall>xs i ys. js = xs @ i # ys \<longrightarrow> offs' ! i = next + f j + sum_list (map f xs)"
    using Cons.IH [of "next + f j" "offs[j := next]"] Cons.prems by auto
  have "offs' ! i = next + sum_list (map f xs)" if "j # js = xs @ i # ys" for xs i ys
  proof (cases xs)
    case Nil
    then show ?thesis using that IH(3) Cons.prems by simp
  next
    case (Cons x xs')
    then have "js = xs' @ i # ys" using that by simp
    then have "offs' ! i = next + f j + sum_list (map f xs')" using IH(4) by blast
    then show ?thesis using that Cons by simp
  qed
  then show ?case using IH u by auto
qed simp

lemma max_offset:
  assumes wf: "dfa_wf d" and sz: "max_bytecode_size d < 2 ^ 32" and ord: "live_order d = xs @ q # ys"
  shows "max_node_start_offsets d ! q = 4 + sum_list (map (compiledNodeMaxBytecodeSize d) xs)
     + (if q = root d then csize (acts_code d q) else 0)"
proof -
  let ?f = "compiledNodeMaxBytecodeSize d"
  let ?is = "filter (\<lambda>i. i \<noteq> root d) [0 ..< length (nodes d)]"
  let ?offs = "(replicate (length (nodes d)) 0)[root d := u32 (4 + csize (acts_code d (root d)))]"
  have rl: "live d (root d)" "root d < length (nodes d)" using wf by (auto simp: dfa_wf_def live_def)
  have split: "sum_list (map ?f [0 ..< length (nodes d)]) = ?f (root d) + sum_list (map ?f ?is)"
    using rl sum_list_map_remove1 [of "root d" "[0 ..< length (nodes d)]" ?f]
    by (simp add: distinct_remove1_removeAll removeAll_filter_not_eq eq_commute [of "root d"])
  then have u: "u32 (4 + ?f (root d)) = 4 + ?f (root d)" using sz
    by (intro u32_id) (simp add: max_bytecode_size_def)
  have ra: "csize (acts_code d (root d)) \<le> ?f (root d)"
    using rl by (simp add: compiledNodeMaxBytecodeSize_def Let_def live_def csize_acts)
  then have ua: "u32 (4 + csize (acts_code d (root d))) = 4 + csize (acts_code d (root d))"
    using sz split by (intro u32_id) (simp add: max_bytecode_size_def)
  have M: "max_node_start_offsets d = fst (foldl (\<lambda>(offs, next) i. (offs[i := next], u32 (next + ?f i)))
      (?offs, 4 + ?f (root d)) ?is)"
    unfolding max_node_start_offsets_def Let_def foldl_filter [symmetric] u csize_acts
    by (rule arg_cong [where f = fst], rule foldl_cong) (auto simp: u)
  obtain offs' next' where F: "foldl (\<lambda>(offs, next) i. (offs[i := next], u32 (next + ?f i)))
      (?offs, 4 + ?f (root d)) ?is = (offs', next')"
    "\<forall>i. i \<notin> set ?is \<longrightarrow> offs' ! i = ?offs ! i"
    "\<forall>xs i ys. ?is = xs @ i # ys \<longrightarrow> offs' ! i = 4 + ?f (root d) + sum_list (map ?f xs)"
    using offsets_fold [of ?is "4 + ?f (root d)" ?f ?offs] sz split
    by (auto simp: max_bytecode_size_def)
  show ?thesis
  proof (cases xs)
    case Nil
    then have "q = root d" using ord live_order_root [OF wf] by simp
    then show ?thesis using M F(1,2) Nil rl ua by simp
  next
    case (Cons r xs')
    then have r: "r = root d" and o: "filter (live d) ?is = xs' @ q # ys"
      using ord live_order_root [OF wf] by auto
    have "\<exists>us ws. ?is = us @ q # ws \<and> filter (live d) us = xs'"
      by (rule filter_split) (rule o)
    then obtain zs ws where z: "?is = zs @ q # ws" "filter (live d) zs = xs'"
      by (elim exE conjE)
    have "set ?is = set (zs @ q # ws)" by (simp only: z(1))
    then have zs: "\<And>i. i \<in> set zs \<Longrightarrow> i < length (nodes d)" and q: "q \<noteq> root d" by auto
    have zero: "?f i = 0" if "\<not> live d i" "i \<in> set zs" for i
      using that zs by (simp add: compiledNodeMaxBytecodeSize_def Let_def live_def)
    have "sum_list (map ?f (filter (live d) zs)) = sum_list (map ?f zs)"
      by (rule sum_list_map_filter) (use zero in blast)
    moreover have "max_node_start_offsets d ! q = 4 + ?f (root d) + sum_list (map ?f zs)"
      unfolding M F(1) fst_conv by (rule F(3) [rule_format]) (rule z(1))
    ultimately show ?thesis using z(2) Cons r q by simp
  qed
qed

section \<open>The layout of a compiled DFA\<close>

definition node_code :: "DFA \<Rightarrow> (nat \<Rightarrow> emitted list) \<Rightarrow> nat \<Rightarrow> emitted list" where
  "node_code d tr q = acts_code d q @ tr q"

definition nodes_code :: "DFA \<Rightarrow> (nat \<Rightarrow> emitted list) \<Rightarrow> nat list \<Rightarrow> emitted list" where
  "nodes_code d tr qs = concat (map (node_code d tr) qs)"

text \<open>Where the transitions of a node start, and where jumps to it land: after the actions of the
  root, before those of any other node.\<close>

definition node_start :: "DFA \<Rightarrow> (nat \<Rightarrow> emitted list) \<Rightarrow> nat \<Rightarrow> nat list \<Rightarrow> nat \<Rightarrow> nat" where
  "node_start d tr base xs q =
     base + csize (nodes_code d tr xs) + (if q = root d then csize (acts_code d q) else 0)"

text \<open>
  A field of width \<open>s\<close> at \<open>loc\<close> in node \<open>q\<close> is sized for its distance, or for the worst case of a
  node that comes later in the order.
\<close>

definition field_ok :: "DFA \<Rightarrow> nat list \<Rightarrow> nat \<Rightarrow> nat \<Rightarrow> emitted \<Rightarrow> bool" where
  "field_ok d starts q loc e = (case e of (h, ds, s) \<Rightarrow> \<forall>x \<in> set ds. live d x \<and>
     (starts ! x \<noteq> u32_max \<and> smallestPossibleJumpSize (to_int32 (int (starts ! x) - int (u32 loc))) \<le> s \<or>
      smallestPossibleJumpSize (to_int32 (int (max_node_start_offsets d ! x) - int (max_node_start_offsets d ! q)
         - (int (starts ! q) - int (u32 loc)))) \<le> s \<and>
      (\<exists>xs ys. live_order d = xs @ q # ys \<and> x \<in> set ys)))"

definition layout_inv ::
  "DFA \<Rightarrow> u8 list \<Rightarrow> (nat \<Rightarrow> emitted list) \<Rightarrow> nat list \<Rightarrow> DFABytecodeCompiler \<Rightarrow> bool" where
  "layout_inv d pre tr done c \<longleftrightarrow>
     m_bytecode c = pre @ encode_le 4 0 @ concat (map unlinked (nodes_code d tr done)) \<and>
     map link_key (m_linkRecords c) = link_keys (length pre + 4) (nodes_code d tr done) \<and>
     m_maxNodeStartOffsets c = max_node_start_offsets d \<and>
     length (m_nodeStartOffsets c) = length (nodes d) \<and>
     (\<forall>q < length (nodes d). q \<notin> set done \<longrightarrow> m_nodeStartOffsets c ! q = u32_max) \<and>
     (\<forall>xs q ys. done = xs @ q # ys \<longrightarrow>
        m_nodeStartOffsets c ! q = u32 (node_start d tr (length pre + 4) xs q) \<and>
        trans_shape (node_transitions d (nodes d ! q)) (tr q) \<and>
        all_at (field_ok d (m_nodeStartOffsets c) q)
          (length pre + 4 + csize (nodes_code d tr xs) + csize (acts_code d q)) (tr q))"

lemma nodes_code_append [simp]: "nodes_code d tr (xs @ ys) = nodes_code d tr xs @ nodes_code d tr ys"
  by (simp add: nodes_code_def)

lemma nodes_code_Cons [simp]: "nodes_code d tr (q # qs) = acts_code d q @ tr q @ nodes_code d tr qs"
  by (simp add: nodes_code_def node_code_def)

lemma nodes_code_Nil [simp]: "nodes_code d tr [] = []"
  by (simp add: nodes_code_def)

lemma nodes_code_upd [simp]: "q \<notin> set xs \<Longrightarrow> nodes_code d (tr(q := es)) xs = nodes_code d tr xs"
  unfolding nodes_code_def by (rule arg_cong [where f = concat], rule map_cong) (auto simp: node_code_def)

lemma node_start_upd [simp]: "q \<notin> set xs \<Longrightarrow> node_start d (tr(q := es)) base xs q' = node_start d tr base xs q'"
  by (simp add: node_start_def)

lemma field_ok_mono:
  assumes "field_ok d starts q loc e" "starts' ! q = starts ! q"
    and "\<And>x. live d x \<Longrightarrow> starts ! x \<noteq> u32_max \<Longrightarrow> starts' ! x = starts ! x"
  shows "field_ok d starts' q loc e"
  using assms unfolding field_ok_def by (auto split: prod.splits)

lemma link_keys_actions: "link_keys l (map action_instr as) = []"
  by (induction as arbitrary: l) (auto simp: action_instr_def)

lemma link_keys_acts [simp]: "link_keys l (acts_code d q) = []"
  by (simp add: acts_code_def link_keys_actions)

lemma compileNode_live:
  assumes "live d q"
  shows "\<exists>es c1. emits q c1 (compileNode d q (q = root d) c) es
     \<and> trans_shape (node_transitions d (nodes d ! q)) es
     \<and> m_bytecode c1 = m_bytecode c @ concat (map unlinked (acts_code d q))
     \<and> map link_key (m_linkRecords c1) = map link_key (m_linkRecords c)
     \<and> m_maxNodeStartOffsets c1 = m_maxNodeStartOffsets c
     \<and> m_nodeStartOffsets c1 = (m_nodeStartOffsets c)[q := u32 (length (m_bytecode c)
          + (if q = root d then csize (acts_code d q) else 0))]"
proof -
  have nk: "\<not> isKilled (nodes d ! q)" using assms by (simp add: live_def)
  let ?as = "node_actions d (nodes d ! q)"
  define c0 where "c0 = (if q = root d then c else record_start q c)"
  define c0' where "c0' = foldl (\<lambda>c' action. emitAppendAction action c') c0 ?as"
  define c1 where "c1 = (if q = root d then record_start q c0' else c0')"
  have C: "compileNode d q (q = root d) c = compileNodeTransitions d q c1"
    using nk by (simp add: compileNode_def Let_def c0_def c0'_def c1_def)
  have E: "emits q c0 c0' (acts_code d q)" unfolding c0'_def acts_code_def by (rule emits_actions)
  have lk: "link_keys l (acts_code d q) = []" for l
    unfolding acts_code_def by (rule link_keys_actions)
  have "m_bytecode c1 = m_bytecode c @ concat (map unlinked (acts_code d q))"
    "map link_key (m_linkRecords c1) = map link_key (m_linkRecords c)"
    "m_maxNodeStartOffsets c1 = m_maxNodeStartOffsets c"
    "m_nodeStartOffsets c1 = (m_nodeStartOffsets c)[q := u32 (length (m_bytecode c)
          + (if q = root d then csize (acts_code d q) else 0))]"
    using E lk unfolding c1_def c0_def emits_def record_start_def by (simp_all split: if_splits)
  moreover obtain es where "emits q c1 (compileNodeTransitions d q c1) es"
    "trans_shape (node_transitions d (nodes d ! q)) es" using emits_transitions by blast
  ultimately show ?thesis unfolding C by blast
qed

lemma node_code_size:
  assumes "dfa_wf d" "live d q" "trans_shape (node_transitions d (nodes d ! q)) (tr q)"
  shows "csize (node_code d tr q) \<le> compiledNodeMaxBytecodeSize d q"
proof -
  have "csize (tr q) \<le> nodeTransitionsMaxBytecodeSize d (nodes d ! q)"
    using assms by (intro trans_shape_size dfa_wf_node) (auto simp: dfa_wf_def)
  then show ?thesis using assms(2)
    by (simp add: node_code_def compiledNodeMaxBytecodeSize_def Let_def live_def csize_acts)
qed

lemma nodes_code_size:
  assumes "dfa_wf d" "\<And>q. q \<in> set qs \<Longrightarrow> live d q \<and> trans_shape (node_transitions d (nodes d ! q)) (tr q)"
  shows "csize (nodes_code d tr qs) \<le> sum_list (map (compiledNodeMaxBytecodeSize d) qs)"
  using assms(2)
proof (induction qs)
  case (Cons q qs)
  then show ?case using node_code_size [OF assms(1), of q tr] by (simp add: node_code_def)
qed simp

lemma live_order_max:
  assumes "dfa_wf d"
  shows "4 + sum_list (map (compiledNodeMaxBytecodeSize d) (live_order d)) \<le> max_bytecode_size d"
proof -
  have "sum_list (map (compiledNodeMaxBytecodeSize d) (live_order d))
      = sum (compiledNodeMaxBytecodeSize d) (set (live_order d))"
    using distinct_live_order by (rule sum_list_distinct_conv_sum_set)
  also have "\<dots> \<le> sum (compiledNodeMaxBytecodeSize d) (set [0 ..< length (nodes d)])"
    by (rule sum_mono2) (auto simp: set_live_order [OF assms] live_def)
  also have "\<dots> = sum_list (map (compiledNodeMaxBytecodeSize d) [0 ..< length (nodes d)])"
    by (rule sum_list_distinct_conv_sum_set [symmetric]) simp
  finally show ?thesis by (simp add: max_bytecode_size_def)
qed

lemma wide_field_ok:
  assumes "wide_enough c q loc e" and shape: "trans_shape (node_transitions d (nodes d ! q)) es" "e \<in> set es"
    and wf: "dfa_wf d" "live d q"
    and ord: "live_order d = done @ q # rest"
    and maxs: "m_maxNodeStartOffsets c = max_node_start_offsets d"
    and dn: "\<And>x. x \<in> set done \<Longrightarrow> m_nodeStartOffsets c ! x \<noteq> u32_max"
      "m_nodeStartOffsets c ! q \<noteq> u32_max"
  shows "field_ok d (m_nodeStartOffsets c) q loc e"
proof -
  obtain h ds s where e: "e = (h, ds, s)" by (cases e)
  have "live d x \<and>
     (m_nodeStartOffsets c ! x \<noteq> u32_max \<and>
        smallestPossibleJumpSize (to_int32 (int (m_nodeStartOffsets c ! x) - int (u32 loc))) \<le> s \<or>
      smallestPossibleJumpSize (to_int32 (int (max_node_start_offsets d ! x) - int (max_node_start_offsets d ! q)
         - (int (m_nodeStartOffsets c ! q) - int (u32 loc)))) \<le> s \<and>
      (\<exists>xs ys. live_order d = xs @ q # ys \<and> x \<in> set ys))" if x: "x \<in> set ds" for x
  proof
    show lx: "live d x"
      using trans_shape_live [OF shape(1) dfa_wf_node [OF wf]] shape(2) wf x e by (auto simp: dfa_wf_def)
    have w: "smallestPossibleJumpSize (longestPossibleJump (u32 loc) q x c) \<le> s"
      using assms(1) x by (auto simp: wide_enough_def e)
    show "m_nodeStartOffsets c ! x \<noteq> u32_max \<and>
        smallestPossibleJumpSize (to_int32 (int (m_nodeStartOffsets c ! x) - int (u32 loc))) \<le> s \<or>
      smallestPossibleJumpSize (to_int32 (int (max_node_start_offsets d ! x) - int (max_node_start_offsets d ! q)
         - (int (m_nodeStartOffsets c ! q) - int (u32 loc)))) \<le> s \<and>
      (\<exists>xs ys. live_order d = xs @ q # ys \<and> x \<in> set ys)"
    proof (cases "m_nodeStartOffsets c ! x = u32_max")
      case False
      then show ?thesis using w by (simp add: longestPossibleJump_def)
    next
      case True
      have "x \<in> set (done @ q # rest)" using lx set_live_order [OF wf(1)] ord by simp
      then have "x \<in> set rest" using True dn by auto
      then show ?thesis using w True ord maxs by (auto simp: longestPossibleJump_def)
    qed
  qed
  then show ?thesis by (simp add: field_ok_def e)
qed

lemma all_at_mem: "all_at P loc es \<Longrightarrow> (\<And>l e. e \<in> set es \<Longrightarrow> P l e \<Longrightarrow> Q l e) \<Longrightarrow> all_at Q loc es"
  by (induction es arbitrary: loc) auto

lemma snoc_split: "xs @ [q] = us @ p # vs \<Longrightarrow> (vs = [] \<and> us = xs \<and> p = q) \<or> (\<exists>vs'. vs = vs' @ [q] \<and> xs = us @ p # vs')"
  by (cases vs rule: rev_cases) auto

lemma layout_step:
  assumes wf: "dfa_wf d" and sz: "length pre + max_bytecode_size d < 2 ^ 31 - 1"
    and ord: "live_order d = done @ q # rest" and inv: "layout_inv d pre tr done c"
  shows "\<exists>tr'. layout_inv d pre tr' (done @ [q]) (compileNode d q (q = root d) c)"
proof -
  let ?base = "length pre + 4"
  have lv: "\<And>x. x \<in> set (done @ q # rest) \<Longrightarrow> live d x" using set_live_order [OF wf] ord by auto
  have dist: "distinct (done @ q # rest)" using distinct_live_order [of d] ord by simp
  obtain es c1 where E: "emits q c1 (compileNode d q (q = root d) c) es"
    and shape: "trans_shape (node_transitions d (nodes d ! q)) es"
    and bc: "m_bytecode c1 = m_bytecode c @ concat (map unlinked (acts_code d q))"
    and lk: "map link_key (m_linkRecords c1) = map link_key (m_linkRecords c)"
    and mx: "m_maxNodeStartOffsets c1 = m_maxNodeStartOffsets c"
    and st: "m_nodeStartOffsets c1 = (m_nodeStartOffsets c)[q := u32 (length (m_bytecode c)
          + (if q = root d then csize (acts_code d q) else 0))]"
    using compileNode_live [of d q c] lv by auto
  let ?c2 = "compileNode d q (q = root d) c" and ?tr = "tr(q := es)"
  define starts where "starts = m_nodeStartOffsets ?c2"
  have starts: "starts = m_nodeStartOffsets c1" using E by (simp add: starts_def emits_def)
  have I: "m_bytecode c = pre @ encode_le 4 0 @ concat (map unlinked (nodes_code d tr done))"
    "map link_key (m_linkRecords c) = link_keys ?base (nodes_code d tr done)"
    "m_maxNodeStartOffsets c = max_node_start_offsets d"
    "length (m_nodeStartOffsets c) = length (nodes d)"
    "\<And>q. q < length (nodes d) \<Longrightarrow> q \<notin> set done \<Longrightarrow> m_nodeStartOffsets c ! q = u32_max"
    "\<And>xs q ys. done = xs @ q # ys \<Longrightarrow>
        m_nodeStartOffsets c ! q = u32 (node_start d tr ?base xs q) \<and>
        trans_shape (node_transitions d (nodes d ! q)) (tr q) \<and>
        all_at (field_ok d (m_nodeStartOffsets c) q)
          (?base + csize (nodes_code d tr xs) + csize (acts_code d q)) (tr q)"
    using inv unfolding layout_inv_def by blast+
  have q: "q < length (nodes d)" "live d q" using lv [of q] by (auto simp: live_def)
  have ndone: "q \<notin> set done" using dist by simp
  have dsize: "csize (nodes_code d tr done) + compiledNodeMaxBytecodeSize d q
      \<le> sum_list (map (compiledNodeMaxBytecodeSize d) (live_order d))"
  proof -
    have "csize (nodes_code d tr done) \<le> sum_list (map (compiledNodeMaxBytecodeSize d) done)"
      using lv I(6) by (intro nodes_code_size [OF wf]) (auto dest: split_list)
    then show ?thesis by (simp add: ord)
  qed
  have acts: "csize (acts_code d q) \<le> compiledNodeMaxBytecodeSize d q"
    using q by (simp add: compiledNodeMaxBytecodeSize_def Let_def live_def csize_acts)
  have len: "length (m_bytecode c) = ?base + csize (nodes_code d tr done)" by (simp add: I(1))
  have st_q: "starts ! q = u32 (node_start d tr ?base done q)"
    using q I(4) by (simp add: starts st len node_start_def)
  have lt: "node_start d tr ?base xs x < 2 ^ 31" if x: "done @ [q] = xs @ x # ys" for xs x ys
  proof -
    consider "xs = done" "x = q" | ys' where "done = xs @ x # ys'" using snoc_split [OF x] by blast
    then have "csize (nodes_code d tr xs) + csize (acts_code d x)
        \<le> csize (nodes_code d tr done) + csize (acts_code d q)" by cases simp_all
    then show ?thesis using dsize acts live_order_max [OF wf] sz
      by (cases "x = root d") (simp_all add: node_start_def)
  qed
  have st_done: "starts ! x = m_nodeStartOffsets c ! x" if "x \<noteq> q" for x
    using that by (simp add: starts st)
  have set_done: "starts ! x \<noteq> u32_max" if mem: "x \<in> set (done @ [q])" for x
  proof -
    obtain xs ys where x: "done @ [q] = xs @ x # ys" using split_list [OF mem] by (elim exE)
    consider "xs = done" "x = q" | ys' where "done = xs @ x # ys'" using snoc_split [OF x] by blast
    then have "starts ! x = u32 (node_start d tr ?base xs x)"
    proof cases
      case 2
      then have "x \<noteq> q" using ndone by auto
      then show ?thesis using 2 I(6) st_done by simp
    qed (simp add: st_q)
    then show ?thesis using lt [OF x] by (simp add: u32_id u32_max_def)
  qed
  have "layout_inv d pre ?tr (done @ [q]) ?c2"
    unfolding layout_inv_def starts_def [symmetric]
  proof (intro conjI allI impI)
    fix xs x ys assume x: "done @ [q] = xs @ x # ys"
    consider "ys = []" "xs = done" "x = q" | ys' where "ys = ys' @ [q]" "done = xs @ x # ys'"
      using snoc_split [OF x] by blast
    then have "starts ! x = u32 (node_start d ?tr ?base xs x) \<and>
        trans_shape (node_transitions d (nodes d ! x)) (?tr x) \<and>
        all_at (field_ok d starts x) (?base + csize (nodes_code d ?tr xs) + csize (acts_code d x)) (?tr x)"
    proof cases
      case 1
      have "all_at (wide_enough c1 q) (?base + csize (nodes_code d tr done) + csize (acts_code d q)) es"
        using E by (simp add: emits_def bc I(1) add.assoc)
      then have "all_at (field_ok d starts q) (?base + csize (nodes_code d tr done) + csize (acts_code d q)) es"
      proof (rule all_at_mem)
        fix l e assume e: "e \<in> set es" "wide_enough c1 q l e"
        show "field_ok d starts q l e" unfolding starts
          by (rule wide_field_ok [OF e(2) shape e(1) wf q(2) ord])
            (use mx I(3) set_done in \<open>simp_all add: starts\<close>)
      qed
      then show ?thesis using 1 st_q shape ndone by simp
    next
      case 2
      then have x: "x \<noteq> q" "q \<notin> set xs" using ndone by auto
      have "all_at (field_ok d starts x) (?base + csize (nodes_code d tr xs) + csize (acts_code d x)) (tr x)"
      proof (rule all_at_mono)
        fix l e assume e: "field_ok d (m_nodeStartOffsets c) x l e"
        show "field_ok d starts x l e"
        proof (rule field_ok_mono [OF e])
          fix y assume y: "live d y" "m_nodeStartOffsets c ! y \<noteq> u32_max"
          then have "y \<noteq> q" using I(5) [of q] q ndone by auto
          then show "starts ! y = m_nodeStartOffsets c ! y" by (rule st_done)
        qed (rule st_done [OF x(1)])
      qed (use I(6) [OF 2(2)] in blast)
      then show ?thesis using 2 x I(6) [OF 2(2)] st_done by simp
    qed
    then show "starts ! x = u32 (node_start d ?tr ?base xs x)"
      "trans_shape (node_transitions d (nodes d ! x)) (?tr x)"
      "all_at (field_ok d starts x) (?base + csize (nodes_code d ?tr xs) + csize (acts_code d x)) (?tr x)"
      by auto
  next
    show "m_bytecode ?c2 = pre @ encode_le 4 0 @ concat (map unlinked (nodes_code d ?tr (done @ [q])))"
      using E ndone by (simp add: emits_def bc I(1))
    show "map link_key (m_linkRecords ?c2) = link_keys ?base (nodes_code d ?tr (done @ [q]))"
      using E ndone unfolding emits_def lk bc I(2)
      by (simp add: link_keys_append len add.assoc)
    show "m_maxNodeStartOffsets ?c2 = max_node_start_offsets d" using E by (simp add: emits_def mx I(3))
    show "length starts = length (nodes d)" by (simp add: starts st I(4))
    show "starts ! x = u32_max" if "x < length (nodes d)" "x \<notin> set (done @ [q])" for x
      using that I(5) st_done by simp
  qed
  then show ?thesis by blast
qed

lemma compile_nodes_fold:
  assumes wf: "dfa_wf d"
  shows "compile_nodes d pre = foldl (\<lambda>c i. compileNode d i (i = root d) c)
     \<lparr>m_bytecode = pre @ encode_le 4 0, m_maxNodeStartOffsets = max_node_start_offsets d,
      m_nodeStartOffsets = replicate (length (nodes d)) u32_max, m_linkRecords = []\<rparr> (live_order d)"
proof -
  let ?is = "filter (\<lambda>i. i \<noteq> root d) [0 ..< length (nodes d)]"
  have skip: "foldl (\<lambda>c i. compileNode d i (i = root d) c) c ?is =
      foldl (\<lambda>c i. compileNode d i (i = root d) c) c (filter (live d) ?is)" for c
    unfolding foldl_filter [of "live d", symmetric]
    by (rule foldl_cong) (auto simp: compileNode_def live_def Let_def)
  have ne: "foldl (\<lambda>c i. compileNode d i False c) c ?is = foldl (\<lambda>c i. compileNode d i (i = root d) c) c ?is" for c
    by (rule foldl_cong) auto
  show ?thesis unfolding compile_nodes_def Let_def foldl_filter ne skip live_order_root [OF wf] by simp
qed

lemma layout_fold:
  assumes wf: "dfa_wf d" and sz: "length pre + max_bytecode_size d < 2 ^ 31 - 1"
  shows "live_order d = done @ rest \<Longrightarrow> layout_inv d pre tr done c \<Longrightarrow>
    \<exists>tr'. layout_inv d pre tr' (live_order d) (foldl (\<lambda>c i. compileNode d i (i = root d) c) c rest)"
proof (induction rest arbitrary: "done" tr c)
  case (Cons q rest)
  obtain tr' where "layout_inv d pre tr' (done @ [q]) (compileNode d q (q = root d) c)"
    using layout_step [OF wf sz Cons.prems] by blast
  then show ?case using Cons.IH [of "done @ [q]"] Cons.prems(1) by simp
qed auto

lemma compile_nodes_layout:
  assumes wf: "dfa_wf d" and sz: "length pre + max_bytecode_size d < 2 ^ 31 - 1"
  shows "\<exists>tr. layout_inv d pre tr (live_order d) (compile_nodes d pre)"
  unfolding compile_nodes_fold [OF wf]
  by (rule layout_fold [OF wf sz, of "[]" _ "\<lambda>q. []"]) (simp_all add: layout_inv_def)

section \<open>Linking\<close>

fun linked :: "nat list \<Rightarrow> nat \<Rightarrow> emitted \<Rightarrow> u8 list" where
  "linked starts loc (h, ds, s) =
     h @ concat (map (\<lambda>x. encode_le (jumpSizeInBytes s) (int (starts ! x) - int loc)) ds)"

fun linked_all :: "nat list \<Rightarrow> nat \<Rightarrow> emitted list \<Rightarrow> u8 list" where
  "linked_all starts loc [] = []"
| "linked_all starts loc (e # es) = linked starts loc e @ linked_all starts (loc + esize e) es"

definition field_fits :: "nat list \<Rightarrow> nat \<Rightarrow> emitted \<Rightarrow> bool" where
  "field_fits starts loc e = (case e of (h, ds, s) \<Rightarrow>
     \<forall>x \<in> set ds. starts ! x < 2 ^ 31 - 1 \<and> fits s (int (starts ! x) - int loc))"

lemma length_concat_encode [simp]: "length (concat (map (\<lambda>x. encode_le n (f x)) xs)) = length xs * n"
  by (induction xs) auto

lemma length_linked [simp]: "length (linked starts loc e) = esize e"
  by (cases e) simp

lemma length_linked_all [simp]: "length (linked_all starts loc es) = csize es"
  by (induction es arbitrary: loc) auto

lemma linked_all_append: "linked_all starts loc (es @ es') = linked_all starts loc es @ linked_all starts (loc + csize es) es'"
  by (induction es arbitrary: loc) (auto simp: add.assoc)

lemma setBits_mid:
  "length ys = n \<Longrightarrow> setBits n (length xs) v (xs @ ys @ zs) = Some (xs @ encode_le n v @ zs)"
  by (simp add: setBits_def)

lemma encode_le_split: "encode_le (m + n) v = encode_le m v @ encode_le n (v div 256 ^ m)"
proof (induction m arbitrary: v)
  case (Suc m)
  have "v div 256 div 256 ^ m = v div (256 * 256 ^ m)" by (rule zdiv_zmult2_eq [symmetric]) simp
  then show ?case using Suc.IH [of "v div 256"] by simp
qed simp

lemma link_record_field:
  assumes "link_key r = (s, loc, length xs, x)" "starts ! x < 2 ^ 31 - 1" "loc < 2 ^ 31"
    and "fits s (int (starts ! x) - int loc)" "length ys = jumpSizeInBytes s"
  shows "link_record starts r (xs @ ys @ zs) =
    Some (xs @ encode_le (jumpSizeInBytes s) (int (starts ! x) - int loc) @ zs)"
proof -
  let ?v = "int (starts ! x) - int loc"
  have r: "lr_jumpSize r = s" "lr_instructionLocation r = loc" "lr_jumpLocation r = length xs"
    "lr_destinationNodeIndex r = x" using assms(1) by (auto simp: link_key_def)
  have d: "to_int32 ?v = ?v" using assms by (intro to_int32_id) auto
  show ?thesis
  proof (cases s)
    case Int24
    obtain y1 y2 y3 where ys: "ys = [y1, y2] @ [y3]" using assms(5) Int24
      by (auto simp: numeral_3_eq_3 length_Suc_conv)
    have "setBits 2 (length xs) ?v (xs @ ys @ zs) = Some (xs @ encode_le 2 ?v @ [y3] @ zs)"
      using setBits_mid [of "[y1, y2]" 2 xs ?v "[y3] @ zs"] by (simp add: ys)
    moreover have "setBits 1 (length xs + 2) (?v div 2 ^ 16) ((xs @ encode_le 2 ?v) @ [y3] @ zs)
        = Some ((xs @ encode_le 2 ?v) @ encode_le 1 (?v div 2 ^ 16) @ zs)"
      using setBits_mid [of "[y3]" 1 "xs @ encode_le 2 ?v" "?v div 2 ^ 16" zs] by simp
    moreover have "encode_le 3 ?v = encode_le 2 ?v @ encode_le 1 (?v div 2 ^ 16)"
      using encode_le_split [of 2 1 ?v] by simp
    moreover have "Int24Min \<le> ?v \<and> ?v \<le> Int24Max"
      using assms(4) Int24 by (simp add: fits_def Int24Min_def Int24Max_def)
    ultimately show ?thesis using assms(2) by (simp add: link_record_def r d Int24 Let_def)
  qed (use assms setBits_mid [of ys _ xs ?v zs] in \<open>auto simp: link_record_def r d Let_def fits_def\<close>)
qed

lemma link_all_append: "link_all starts (rs @ rs') b = Option.bind (link_all starts rs b) (link_all starts rs')"
proof (induction rs arbitrary: b)
  case (Cons r rs)
  then show ?case by (cases "link_record starts r b") auto
qed simp

lemma link_fields:
  assumes "map link_key rs = field_keys s loc (length xs) ds"
    and "\<forall>x \<in> set ds. starts ! x < 2 ^ 31 - 1 \<and> fits s (int (starts ! x) - int loc)"
    and "loc < 2 ^ 31" "length xs + length ds * jumpSizeInBytes s < 2 ^ 31"
  shows "link_all starts rs (xs @ replicate (length ds * jumpSizeInBytes s) 0 @ zs) =
    Some (xs @ concat (map (\<lambda>x. encode_le (jumpSizeInBytes s) (int (starts ! x) - int loc)) ds) @ zs)"
  using assms
proof (induction ds arbitrary: rs xs)
  case (Cons x ds)
  let ?n = "jumpSizeInBytes s" and ?e = "encode_le (jumpSizeInBytes s) (int (starts ! x) - int loc)"
  obtain r rs' where rs: "rs = r # rs'" using Cons.prems(1) by (cases rs) auto
  have ids: "u32 loc = loc" "u32 (length xs) = length xs" using Cons.prems(3,4) by (auto intro!: u32_id)
  have r: "link_key r = (s, loc, length xs, x)" and rs': "map link_key rs' = field_keys s loc (length (xs @ ?e)) ds"
    using Cons.prems(1) rs ids by auto
  have "link_record starts r (xs @ replicate ?n 0 @ replicate (length ds * ?n) 0 @ zs) =
      Some (xs @ ?e @ replicate (length ds * ?n) 0 @ zs)"
    by (rule link_record_field [OF r]) (use Cons.prems in auto)
  moreover have "link_all starts rs' ((xs @ ?e) @ replicate (length ds * ?n) 0 @ zs) =
      Some ((xs @ ?e) @ concat (map (\<lambda>x. encode_le ?n (int (starts ! x) - int loc)) ds) @ zs)"
    by (rule Cons.IH [OF rs']) (use Cons.prems in auto)
  ultimately show ?case using rs by (simp add: replicate_add)
qed simp

lemma link_code:
  assumes "map link_key rs = link_keys (length xs) es" "all_at (field_fits starts) (length xs) es"
    and "length xs + csize es < 2 ^ 31"
  shows "link_all starts rs (xs @ concat (map unlinked es) @ zs) =
    Some (xs @ linked_all starts (length xs) es @ zs)"
  using assms
proof (induction es arbitrary: rs xs)
  case (Cons e es)
  obtain h ds s where e: "e = (h, ds, s)" by (cases e)
  obtain rs1 rs2 where rs: "rs = rs1 @ rs2"
    and rs1: "map link_key rs1 = field_keys s (length xs) (length (xs @ h)) ds"
    and rs2': "map link_key rs2 = link_keys (length xs + esize e) es"
    using Cons.prems(1) e by (auto simp: map_eq_append_conv)
  have rs2: "map link_key rs2 = link_keys (length (xs @ linked starts (length xs) e)) es"
    using rs2' by (simp del: linked.simps esize.simps)
  let ?rest = "concat (map unlinked es) @ zs"
  have "link_all starts rs1 ((xs @ h) @ replicate (length ds * jumpSizeInBytes s) 0 @ ?rest) =
      Some ((xs @ h) @ concat (map (\<lambda>x. encode_le (jumpSizeInBytes s) (int (starts ! x) - int (length xs))) ds) @ ?rest)"
    by (rule link_fields [OF rs1]) (use Cons.prems e in \<open>auto simp: field_fits_def\<close>)
  moreover have "link_all starts rs2 ((xs @ linked starts (length xs) e) @ ?rest) =
      Some ((xs @ linked starts (length xs) e) @ linked_all starts (length (xs @ linked starts (length xs) e)) es @ zs)"
    by (rule Cons.IH [OF rs2]) (use Cons.prems in \<open>simp_all del: linked.simps esize.simps add: add.assoc\<close>)
  ultimately show ?case using rs e by (simp add: link_all_append)
qed simp

section \<open>Every field fits\<close>

text \<open>The finished layout: its start offsets, and where each node's transitions are.\<close>

definition final_layout :: "DFA \<Rightarrow> nat \<Rightarrow> (nat \<Rightarrow> emitted list) \<Rightarrow> nat list \<Rightarrow> bool" where
  "final_layout d base tr starts \<longleftrightarrow>
     (\<forall>xs q ys. live_order d = xs @ q # ys \<longrightarrow>
        starts ! q = node_start d tr base xs q \<and>
        trans_shape (node_transitions d (nodes d ! q)) (tr q))"

lemma final_layoutD:
  assumes "final_layout d base tr starts" "live_order d = xs @ q # ys"
  shows "starts ! q = node_start d tr base xs q"
    and "trans_shape (node_transitions d (nodes d ! q)) (tr q)"
  using assms unfolding final_layout_def by blast+

lemma all_at_bounded:
  "all_at P loc es \<Longrightarrow> (\<And>l e. e \<in> set es \<Longrightarrow> P l e \<Longrightarrow> loc \<le> l \<Longrightarrow> l + esize e \<le> loc + csize es \<Longrightarrow> Q l e) \<Longrightarrow> all_at Q loc es"
proof (induction es arbitrary: loc)
  case (Cons e es)
  have "all_at Q (loc + esize e) es"
    by (rule Cons.IH) (use Cons.prems in auto)
  then show ?case using Cons.prems by simp
qed simp

lemma acts_fit: "all_at (field_fits starts) loc (acts_code d q)"
  unfolding acts_code_def
proof -
  have "all_at (field_fits starts) loc (map action_instr as)" for as
    by (induction as arbitrary: loc) (auto simp: field_fits_def action_instr_def)
  then show "all_at (field_fits starts) loc (map action_instr (node_actions d (nodes d ! q)))" .
qed

lemma all_at_nodes:
  assumes "\<And>xs q ys. qs = xs @ q # ys \<Longrightarrow>
      all_at P (base + csize (nodes_code d tr xs)) (acts_code d q @ tr q)"
  shows "all_at P base (nodes_code d tr qs)"
  using assms
proof (induction qs rule: rev_induct)
  case (snoc q qs)
  have "all_at P base (nodes_code d tr qs)"
    by (rule snoc.IH) (use snoc.prems in simp)
  then show ?case using snoc.prems [of qs q "[]"] by simp
qed simp

lemma node_start_distance:
  assumes wf: "dfa_wf d" and sz: "max_bytecode_size d < 2 ^ 31 - 1"
    and lay: "final_layout d base tr starts" and ord: "live_order d = xs @ q # ys @ x # zs"
  shows "base + csize (nodes_code d tr xs) + csize (acts_code d q) + csize (tr q) \<le> starts ! x"
    and "starts ! q \<le> base + csize (nodes_code d tr xs) + csize (acts_code d q)"
    and "int (starts ! x) - int (starts ! q) \<le> int (max_node_start_offsets d ! x) - int (max_node_start_offsets d ! q)"
proof -
  let ?f = "compiledNodeMaxBytecodeSize d"
  have sq: "starts ! q = node_start d tr base xs q"
    using lay ord unfolding final_layout_def by blast
  have ord': "live_order d = (xs @ q # ys) @ x # zs" using ord by simp
  have sx: "starts ! x = node_start d tr base (xs @ q # ys) x"
    using lay ord' unfolding final_layout_def by blast
  have xr: "x \<noteq> root d"
  proof
    assume "x = root d"
    moreover have "hd (live_order d) = root d" using live_order_root [OF wf] by simp
    ultimately show False using ord distinct_live_order [of d] by (cases xs) auto
  qed
  show "base + csize (nodes_code d tr xs) + csize (acts_code d q) + csize (tr q) \<le> starts ! x"
    using sx by (simp add: node_start_def)
  show "starts ! q \<le> base + csize (nodes_code d tr xs) + csize (acts_code d q)"
    using sq by (simp add: node_start_def)
  have "csize (nodes_code d tr (q # ys)) \<le> sum_list (map ?f (q # ys))"
  proof (rule nodes_code_size [OF wf])
    fix y assume y: "y \<in> set (q # ys)"
    then have "y \<in> set (live_order d)" using ord by auto
    moreover obtain us vs where "live_order d = us @ y # vs" using calculation by (meson split_list)
    ultimately show "live d y \<and> trans_shape (node_transitions d (nodes d ! y)) (tr y)"
      using set_live_order [OF wf] lay unfolding final_layout_def by blast
  qed
  moreover have "max_node_start_offsets d ! x = 4 + sum_list (map ?f (xs @ q # ys))"
    using max_offset [OF wf _ ord'] sz xr by simp
  moreover have "max_node_start_offsets d ! q = 4 + sum_list (map ?f xs) + (if q = root d then csize (acts_code d q) else 0)"
    using max_offset [OF wf _ ord] sz by simp
  ultimately show "int (starts ! x) - int (starts ! q) \<le> int (max_node_start_offsets d ! x) - int (max_node_start_offsets d ! q)"
    using sx sq xr by (simp add: node_start_def)
qed

lemma max_offset_le:
  assumes wf: "dfa_wf d" and sz: "max_bytecode_size d < 2 ^ 32" and lay: "final_layout d base tr starts"
    and lq: "live d q"
  shows "max_node_start_offsets d ! q \<le> max_bytecode_size d"
    and "csize (acts_code d q @ tr q) \<le> max_bytecode_size d"
proof -
  let ?f = "compiledNodeMaxBytecodeSize d"
  have "q \<in> set (live_order d)" using lq set_live_order [OF wf] by simp
  then obtain xs ys where ord: "live_order d = xs @ q # ys" by (meson split_list)
  have tr: "trans_shape (node_transitions d (nodes d ! q)) (tr q)"
    using lay ord unfolding final_layout_def by blast
  have c: "csize (acts_code d q @ tr q) \<le> ?f q"
    using node_code_size [OF wf lq, of tr] tr by (simp add: node_code_def)
  have s: "4 + (sum_list (map ?f xs) + (?f q + sum_list (map ?f ys))) \<le> max_bytecode_size d"
    using live_order_max [OF wf] ord by simp
  show "max_node_start_offsets d ! q \<le> max_bytecode_size d"
    using max_offset [OF wf sz ord] c s by (simp split: if_splits)
  show "csize (acts_code d q @ tr q) \<le> max_bytecode_size d" using c s by simp
qed

lemma distinct_split:
  "distinct (xs @ q # ys) \<Longrightarrow> us @ q # vs = xs @ q # ys \<Longrightarrow> us = xs \<and> vs = ys"
proof (induction xs arbitrary: us)
  case Nil
  then show ?case by (cases us) auto
next
  case (Cons x xs)
  then show ?case by (cases us) auto
qed

lemma field_ok_fits:
  assumes wf: "dfa_wf d" and sz: "max_bytecode_size d < 2 ^ 30"
    and lay: "final_layout d base tr starts" and ord: "live_order d = xs @ q # ys"
    and bnd: "\<And>x. live d x \<Longrightarrow> starts ! x < 2 ^ 31 - 1"
    and ok: "field_ok d starts q loc e"
    and loc: "base + csize (nodes_code d tr xs) + csize (acts_code d q) \<le> loc"
      "loc + esize e \<le> base + csize (nodes_code d tr xs) + csize (acts_code d q) + csize (tr q)"
      "loc < 2 ^ 31"
  shows "field_fits starts loc e"
proof -
  obtain h ds s where e: "e = (h, ds, s)" by (cases e)
  have u: "u32 loc = loc" using loc by (intro u32_id) simp
  have starts_ge: "base + csize (nodes_code d tr xs) \<le> starts ! q"
    using final_layoutD(1) [OF lay ord] by (simp add: node_start_def)
  have "starts ! x < 2 ^ 31 - 1 \<and> fits s (int (starts ! x) - int loc)" if x: "x \<in> set ds" for x
  proof
    have lx: "live d x" using ok x by (auto simp: field_ok_def e)
    show b: "starts ! x < 2 ^ 31 - 1" by (rule bnd [OF lx])
    have small: "fits s v" if "smallestPossibleJumpSize v \<le> s" "- (2 ^ 31) \<le> v" "v < 2 ^ 31" for v
      using fits_mono [OF fits_smallest] that by blast
    consider (exact) "smallestPossibleJumpSize (to_int32 (int (starts ! x) - int loc)) \<le> s"
      | (later) us vs where "smallestPossibleJumpSize (to_int32 (int (max_node_start_offsets d ! x)
           - int (max_node_start_offsets d ! q) - (int (starts ! q) - int loc))) \<le> s"
        "live_order d = us @ q # vs" "x \<in> set vs"
      using ok x by (auto simp: field_ok_def e u)
    then show "fits s (int (starts ! x) - int loc)"
    proof cases
      case exact
      moreover have "to_int32 (int (starts ! x) - int loc) = int (starts ! x) - int loc"
        using b loc by (intro to_int32_id) auto
      ultimately show ?thesis using b loc by (intro small) auto
    next
      case later
      have "us = xs \<and> vs = ys"
        using distinct_split [of xs q ys us vs] later(2) ord distinct_live_order [of d] by metis
      then obtain y1 y2 where o: "live_order d = xs @ q # y1 @ x # y2" using later split_list [of x vs] by auto
      have sz': "max_bytecode_size d < 2 ^ 31 - 1" using sz by simp
      note D = node_start_distance [OF wf sz' lay o]
      let ?v = "int (max_node_start_offsets d ! x) - int (max_node_start_offsets d ! q) - (int (starts ! q) - int loc)"
      have "q \<in> set (live_order d)" by (simp add: ord)
      then have lq: "live d q" by (simp add: set_live_order [OF wf])
      have mx: "max_node_start_offsets d ! x \<le> max_bytecode_size d"
        by (rule max_offset_le(1) [OF wf _ lay lx]) (use sz in simp)
      have cq: "csize (acts_code d q @ tr q) \<le> max_bytecode_size d"
        by (rule max_offset_le(2) [OF wf _ lay lq]) (use sz in simp)
      have v: "0 \<le> int (starts ! x) - int loc" using D(1) loc(2) by linarith
      have v2: "int (starts ! x) - int loc \<le> ?v" using D(2,3) loc(1) starts_ge by linarith
      have "int loc - int (starts ! q) \<le> int (max_bytecode_size d)"
        using loc(2) starts_ge cq unfolding csize_append by linarith
      then have v3: "?v < 2 ^ 31" using mx sz by simp
      have t: "to_int32 ?v = ?v" by (rule to_int32_id) (use v v2 v3 in linarith)+
      have "fits s ?v" by (rule small) (use later(1) t v v2 v3 in simp_all)
      then show ?thesis using v v2 by (rule fits_between)
    qed
  qed
  then show ?thesis by (simp add: field_fits_def e)
qed


section \<open>The compiled bytecode\<close>

theorem compile_layout:
  assumes wf: "dfa_wf d" and sz: "length pre + max_bytecode_size d < 2 ^ 30"
  shows "\<exists>tr starts. final_layout d (length pre + 4) tr starts \<and>
     (\<forall>q. live d q \<longrightarrow> starts ! q < 2 ^ 31 - 1) \<and>
     all_at (field_fits starts) (length pre + 4) (nodes_code d tr (live_order d)) \<and>
     csize (nodes_code d tr (live_order d)) + 4 \<le> max_bytecode_size d \<and>
     compile d pre = Some (pre @ encode_le 4 (int (4 + csize (nodes_code d tr (live_order d))))
       @ linked_all starts (length pre + 4) (nodes_code d tr (live_order d)))"
proof -
  let ?base = "length pre + 4" and ?c = "compile_nodes d pre"
  have sz': "length pre + max_bytecode_size d < 2 ^ 31 - 1" "max_bytecode_size d < 2 ^ 30" using sz by auto
  obtain tr where inv: "layout_inv d pre tr (live_order d) ?c"
    using compile_nodes_layout [OF wf sz'(1)] by blast
  define starts where "starts = m_nodeStartOffsets ?c"
  let ?code = "nodes_code d tr (live_order d)"
  have I: "m_bytecode ?c = pre @ encode_le 4 0 @ concat (map unlinked ?code)"
    "map link_key (m_linkRecords ?c) = link_keys ?base ?code"
    "\<And>xs q ys. live_order d = xs @ q # ys \<Longrightarrow>
        starts ! q = u32 (node_start d tr ?base xs q) \<and>
        trans_shape (node_transitions d (nodes d ! q)) (tr q) \<and>
        all_at (field_ok d starts q) (?base + csize (nodes_code d tr xs) + csize (acts_code d q)) (tr q)"
    using inv unfolding layout_inv_def starts_def by blast+
  have lv: "live d q \<and> trans_shape (node_transitions d (nodes d ! q)) (tr q)" if q: "q \<in> set (live_order d)" for q
  proof -
    obtain xs ys where "live_order d = xs @ q # ys" using split_list [OF q] by (elim exE)
    then have "trans_shape (node_transitions d (nodes d ! q)) (tr q)" by (rule I(3) [THEN conjunct2, THEN conjunct1])
    then show ?thesis using q set_live_order [OF wf] by simp
  qed
  have csz: "csize ?code + 4 \<le> max_bytecode_size d"
    using nodes_code_size [OF wf lv, of "live_order d"] live_order_max [OF wf] by simp
  have ns: "node_start d tr ?base xs q < 2 ^ 30" if "live_order d = xs @ q # ys" for xs q ys
    using csz sz that by (cases "q = root d") (simp_all add: node_start_def)
  have st: "starts ! q = node_start d tr ?base xs q" if "live_order d = xs @ q # ys" for xs q ys
    using I(3) [OF that] ns [OF that] by (simp add: u32_id)
  then have lay: "final_layout d ?base tr starts" using I(3) unfolding final_layout_def by blast
  have bnd: "starts ! q < 2 ^ 31 - 1" if "live d q" for q
  proof -
    have "q \<in> set (live_order d)" using that set_live_order [OF wf] by simp
    then obtain xs ys where o: "live_order d = xs @ q # ys" using split_list by metis
    show ?thesis using st [OF o] ns [OF o] by simp
  qed
  have fit: "all_at (field_fits starts) ?base ?code"
  proof (rule all_at_nodes)
    fix xs q ys assume o: "live_order d = xs @ q # ys"
    have "csize (nodes_code d tr xs) + csize (acts_code d q) + csize (tr q) \<le> csize ?code" by (simp add: o)
    then have lt: "?base + csize (nodes_code d tr xs) + csize (acts_code d q) + csize (tr q) < 2 ^ 31"
      using csz sz power_increasing [of 30 31 "2::nat"] by linarith
    have "all_at (field_fits starts) (?base + csize (nodes_code d tr xs) + csize (acts_code d q)) (tr q)"
    proof (rule all_at_bounded [OF I(3) [OF o, THEN conjunct2, THEN conjunct2]])
      fix l e assume e: "field_ok d starts q l e" "?base + csize (nodes_code d tr xs) + csize (acts_code d q) \<le> l"
        "l + esize e \<le> ?base + csize (nodes_code d tr xs) + csize (acts_code d q) + csize (tr q)"
      have "l < 2 ^ 31" using e(3) lt by linarith
      with e show "field_fits starts l e" by (intro field_ok_fits [OF wf sz'(2) lay o bnd])
    qed
    then show "all_at (field_fits starts) (?base + csize (nodes_code d tr xs)) (acts_code d q @ tr q)"
      by (simp add: acts_fit)
  qed
  have link: "link_all starts (m_linkRecords ?c) ((pre @ encode_le 4 0) @ concat (map unlinked ?code) @ []) =
      Some ((pre @ encode_le 4 0) @ linked_all starts (length (pre @ encode_le 4 0)) ?code @ [])"
    by (rule link_code) (use I(2) fit csz sz in auto)
  have u: "u32 (length pre) = length pre" using sz by (intro u32_id) simp
  have "compile d pre = setBits 4 (length pre) (int (length (pre @ encode_le 4 0 @ linked_all starts ?base ?code)) - int (length pre))
      (pre @ encode_le 4 0 @ linked_all starts ?base ?code)"
    using link I(1) by (simp add: compile_def Let_def starts_def u)
  then have "compile d pre = Some (pre @ encode_le 4 (int (4 + csize ?code)) @ linked_all starts ?base ?code)"
    using setBits_mid [of "encode_le 4 0" 4 pre] by (simp add: add.commute)
  then show ?thesis using lay bnd fit csz by blast
qed

end
