(* ===== verification/Code_Execution.thy ===== *)
theory Code_Execution
  imports Code_Layout
begin

text \<open>
  What \<open>DFABytecodeInterpreter\<close> does on one emitted instruction: each lemma reads the linked bytes
  back and gives the next state of the loop.
\<close>

section \<open>Bytes at a position\<close>

definition bytes_at :: "u8 list \<Rightarrow> nat \<Rightarrow> u8 list \<Rightarrow> bool" where
  "bytes_at bc i bs \<longleftrightarrow> i + length bs \<le> length bc \<and> vec_slice i (length bs) bc = bs"

lemma bytes_at_append: "bytes_at bc i (xs @ ys) \<longleftrightarrow> bytes_at bc i xs \<and> bytes_at bc (i + length xs) ys"
proof -
  have "take (length xs + length ys) (drop i bc) = xs @ ys \<longleftrightarrow>
      take (length xs) (drop i bc) = xs \<and> take (length ys) (drop (length xs) (drop i bc)) = ys"
    if "i + length xs + length ys \<le> length bc"
    using that by (auto simp: take_add append_eq_append_conv)
  then show ?thesis by (auto simp: bytes_at_def vec_slice_def add.assoc add.commute [of i])
qed

lemma bytes_at_Cons: "bytes_at bc i (x # xs) \<longleftrightarrow> bytes_at bc i [x] \<and> bytes_at bc (Suc i) xs"
  using bytes_at_append [of bc i "[x]" xs] by simp

lemma bytes_at_mid: "length A = i \<Longrightarrow> bytes_at (A @ bs @ B) i bs"
  by (auto simp: bytes_at_def)

lemma bytes_at_bound: "bytes_at bc i bs \<Longrightarrow> i + length bs \<le> length bc"
  by (simp add: bytes_at_def)

lemma getByte_at: "bytes_at bc i [b] \<Longrightarrow> getByte bc i = Some b"
  by (auto simp: bytes_at_def getByte_def vec_slice_def take_Suc_conv_app_nth hd_drop_conv_nth [symmetric] take_Suc)

lemma getBits_at: "bytes_at bc i (encode_le n v) \<Longrightarrow> getBits n bc i = Some (v mod 256 ^ n)"
  by (simp add: bytes_at_def getBits_def decode_encode_le)

lemma getBits_byte: "bytes_at bc i [word_of_int v] \<Longrightarrow> 0 \<le> v \<Longrightarrow> v < 256 \<Longrightarrow> getBits 1 bc i = Some v"
  using getBits_at [of bc i 1 v] by simp

lemma getSignedBits_at:
  "bytes_at bc i (encode_le n v) \<Longrightarrow> - (256 ^ n) \<le> 2 * v \<Longrightarrow> 2 * v < 256 ^ n \<Longrightarrow> getSignedBits n bc i = Some v"
  by (simp add: bytes_at_def getSignedBits_def decode_encode_signed)

lemma or_low_high: "(v mod 2 ^ 16) OR ((v div 2 ^ 16) * 2 ^ 16) = (v :: int)"
proof -
  have "take_bit 16 v OR push_bit 16 (drop_bit 16 v) = v"
  proof (rule bit_eqI)
    fix n
    show "bit (take_bit 16 v OR push_bit 16 (drop_bit 16 v)) n \<longleftrightarrow> bit v n"
      by (cases "n < 16") (simp_all add: bit_or_iff bit_take_bit_iff bit_push_bit_iff bit_drop_bit_eq)
  qed
  then show ?thesis by (simp add: take_bit_eq_mod push_bit_eq_mult drop_bit_eq_div)
qed

lemma getJumpDistance_at:
  assumes b: "bytes_at bc i (encode_le (jumpSizeInBytes s) v)" and f: "fits s v" and sz: "length bc < 2 ^ 31"
  shows "getJumpDistance bc i s = Some v"
proof (cases s)
  case Int24
  have sp: "bytes_at bc i (encode_le 2 v)" "bytes_at bc (i + 2) (encode_le 1 (v div 2 ^ 16))"
    using b Int24 encode_le_split [of 2 1 v] by (simp_all add: bytes_at_append)
  have h: "- (2 ^ 7) \<le> v div 2 ^ 16" "v div 2 ^ 16 < 2 ^ 7" using f Int24 by (auto simp: fits_def)
  have "u32 (i + 2) = i + 2" using bytes_at_bound [OF sp(2)] sz by (intro u32_id) simp
  then have "getSignedBits 1 bc (u32 (i + 2)) = Some (v div 2 ^ 16)"
    using getSignedBits_at [OF sp(2)] h by simp
  moreover have "getBits 2 bc i = Some (v mod 2 ^ 16)" using getBits_at [OF sp(1)] by simp
  moreover have "to_int32 (v div 2 ^ 16 * 2 ^ 16) = v div 2 ^ 16 * 2 ^ 16"
    using h by (intro to_int32_id) auto
  ultimately show ?thesis using or_low_high [of v] by (simp add: Int24)
qed (use b f getSignedBits_at in \<open>simp_all add: fits_def\<close>)

lemma field_at:
  assumes "bytes_at bc i (concat (map (\<lambda>x. encode_le n (f x)) xs))" "k < length xs"
  shows "bytes_at bc (i + k * n) (encode_le n (f (xs ! k)))"
  using assms
proof (induction xs arbitrary: i k)
  case (Cons x xs)
  then show ?case using Cons.IH [of "i + n" "k - 1"]
    by (cases k) (auto simp: bytes_at_append add.assoc)
qed simp

section \<open>Single instructions\<close>

lemmas step_defs = interpret_step_def getInstruction_def unless_after_end_def then_at_def

lemma u32_small: "pc < 2 ^ 31 \<Longrightarrow> k < 2 ^ 31 \<Longrightarrow> u32 (pc + k) = pc + k"
  by (rule u32_id) simp

lemma jump_by_start: "off + x < 2 ^ 31 \<Longrightarrow> jump_by (off + loc) (int x - int loc) = off + x"
  by (simp add: jump_by_def u32_of_int_id)

lemma step_terminate:
  "bytes_at (i_bytecode p) pc [opcode Terminate] \<Longrightarrow> interpret_step p (pc, ui, ae, A) = Some (Inl A)"
  by (simp add: step_defs getByte_at del: opcode.simps)

lemma fold_case_zero: "fold_case cs c = 0 \<longleftrightarrow> c = 0"
  by (auto simp: fold_case_def toASCIILower_def)

text \<open>The dispatch on an instruction that looks at the character.\<close>

lemma step_dispatch:
  "getByte (i_bytecode p) pc = Some (opcode (if cs then JumpTableCaseSensitive else JumpTableCaseInsensitive)
      OR jump_size_code s) \<Longrightarrow>
   interpret_step p (pc, ui, False, A) = map_option Inr (interpetJumpTable p cs (pc, ui, False, A))"
  "getByte (i_bytecode p) pc = Some (opcode (if cs then CheckValueCaseSensitive else CheckValueCaseInsensitive)
      OR jump_size_code s) \<Longrightarrow>
   interpret_step p (pc, ui, False, A) = map_option Inr (interpretCheckValue p cs (pc, ui, False, A))"
  "getByte (i_bytecode p) pc = Some (opcode (if cs then CheckValueRangeCaseSensitive else CheckValueRangeCaseInsensitive)
      OR jump_size_code s) \<Longrightarrow>
   interpret_step p (pc, ui, False, A) = map_option Inr (interpretCheckValueRange p cs (pc, ui, False, A))"
  by (simp_all add: step_defs del: opcode.simps)

lemma step_table:
  assumes b: "bytes_at (i_bytecode p) (off + loc) (linked starts loc (table_instr t s))"
    and wf: "table_wf t" and ff: "field_fits starts loc (table_instr t s)"
    and sz: "length (i_bytecode p) < 2 ^ 31" and tg: "\<And>x. x \<in> set (jt_destinations t) \<Longrightarrow> off + starts ! x < 2 ^ 31"
    and c: "url_at (i_url p) ui = Some c"
  shows "interpret_step p (off + loc, ui, False, A) = Some (Inr
    (case jt_lookup t c of
       Some x \<Rightarrow> (off + starts ! x, u32 (ui + 1), c = 0, A)
     | None \<Rightarrow> (off + (loc + esize (table_instr t s)), ui, False, A)))"
proof -
  let ?bc = "i_bytecode p" and ?pc = "off + loc" and ?n = "jumpSizeInBytes s"
  define op where "op = (if jt_caseSensitive t then JumpTableCaseSensitive else JumpTableCaseInsensitive)"
  have B: "bytes_at ?bc ?pc [opcode op OR jump_size_code s]" "bytes_at ?bc (?pc + 1) [word_of_int (int (jt_min t))]"
    "bytes_at ?bc (?pc + 2) [word_of_int (int (jt_max t))]"
    "bytes_at ?bc (?pc + 3) (concat (map (\<lambda>x. encode_le ?n (int (starts ! x) - int loc)) (jt_destinations t)))"
    using b by (simp_all add: table_instr_def op_def bytes_at_Cons [of _ _ _ "_ # _"] bytes_at_Cons [of _ _ _ "concat _"]
      bytes_at_append numeral_3_eq_3)
  have w: "jt_min t \<le> jt_max t" "jt_max t < 128" "length (jt_destinations t) = jt_max t - jt_min t + 1"
    using wf by (auto simp: table_wf_def)
  have sz': "length ?bc < 2 ^ 32" using sz by simp
  have bnd: "?pc + 3 + length (jt_destinations t) * ?n \<le> length ?bc"
    using bytes_at_bound [OF B(4)] by simp
  have G: "getByte ?bc ?pc = Some (opcode op OR jump_size_code s)" by (rule getByte_at [OF B(1)])
  have ins: "instruction_of_byte (opcode op OR jump_size_code s) = Some op"
    "jump_size_of_byte (opcode op OR jump_size_code s) = Some s" by simp_all
  have lo: "getBits 1 ?bc (u32 (?pc + 1)) = Some (int (jt_min t))"
    using getBits_byte [OF B(2)] w u32_small [of ?pc 1] bnd sz by simp
  have hi: "getBits 1 ?bc (u32 (?pc + 1 + 1)) = Some (int (jt_max t))"
    using getBits_byte [OF B(3)] w u32_small [of ?pc 2] bnd sz by simp
  define c' where "c' = fold_case (jt_caseSensitive t) c"
  define k where "k = nat (c' - int (jt_min t))"
  have tab: "interpetJumpTable p (jt_caseSensitive t) (?pc, ui, False, A) = Some
    (case jt_lookup t c of
       Some x \<Rightarrow> (off + starts ! x, u32 (ui + 1), c = 0, A)
     | None \<Rightarrow> (off + (loc + esize (table_instr t s)), ui, False, A))"
  proof (cases "int (jt_min t) \<le> c' \<and> c' \<le> int (jt_max t)")
    case True
    then have k: "k < length (jt_destinations t)" using w by (auto simp: k_def)
    let ?x = "jt_destinations t ! k"
    have "k * ?n \<le> length (jt_destinations t) * ?n" using k by (intro mult_le_mono1) simp
    then have "?pc + 1 + 2 * 1 + k * ?n < 2 ^ 32" using bnd sz' by linarith
    then have u: "u32 (?pc + 1 + 2 * 1 + k * ?n) = ?pc + 3 + k * ?n" by (simp add: u32_id)
    have "fits s (int (starts ! ?x) - int loc)" using ff k by (auto simp: field_fits_def table_instr_def)
    then have "getJumpDistance ?bc (u32 (?pc + 1 + 2 * 1 + k * ?n)) s = Some (int (starts ! ?x) - int loc)"
      unfolding u using field_at [OF B(4) k] sz by (intro getJumpDistance_at)
    moreover have "jt_lookup t c = Some ?x" using True by (simp add: jt_lookup_def c'_def [symmetric] k_def Let_def)
    moreover have "jump_by ?pc (int (starts ! ?x) - int loc) = off + starts ! ?x"
      using tg k by (intro jump_by_start) simp
    ultimately show ?thesis using True G ins lo hi c unfolding k_def
      by (simp add: interpetJumpTable_def getJumpSize_def c'_def [symmetric] Let_def fold_case_zero [of "jt_caseSensitive t" c, folded c'_def])
  next
    case False
    then have "jt_lookup t c = None" by (auto simp: jt_lookup_def c'_def Let_def)
    moreover have "nat (int (jt_max t) - int (jt_min t) + 1) = length (jt_destinations t)"
      using w by (simp add: nat_add_distrib nat_diff_distrib')
    moreover have "u32 (?pc + 3 + length (jt_destinations t) * ?n) = off + (loc + esize (table_instr t s))"
      using bnd sz by (subst u32_id) (auto simp: table_instr_def)
    ultimately show ?thesis using False G ins lo hi c
      by (auto simp: interpetJumpTable_def getJumpSize_def c'_def [symmetric] Let_def numeral_3_eq_3 mult.commute)
  qed
  show ?thesis using step_dispatch(1) [OF G [unfolded op_def]] tab by simp
qed


lemma step_range:
  assumes b: "bytes_at (i_bytecode p) (off + loc) (linked starts loc (range_instr r s))"
    and wf: "range_wf r" and ff: "field_fits starts loc (range_instr r s)"
    and sz: "length (i_bytecode p) < 2 ^ 31" and tg: "off + starts ! rg_destination r < 2 ^ 31"
    and c: "url_at (i_url p) ui = Some c"
  shows "interpret_step p (off + loc, ui, False, A) = Some (Inr
    (if rg_matches r c then (off + starts ! rg_destination r, u32 (ui + 1), c = 0, A)
     else (off + (loc + esize (range_instr r s)), ui, False, A)))"
proof -
  let ?bc = "i_bytecode p" and ?pc = "off + loc" and ?n = "jumpSizeInBytes s"
    and ?v = "int (starts ! rg_destination r) - int loc"
  have w: "rg_min r \<le> rg_max r" "rg_max r < 128" using wf by (auto simp: range_wf_def)
  have f: "fits s ?v" using ff by (auto simp: field_fits_def range_instr_def split: if_splits)
  have j: "jump_by ?pc ?v = off + starts ! rg_destination r" by (rule jump_by_start [OF tg])
  define c' where "c' = fold_case (rg_caseSensitive r) c"
  have z: "c' = 0 \<longleftrightarrow> c = 0" by (simp add: c'_def fold_case_zero)
  show ?thesis
  proof (cases "rg_min r = rg_max r")
    case True
    define op where "op = (if rg_caseSensitive r then CheckValueCaseSensitive else CheckValueCaseInsensitive)"
    have B: "bytes_at ?bc ?pc [opcode op OR jump_size_code s]" "bytes_at ?bc (?pc + 1) [word_of_int (int (rg_min r))]"
      "bytes_at ?bc (?pc + 2) (encode_le ?n ?v)"
      using b True by (simp_all add: range_instr_def op_def bytes_at_Cons [of _ _ _ "_ # _"] bytes_at_Cons [of _ _ _ "encode_le _ _"])
    have bnd: "?pc + 2 + ?n \<le> length ?bc" using bytes_at_bound [OF B(3)] by simp
    have G: "getByte ?bc ?pc = Some (opcode op OR jump_size_code s)" by (rule getByte_at [OF B(1)])
    have ins: "instruction_of_byte (opcode op OR jump_size_code s) = Some op"
      "jump_size_of_byte (opcode op OR jump_size_code s) = Some s" by simp_all
    have lo: "getBits 1 ?bc (u32 (?pc + 1)) = Some (int (rg_min r))"
      using getBits_byte [OF B(2)] w u32_small [of ?pc 1] bnd sz by simp
    have jd: "getJumpDistance ?bc (u32 (?pc + 1 + 1)) s = Some ?v"
      using getJumpDistance_at [OF B(3) f sz] u32_small [of ?pc 2] bnd sz by simp
    have nx: "u32 (?pc + 1 + 1 + ?n) = off + (loc + esize (range_instr r s))"
      using u32_small [of ?pc "2 + ?n"] bnd sz jumpSizeInBytes_bounds [of s] True
      by (simp add: range_instr_def)
    have m: "rg_matches r c \<longleftrightarrow> c' = int (rg_min r)" using True by (auto simp: rg_matches_def c'_def)
    have "interpretCheckValue p (rg_caseSensitive r) (?pc, ui, False, A) = Some
      (if rg_matches r c then (off + starts ! rg_destination r, u32 (ui + 1), c = 0, A)
       else (off + (loc + esize (range_instr r s)), ui, False, A))"
      unfolding m interpretCheckValue_def getJumpSize_def prod.case
      using c G ins lo jd nx j z by (auto simp: c'_def [symmetric] Let_def)
    then show ?thesis using step_dispatch(2) [OF G [unfolded op_def]] by simp
  next
    case False
    define op where "op = (if rg_caseSensitive r then CheckValueRangeCaseSensitive else CheckValueRangeCaseInsensitive)"
    have B: "bytes_at ?bc ?pc [opcode op OR jump_size_code s]" "bytes_at ?bc (?pc + 1) [word_of_int (int (rg_min r))]"
      "bytes_at ?bc (?pc + 2) [word_of_int (int (rg_max r))]" "bytes_at ?bc (?pc + 3) (encode_le ?n ?v)"
      using b False by (simp_all add: range_instr_def op_def bytes_at_Cons [of _ _ _ "_ # _"] bytes_at_Cons [of _ _ _ "encode_le _ _"]
        numeral_3_eq_3)
    have bnd: "?pc + 3 + ?n \<le> length ?bc" using bytes_at_bound [OF B(4)] by simp
    have G: "getByte ?bc ?pc = Some (opcode op OR jump_size_code s)" by (rule getByte_at [OF B(1)])
    have ins: "instruction_of_byte (opcode op OR jump_size_code s) = Some op"
      "jump_size_of_byte (opcode op OR jump_size_code s) = Some s" by simp_all
    have lo: "getBits 1 ?bc (u32 (?pc + 1)) = Some (int (rg_min r))"
      using getBits_byte [OF B(2)] w u32_small [of ?pc 1] bnd sz by simp
    have hi: "getBits 1 ?bc (u32 (?pc + 1 + 1)) = Some (int (rg_max r))"
      using getBits_byte [OF B(3)] w u32_small [of ?pc 2] bnd sz by simp
    have jd: "getJumpDistance ?bc (u32 (?pc + 1 + 2 * 1)) s = Some ?v"
      using getJumpDistance_at [OF B(4) f sz] u32_small [of ?pc 3] bnd sz by (simp add: numeral_3_eq_3)
    have nx: "u32 (?pc + 1 + 2 * 1 + ?n) = off + (loc + esize (range_instr r s))"
      using u32_small [of ?pc "3 + ?n"] bnd sz jumpSizeInBytes_bounds [of s] False
      by (simp add: range_instr_def numeral_3_eq_3)
    have m: "rg_matches r c \<longleftrightarrow> int (rg_min r) \<le> c' \<and> c' \<le> int (rg_max r)" by (auto simp: rg_matches_def c'_def)
    have "interpretCheckValueRange p (rg_caseSensitive r) (?pc, ui, False, A) = Some
      (if rg_matches r c then (off + starts ! rg_destination r, u32 (ui + 1), c = 0, A)
       else (off + (loc + esize (range_instr r s)), ui, False, A))"
      unfolding m interpretCheckValueRange_def getJumpSize_def prod.case
      using c G ins lo hi jd nx j z by (simp add: c'_def [symmetric] Let_def)
    then show ?thesis using step_dispatch(3) [OF G [unfolded op_def]] by simp
  qed
qed

lemma step_jump:
  assumes b: "bytes_at (i_bytecode p) (off + loc) (linked starts loc (jump_instr x s))"
    and ff: "field_fits starts loc (jump_instr x s)"
    and sz: "length (i_bytecode p) < 2 ^ 31" and tg: "off + starts ! x < 2 ^ 31"
  shows "interpret_step p (off + loc, ui, ae, A) =
    (case url_at (i_url p) ui of
       None \<Rightarrow> None
     | Some c \<Rightarrow> Some (if c = 0 \<or> ae then Inl A else Inr (off + starts ! x, u32 (ui + 1), False, A)))"
proof -
  let ?bc = "i_bytecode p" and ?pc = "off + loc" and ?n = "jumpSizeInBytes s" and ?v = "int (starts ! x) - int loc"
  have B: "bytes_at ?bc ?pc [opcode Jump OR jump_size_code s]" "bytes_at ?bc (?pc + 1) (encode_le ?n ?v)"
    using b by (simp_all add: jump_instr_def bytes_at_Cons [of _ _ _ "encode_le _ _"])
  have bnd: "?pc + 1 + ?n \<le> length ?bc" using bytes_at_bound [OF B(2)] by simp
  have f: "fits s ?v" using ff by (auto simp: field_fits_def jump_instr_def)
  have G: "getByte ?bc ?pc = Some (opcode Jump OR jump_size_code s)" by (rule getByte_at [OF B(1)])
  have ins: "instruction_of_byte (opcode Jump OR jump_size_code s) = Some Jump"
    "jump_size_of_byte (opcode Jump OR jump_size_code s) = Some s" by (rule instruction_of_byte_with_size jump_size_of_byte_with_size)+
  have jd: "getJumpDistance ?bc (u32 (?pc + 1)) s = Some ?v"
    using getJumpDistance_at [OF B(2) f sz] u32_small [of ?pc 1] bnd sz by simp
  show ?thesis using G ins jd jump_by_start [OF tg]
    by (auto simp: step_defs interpretJump_def getJumpSize_def split: option.splits)
qed

text \<open>After the end of the string, an instruction that looks at the character ends the DFA.\<close>

lemma step_after_end:
  assumes "bytes_at (i_bytecode p) (off + loc) (linked starts loc e)"
    and "e = table_instr t s \<or> e = range_instr r s"
  shows "interpret_step p (off + loc, ui, True, A) = Some (Inl A)"
proof -
  define op where "op = (if e = table_instr t s
     then (if jt_caseSensitive t then JumpTableCaseSensitive else JumpTableCaseInsensitive)
     else if rg_min r = rg_max r
     then (if rg_caseSensitive r then CheckValueCaseSensitive else CheckValueCaseInsensitive)
     else (if rg_caseSensitive r then CheckValueRangeCaseSensitive else CheckValueRangeCaseInsensitive))"
  have op: "op \<in> {JumpTableCaseSensitive, JumpTableCaseInsensitive, CheckValueCaseSensitive,
      CheckValueCaseInsensitive, CheckValueRangeCaseSensitive, CheckValueRangeCaseInsensitive}"
    by (simp add: op_def)
  have "hd (fst e) = (opcode op OR jump_size_code s) \<and> fst e \<noteq> []"
    using assms(2) by (cases "e = table_instr t s") (auto simp: op_def table_instr_def range_instr_def)
  then obtain h where "fst e = (opcode op OR jump_size_code s) # h" by (cases "fst e") auto
  moreover obtain ds s' where "e = (fst e, ds, s')" by (cases e) auto
  ultimately have "bytes_at (i_bytecode p) (off + loc) [opcode op OR jump_size_code s]"
    using assms(1) bytes_at_append by (metis append_Cons append_Nil linked.simps)
  then have "getByte (i_bytecode p) (off + loc) = Some (opcode op OR jump_size_code s)" by (rule getByte_at)
  moreover have "instruction_of_byte (opcode op OR jump_size_code s) = Some op" by simp
  ultimately show ?thesis using op by (auto simp: step_defs)
qed

section \<open>Actions\<close>

text \<open>An action word uses 49 bits: a location, the 16 flags, the domain flag.\<close>

definition action_wf :: "u64 \<Rightarrow> bool" where
  "action_wf a \<longleftrightarrow> drop_bit 49 a = 0"

definition action_flags :: "u64 \<Rightarrow> u16" where
  "action_flags a = word_of_int (uint (drop_bit 32 a))"

definition has_flags :: "u64 \<Rightarrow> bool" where
  "has_flags a \<longleftrightarrow> a AND ActionFlagMask \<noteq> 0"

definition domain_ok :: "DFABytecodeInterpreter \<Rightarrow> u64 \<Rightarrow> bool" where
  "domain_ok p a = (case i_domainActions p of None \<Rightarrow> True | Some D \<Rightarrow> matchesDomain a D)"

definition selected :: "DFABytecodeInterpreter \<Rightarrow> u64 \<Rightarrow> bool" where
  "selected p a \<longleftrightarrow> flags_match (action_flags a) (i_flags p) \<and> domain_ok p a"

lemma add_if_domain_matches_eq: "add_if_domain_matches p a A = (if domain_ok p a then insert a A else A)"
  by (simp add: add_if_domain_matches_def domain_ok_def split: option.splits)

lemma low_bits: "(word_of_int (uint a mod 2 ^ 32) :: u64) = take_bit 32 a" for a :: u64
  unfolding take_bit_eq_mod [symmetric] unsigned_take_bit_eq [symmetric] by (rule word_of_int_uint)

lemma flag_bits: "(word_of_int (uint (drop_bit 32 a) mod 2 ^ 16) :: u64) = take_bit 16 (drop_bit 32 a)" for a :: u64
  unfolding take_bit_eq_mod [symmetric] unsigned_take_bit_eq [symmetric] by (rule word_of_int_uint)

lemma flag_bits16: "(word_of_int (uint (drop_bit 32 a) mod 2 ^ 16) :: u16) = action_flags a"
  unfolding action_flags_def take_bit_eq_mod [symmetric]
  by (rule bit_word_eqI) (simp add: bit_word_of_int_iff bit_take_bit_iff bit_ucast_iff bit_uint_iff)

lemma IfDomainFlag_eq: "IfDomainFlag = push_bit 48 1"
  by (simp add: IfDomainFlag_def push_bit_eq_mult)

lemma IfDomainFlag_at: "bit IfDomainFlag n \<longleftrightarrow> n = 48"
  unfolding IfDomainFlag_eq bit_push_bit_iff bit_1_iff by auto

lemma IfDomainFlag_bit: "a AND IfDomainFlag \<noteq> 0 \<longleftrightarrow> bit a 48"
proof -
  have "a AND IfDomainFlag = 0 \<longleftrightarrow> (\<forall>n. \<not> bit (a AND IfDomainFlag) n)"
    by (metis bit_0_eq bot_apply bot_bool_def bit_word_eqI)
  then show ?thesis by (auto simp: bit_and_iff IfDomainFlag_at)
qed

lemma ActionFlagMask_eq: "ActionFlagMask = push_bit 32 (mask 16)"
  by (simp add: ActionFlagMask_def mask_eq_exp_minus_1 push_bit_eq_mult)

lemma has_flags_bits: "has_flags a \<longleftrightarrow> take_bit 16 (drop_bit 32 a) \<noteq> 0"
proof -
  have "a AND ActionFlagMask = push_bit 32 (take_bit 16 (drop_bit 32 a))"
    unfolding ActionFlagMask_eq
    by (rule bit_word_eqI) (auto simp: bit_simps)
  moreover have "drop_bit 32 (push_bit 32 (take_bit 16 (drop_bit 32 a))) = take_bit 16 (drop_bit 32 a)"
    by (rule bit_word_eqI) (auto simp: bit_simps)
  then have "push_bit 32 (take_bit 16 (drop_bit 32 a)) = 0 \<longleftrightarrow> take_bit 16 (drop_bit 32 a) = 0"
    by (metis drop_bit_of_0 push_bit_of_0)
  ultimately show ?thesis by (simp add: has_flags_def)
qed

lemma high_bits: "action_wf a \<Longrightarrow> bit a n \<Longrightarrow> n < 49"
proof (rule ccontr)
  assume a: "action_wf a" "bit a n" "\<not> n < 49"
  then have "bit (drop_bit 49 a) (n - 49)" by (simp add: bit_drop_bit_eq)
  then show False using a(1) by (simp add: action_wf_def)
qed

lemma action_rebuilt:
  assumes "action_wf a"
  shows "(if bit a 48 then IfDomainFlag else 0) OR push_bit 32 (take_bit 16 (drop_bit 32 a)) OR take_bit 32 a = a"
proof (rule bit_word_eqI)
  fix n assume n: "n < LENGTH(64)"
  show "bit ((if bit a 48 then IfDomainFlag else 0) OR push_bit 32 (take_bit 16 (drop_bit 32 a)) OR take_bit 32 a) n = bit a n"
    using n high_bits [OF assms, of n] 
    by (cases "n = 48") (auto simp: bit_simps IfDomainFlag_at)
qed

lemma flags_match_zero: "flags_match 0 f"
  by (simp add: flags_match_def)

lemma no_flags: "\<not> has_flags a \<Longrightarrow> action_flags a = 0"
proof -
  assume "\<not> has_flags a"
  then have "uint (take_bit 16 (drop_bit 32 a)) = 0" by (simp add: has_flags_bits)
  then have "uint (drop_bit 32 a) mod 2 ^ 16 = 0"
    unfolding take_bit_eq_mod [symmetric] unsigned_take_bit_eq [symmetric] .
  then show ?thesis using flag_bits16 [of a] by simp
qed

lemma action_instr_bytes:
  "fst (action_instr a) = (if has_flags a
     then [opcode (if bit a 48 then TestFlagsAndAppendActionWithIfDomain else TestFlagsAndAppendAction)]
       @ encode_le 2 (uint (drop_bit 32 a)) @ encode_le 4 (uint a)
     else [opcode (if bit a 48 then AppendActionWithIfDomain else AppendAction)] @ encode_le 4 (uint a))"
  by (simp add: action_instr_def emitAppendAction_def emit_defs IfDomainFlag_bit has_flags_def del: opcode.simps)

lemma interpretAppendAction_at:
  assumes b: "bytes_at (i_bytecode p) pc (fst (action_instr a))" and wf: "action_wf a" and nf: "\<not> has_flags a"
    and sz: "length (i_bytecode p) < 2 ^ 31"
  shows "interpretAppendAction p pc A (bit a 48) = Some (pc + 5, if selected p a then insert a A else A)"
proof -
  have B: "bytes_at (i_bytecode p) (pc + 1) (encode_le 4 (uint a))"
    using b nf by (simp add: action_instr_bytes bytes_at_Cons [of _ _ _ "encode_le _ _"] del: opcode.simps)
  have bnd: "pc + 1 + 4 \<le> length (i_bytecode p)" using bytes_at_bound [OF B] by simp
  define lo where "lo = uint a mod 2 ^ 32"
  have "getBits 4 (i_bytecode p) (u32 (pc + 1)) = Some lo"
    using getBits_at [OF B] u32_small [of pc 1] bnd sz by (simp add: lo_def)
  moreover have "word_of_int lo = take_bit 32 a" unfolding lo_def by (rule low_bits)
  moreover have "(if bit a 48 then IfDomainFlag else 0) OR take_bit 32 a = a"
    using action_rebuilt [OF wf] nf by (simp add: has_flags_bits)
  moreover have "u32 (pc + 5) = pc + 5" using bnd sz by (intro u32_small) auto
  moreover have "selected p a = domain_ok p a" using nf by (simp add: selected_def no_flags flags_match_zero)
  ultimately show ?thesis
    by (simp add: interpretAppendAction_def add_if_domain_matches_eq Let_def del: One_nat_def)
qed

lemma interpretTestFlags_at:
  assumes b: "bytes_at (i_bytecode p) pc (fst (action_instr a))" and wf: "action_wf a" and f: "has_flags a"
    and sz: "length (i_bytecode p) < 2 ^ 31"
  shows "interpretTestFlagsAndAppendAction p pc A (bit a 48) =
    Some (pc + 7, if selected p a then insert a A else A)"
proof -
  have B: "bytes_at (i_bytecode p) (pc + 1) (encode_le 2 (uint (drop_bit 32 a)))"
    "bytes_at (i_bytecode p) (pc + 3) (encode_le 4 (uint a))"
    using b f by (simp_all add: action_instr_bytes bytes_at_Cons [of _ _ _ "encode_le _ _ @ _"] bytes_at_append
      numeral_3_eq_3 del: opcode.simps)
  have bnd: "pc + 3 + 4 \<le> length (i_bytecode p)" using bytes_at_bound [OF B(2)] by simp
  define lo fb where "lo = uint a mod 2 ^ 32" and "fb = uint (drop_bit 32 a) mod 2 ^ 16"
  have "getBits 2 (i_bytecode p) (u32 (pc + 1)) = Some fb"
    using getBits_at [OF B(1)] u32_small [of pc 1] bnd sz by (simp add: fb_def)
  moreover have "getBits 4 (i_bytecode p) (u32 (pc + 1 + 2)) = Some lo"
    using getBits_at [OF B(2)] u32_small [of pc 3] bnd sz by (simp add: numeral_3_eq_3 lo_def)
  moreover have "word_of_int lo = take_bit 32 a" unfolding lo_def by (rule low_bits)
  moreover have "word_of_int fb = take_bit 16 (drop_bit 32 a)" unfolding fb_def by (rule flag_bits)
  moreover have "word_of_int fb = action_flags a" unfolding fb_def by (rule flag_bits16)
  moreover have "(if bit a 48 then IfDomainFlag else 0) OR push_bit 32 (take_bit 16 (drop_bit 32 a)) OR take_bit 32 a = a"
    by (rule action_rebuilt [OF wf])
  moreover have "u32 (pc + 7) = pc + 7" using bnd sz by (intro u32_small) auto
  ultimately show ?thesis
    by (simp add: interpretTestFlagsAndAppendAction_def add_if_domain_matches_eq selected_def Let_def del: One_nat_def)
qed


lemma action_byte:
  assumes "bytes_at bc pc (fst (action_instr a))"
  shows "getByte bc pc = Some (opcode (if has_flags a
     then (if bit a 48 then TestFlagsAndAppendActionWithIfDomain else TestFlagsAndAppendAction)
     else (if bit a 48 then AppendActionWithIfDomain else AppendAction)))"
  using assms by (intro getByte_at) (auto simp: action_instr_bytes bytes_at_Cons [of _ _ _ "encode_le _ _ @ _"]
    bytes_at_Cons [of _ _ _ "encode_le _ _"] simp del: opcode.simps split: if_splits)

lemma appendActionBytecodeSize_eq: "appendActionBytecodeSize a = (if has_flags a then 7 else 5)"
  by (simp add: appendActionBytecodeSize_def has_flags_def)

lemma step_action:
  assumes b: "bytes_at (i_bytecode p) pc (fst (action_instr a))" and wf: "action_wf a"
    and sz: "length (i_bytecode p) < 2 ^ 31"
  shows "interpret_step p (pc, ui, ae, A) =
    Some (Inr (pc + appendActionBytecodeSize a, ui, ae, if selected p a then insert a A else A))"
proof (cases "has_flags a")
  case True
  show ?thesis using interpretTestFlags_at [OF b wf True sz, of A] action_byte [OF b] True
    by (cases "bit a 48") (simp_all add: step_defs appendActionBytecodeSize_eq del: opcode.simps)
next
  case False
  show ?thesis using interpretAppendAction_at [OF b wf False sz, of A] action_byte [OF b] False
    by (cases "bit a 48") (simp_all add: step_defs appendActionBytecodeSize_eq del: opcode.simps)
qed

end
