(* ===== verification/Compile_Correct.thy ===== *)
theory Compile_Correct
  imports Code_Execution
begin

text \<open>
  Compiling a DFA and interpreting the bytecode yields the actions of the nodes the DFA visits.
  The reference semantics is \<open>dfa_visits\<close>; \<open>code_visits\<close> is the same run except on the NUL that
  ends the string, where the bytecode never takes the fallback transition.
\<close>

section \<open>What the bytecode computes\<close>

definition code_delta :: "DFA \<Rightarrow> nat \<Rightarrow> cchar \<Rightarrow> nat option" where
  "code_delta d q c = (if c = 0 then explicit_target d (nodes d ! q) 0 else delta d q c)"

fun code_visits :: "DFA \<Rightarrow> nat \<Rightarrow> cchar list \<Rightarrow> nat list" where
  "code_visits d q [] = [q]"
| "code_visits d q (c # cs) = q # (case code_delta d q c of None \<Rightarrow> [] | Some q' \<Rightarrow> code_visits d q' cs)"

text \<open>A node whose code is a single fallback jump.\<close>

definition pure_fallback :: "DFA \<Rightarrow> DFANode \<Rightarrow> bool" where
  "pure_fallback d n \<longleftrightarrow> canUseFallbackTransition d n \<and>
     list_all (\<lambda>c. explicit_target d n (int c) = None) [0 ..< 128]"

definition eol_safe :: "DFA \<Rightarrow> bool" where
  "eol_safe d \<longleftrightarrow> list_all (\<lambda>q. isKilled (nodes d ! q) \<or>
     (case explicit_target d (nodes d ! q) 0 of None \<Rightarrow> True | Some t \<Rightarrow> \<not> pure_fallback d (nodes d ! t)))
     [0 ..< length (nodes d)]"

definition sel_actions :: "DFABytecodeInterpreter \<Rightarrow> DFA \<Rightarrow> nat \<Rightarrow> u64 set" where
  "sel_actions p d q = {a \<in> actions_at d q. selected p a}"

text \<open>Jumping to the root lands behind its actions.\<close>

definition entry_actions :: "DFABytecodeInterpreter \<Rightarrow> DFA \<Rightarrow> nat \<Rightarrow> u64 set" where
  "entry_actions p d q = (if q = root d then {} else sel_actions p d q)"

definition dfa_actions_wf :: "DFA \<Rightarrow> bool" where
  "dfa_actions_wf d \<longleftrightarrow> list_all action_wf (actions d)"

section \<open>The loop\<close>

lemma loop_Inr: "interpret_step p st = Some (Inr st') \<Longrightarrow> interpret_dfa p st = interpret_dfa p st'"
  by (subst interpret_dfa.simps) simp

lemma loop_Inl: "interpret_step p st = Some (Inl A) \<Longrightarrow> interpret_dfa p st = Some A"
  by (subst interpret_dfa.simps) simp

lemma loop_None: "interpret_step p st = None \<Longrightarrow> interpret_dfa p st = None"
  by (subst interpret_dfa.simps) simp

text \<open>
  The loop is deterministic, so whatever it computes from a state, it computes from the next
  one. The lemmas on runs hold for every function with this law; its instances are the
  actions that the loop returns and the state in which it stops.
\<close>

locale run_result =
  fixes p :: DFABytecodeInterpreter and K :: "run_state \<Rightarrow> 'r"
  assumes next_state: "interpret_step p st = Some (Inr st') \<Longrightarrow> K st = K st'"

partial_function (option) stop_state :: "DFABytecodeInterpreter \<Rightarrow> run_state \<Rightarrow> run_state option" where
  "stop_state p st =
     (case interpret_step p st of Some (Inr st') \<Rightarrow> stop_state p st' | _ \<Rightarrow> Some st)"

interpretation loop: run_result p "interpret_dfa p" for p
  by unfold_locales (rule loop_Inr)

lemma stop_state_next: "interpret_step p st = Some (Inr st') \<Longrightarrow> stop_state p st = stop_state p st'"
  by (subst stop_state.simps) simp

interpretation stop: run_result p "stop_state p" for p
  by unfold_locales (rule stop_state_next)

lemma linked_action: "linked starts loc (action_instr a) = fst (action_instr a)"
  by (simp add: action_instr_def)

context run_result
begin

lemma run_tables:
  assumes "list_all2 (\<lambda>t e. \<exists>s. e = table_instr t s) ts es"
    and "bytes_at (i_bytecode p) (off + loc) (linked_all starts loc es)"
    and "all_at (field_fits starts) loc es"
    and "\<And>t. t \<in> set ts \<Longrightarrow> table_wf t \<and> (\<forall>x \<in> set (jt_destinations t). off + starts ! x < 2 ^ 31)"
    and "length (i_bytecode p) < 2 ^ 31" and "url_at (i_url p) ui = Some c"
  shows "K (off + loc, ui, False, A) =
    (case tables_lookup ts c of
       Some x \<Rightarrow> K (off + starts ! x, u32 (ui + 1), c = 0, A)
     | None \<Rightarrow> K (off + (loc + csize es), ui, False, A))"
  using assms(1-4)
proof (induction ts es arbitrary: loc rule: list_all2_induct)
  case (Cons t ts e es)
  obtain s where e: "e = table_instr t s" using Cons.hyps by blast
  have B: "bytes_at (i_bytecode p) (off + loc) (linked starts loc e)"
    "bytes_at (i_bytecode p) (off + (loc + esize e)) (linked_all starts (loc + esize e) es)"
    using Cons.prems(1) by (simp_all add: bytes_at_append add.assoc del: linked.simps esize.simps)
  have F: "field_fits starts loc (table_instr t s)" "all_at (field_fits starts) (loc + esize e) es"
    using Cons.prems(2) e by auto
  have one: "interpret_step p (off + loc, ui, False, A) = Some (Inr
    (case jt_lookup t c of
       Some x \<Rightarrow> (off + starts ! x, u32 (ui + 1), c = 0, A)
     | None \<Rightarrow> (off + (loc + esize e), ui, False, A)))"
    unfolding e using Cons.prems(3) assms(5,6) by (intro step_table [OF B(1)[unfolded e] _ F(1)]) auto
  have IH: "K (off + (loc + esize e), ui, False, A) =
    (case tables_lookup ts c of
       Some x \<Rightarrow> K (off + starts ! x, u32 (ui + 1), c = 0, A)
     | None \<Rightarrow> K (off + (loc + esize e + csize es), ui, False, A))"
    by (rule Cons.IH [OF B(2) F(2)]) (use Cons.prems(3) in auto)
  show ?case
    using next_state [OF one] IH by (cases "jt_lookup t c") (simp_all add: add.assoc split: option.split)
qed simp

lemma run_ranges:
  assumes "list_all2 (\<lambda>r e. \<exists>s. e = range_instr r s) rs es"
    and "bytes_at (i_bytecode p) (off + loc) (linked_all starts loc es)"
    and "all_at (field_fits starts) loc es"
    and "\<And>r. r \<in> set rs \<Longrightarrow> range_wf r \<and> off + starts ! rg_destination r < 2 ^ 31"
    and "length (i_bytecode p) < 2 ^ 31" and "url_at (i_url p) ui = Some c"
  shows "K (off + loc, ui, False, A) =
    (case ranges_lookup rs c of
       Some x \<Rightarrow> K (off + starts ! x, u32 (ui + 1), c = 0, A)
     | None \<Rightarrow> K (off + (loc + csize es), ui, False, A))"
  using assms(1-4)
proof (induction rs es arbitrary: loc rule: list_all2_induct)
  case (Cons r rs e es)
  obtain s where e: "e = range_instr r s" using Cons.hyps by blast
  have B: "bytes_at (i_bytecode p) (off + loc) (linked starts loc e)"
    "bytes_at (i_bytecode p) (off + (loc + esize e)) (linked_all starts (loc + esize e) es)"
    using Cons.prems(1) by (simp_all add: bytes_at_append add.assoc del: linked.simps esize.simps)
  have F: "field_fits starts loc (range_instr r s)" "all_at (field_fits starts) (loc + esize e) es"
    using Cons.prems(2) e by auto
  have one: "interpret_step p (off + loc, ui, False, A) = Some (Inr
    (if rg_matches r c then (off + starts ! rg_destination r, u32 (ui + 1), c = 0, A)
     else (off + (loc + esize e), ui, False, A)))"
    unfolding e using Cons.prems(3) assms(5,6) by (intro step_range [OF B(1)[unfolded e] _ F(1)]) auto
  have IH: "K (off + (loc + esize e), ui, False, A) =
    (case ranges_lookup rs c of
       Some x \<Rightarrow> K (off + starts ! x, u32 (ui + 1), c = 0, A)
     | None \<Rightarrow> K (off + (loc + esize e + csize es), ui, False, A))"
    by (rule Cons.IH [OF B(2) F(2)]) (use Cons.prems(3) in auto)
  show ?case
    using next_state [OF one] IH by (cases "rg_matches r c") (simp_all add: add.assoc split: option.split)
qed simp

lemma run_actions:
  assumes "bytes_at (i_bytecode p) (off + loc) (linked_all starts loc (map action_instr as))"
    and "\<forall>a \<in> set as. action_wf a" and "length (i_bytecode p) < 2 ^ 31"
  shows "K (off + loc, ui, ae, A) =
    K (off + (loc + csize (map action_instr as)), ui, ae, A \<union> {a \<in> set as. selected p a})"
  using assms(1,2)
proof (induction as arbitrary: loc A)
  case (Cons a as)
  let ?e = "action_instr a"
  have B: "bytes_at (i_bytecode p) (off + loc) (fst ?e)"
    "bytes_at (i_bytecode p) (off + (loc + esize ?e)) (linked_all starts (loc + esize ?e) (map action_instr as))"
    using Cons.prems(1) unfolding list.map linked_all.simps bytes_at_append linked_action
    by (simp_all add: linked_action [of starts loc a, symmetric] add.assoc)
  have "K (off + loc, ui, ae, A) =
      K (off + (loc + esize ?e), ui, ae, if selected p a then insert a A else A)"
    using step_action [OF B(1)] Cons.prems(2) assms(3) by (intro next_state) (simp add: add.assoc)
  also have "\<dots> = K (off + (loc + esize ?e + csize (map action_instr as)), ui, ae,
      (if selected p a then insert a A else A) \<union> {a \<in> set as. selected p a})"
    by (rule Cons.IH [OF B(2)]) (use Cons.prems(2) in simp)
  also have "(if selected p a then insert a A else A) \<union> {a \<in> set as. selected p a} = A \<union> {x \<in> set (a # as). selected p x}"
    by auto
  finally show ?case by (simp add: add.assoc)
qed simp

end

section \<open>A loaded DFA\<close>

definition loaded ::
  "DFABytecodeInterpreter \<Rightarrow> DFA \<Rightarrow> nat \<Rightarrow> (nat \<Rightarrow> emitted list) \<Rightarrow> nat list \<Rightarrow> bool" where
  "loaded p d off tr starts \<longleftrightarrow>
     dfa_wf d \<and> dfa_actions_wf d \<and> final_layout d 4 tr starts \<and>
     all_at (field_fits starts) 4 (nodes_code d tr (live_order d)) \<and>
     bytes_at (i_bytecode p) (off + 4) (linked_all starts 4 (nodes_code d tr (live_order d))) \<and>
     length (i_bytecode p) < 2 ^ 31"

definition trans_start :: "DFA \<Rightarrow> nat list \<Rightarrow> nat \<Rightarrow> nat" where
  "trans_start d starts q = starts ! q + (if q = root d then 0 else csize (acts_code d q))"

lemma live_order_split:
  assumes "dfa_wf d" "live d q"
  obtains xs ys where "live_order d = xs @ q # ys"
proof -
  have "q \<in> set (live_order d)" using assms by (simp add: set_live_order)
  then show ?thesis using that by (auto simp: in_set_conv_decomp)
qed

lemma loaded_node:
  assumes L: "loaded p d off tr starts" and lq: "live d q"
  shows "trans_shape (node_transitions d (nodes d ! q)) (tr q)"
    and "bytes_at (i_bytecode p) (off + trans_start d starts q) (linked_all starts (trans_start d starts q) (tr q))"
    and "all_at (field_fits starts) (trans_start d starts q) (tr q)"
    and "q \<noteq> root d \<Longrightarrow> bytes_at (i_bytecode p) (off + starts ! q) (linked_all starts (starts ! q) (acts_code d q))"
    and "q = root d \<Longrightarrow> starts ! q = 4 + csize (acts_code d q) \<and>
      bytes_at (i_bytecode p) (off + 4) (linked_all starts 4 (acts_code d q))"
    and "off + starts ! q < 2 ^ 31"
proof -
  have wf: "dfa_wf d" and lay: "final_layout d 4 tr starts" and sz: "length (i_bytecode p) < 2 ^ 31"
    using L by (auto simp: loaded_def)
  obtain xs ys where ord: "live_order d = xs @ q # ys" using live_order_split [OF wf lq] .
  note D = final_layoutD [OF lay ord]
  show "trans_shape (node_transitions d (nodes d ! q)) (tr q)" by (rule D(2))
  let ?l = "4 + csize (nodes_code d tr xs)"
  have ts: "trans_start d starts q = ?l + csize (acts_code d q)"
    using D(1) by (simp add: trans_start_def node_start_def)
  have B: "bytes_at (i_bytecode p) (off + ?l) (linked_all starts ?l (acts_code d q))"
    "bytes_at (i_bytecode p) (off + (?l + csize (acts_code d q))) (linked_all starts (?l + csize (acts_code d q)) (tr q))"
    "all_at (field_fits starts) (?l + csize (acts_code d q)) (tr q)"
    using L by (simp_all add: loaded_def ord linked_all_append bytes_at_append add.assoc)
  show "bytes_at (i_bytecode p) (off + trans_start d starts q) (linked_all starts (trans_start d starts q) (tr q))"
    "all_at (field_fits starts) (trans_start d starts q) (tr q)"
    unfolding ts by (rule B)+
  show "bytes_at (i_bytecode p) (off + starts ! q) (linked_all starts (starts ! q) (acts_code d q))" if "q \<noteq> root d"
    using B(1) D(1) that by (simp add: node_start_def)
  show "starts ! q = 4 + csize (acts_code d q) \<and>
      bytes_at (i_bytecode p) (off + 4) (linked_all starts 4 (acts_code d q))" if "q = root d"
  proof -
    have "hd (live_order d) = root d" by (simp add: live_order_root [OF wf])
    moreover have "distinct (xs @ q # ys)" using distinct_live_order [of d] ord by simp
    ultimately have "xs = []" using that ord by (cases xs) auto
    then show ?thesis using B(1) D(1) that by (simp add: node_start_def)
  qed
  show "off + starts ! q < 2 ^ 31"
    using bytes_at_bound [OF B(2)] sz D(1) by (cases "q = root d") (simp_all add: node_start_def)
qed

lemma node_actions_wf:
  assumes "dfa_wf d" "dfa_actions_wf d" "live d q" "a \<in> set (node_actions d (nodes d ! q))"
  shows "action_wf a"
proof -
  have "node_wf d (nodes d ! q)" using assms by (intro dfa_wf_node)
  then have "a \<in> set (actions d)" using assms(4) by (auto simp: node_wf_def node_actions_def)
  then show ?thesis using assms(2) by (simp add: dfa_actions_wf_def list_all_iff)
qed

context run_result
begin

lemma enter_node:
  assumes L: "loaded p d off tr starts" and lq: "live d q"
  shows "K (off + starts ! q, ui, ae, A) =
    K (off + trans_start d starts q, ui, ae, A \<union> entry_actions p d q)"
proof (cases "q = root d")
  case True
  then show ?thesis by (simp add: trans_start_def entry_actions_def)
next
  case False
  have "K (off + starts ! q, ui, ae, A) =
    K (off + (starts ! q + csize (acts_code d q)), ui, ae,
      A \<union> {a \<in> set (node_actions d (nodes d ! q)). selected p a})"
    unfolding acts_code_def
    by (rule run_actions)
      (use L lq loaded_node(4) [OF L lq False] node_actions_wf [of d q] in \<open>auto simp: acts_code_def loaded_def\<close>)
  then show ?thesis using False by (simp add: trans_start_def entry_actions_def sel_actions_def actions_at_def)
qed

lemma run_root_actions:
  assumes L: "loaded p d off tr starts"
  shows "K (off + 4, ui, ae, A) =
    K (off + trans_start d starts (root d), ui, ae, A \<union> sel_actions p d (root d))"
proof -
  have lr: "live d (root d)" using L by (simp add: loaded_def dfa_wf_def)
  have "K (off + 4, ui, ae, A) =
    K (off + (4 + csize (acts_code d (root d))), ui, ae,
      A \<union> {a \<in> set (node_actions d (nodes d ! root d)). selected p a})"
    unfolding acts_code_def
    by (rule run_actions)
      (use L lr loaded_node(5) [OF L lr] node_actions_wf [of d "root d"] in \<open>auto simp: acts_code_def loaded_def\<close>)
  then show ?thesis using loaded_node(5) [OF L lr]
    by (simp add: trans_start_def sel_actions_def actions_at_def add.assoc)
qed

lemma run_node_next:
  assumes L: "loaded p d off tr starts" and lq: "live d q"
    and c: "url_at (i_url p) ui = Some c" "0 \<le> c" "c \<le> 127"
  shows "case code_delta d q c of
      None \<Rightarrow> \<exists>st. K (off + trans_start d starts q, ui, False, A) = K st \<and> interpret_step p st = Some (Inl A)
    | Some x \<Rightarrow> K (off + trans_start d starts q, ui, False, A) = K (off + starts ! x, u32 (ui + 1), c = 0, A)"
proof -
  let ?T = "node_transitions d (nodes d ! q)" and ?l = "trans_start d starts q"
  have wf: "node_wf d (nodes d ! q)" "length (nodes d) < u32_max" and sz: "length (i_bytecode p) < 2 ^ 31"
    using L lq dfa_wf_node by (auto simp: loaded_def dfa_wf_def)
  note N = loaded_node [OF L lq] and W = node_transitions_wf [OF wf]
  obtain ts rs e where es: "tr q = ts @ rs @ [e]"
    and ts: "list_all2 (\<lambda>t e. \<exists>s. e = table_instr t s) (jumpTables ?T) ts"
    and rs: "list_all2 (\<lambda>r e. \<exists>s. e = range_instr r s) (ranges ?T) rs"
    and e: "if useFallbackTransition ?T then \<exists>s. e = jump_instr (fallbackTransitionTarget ?T) s else e = terminate_instr"
    using N(1) by (auto simp: trans_shape_def)
  have bound: "off + starts ! x < 2 ^ 31" if "live d x" for x by (rule loaded_node(6) [OF L that])
  let ?l1 = "?l + csize ts" let ?l2 = "?l1 + csize rs"
  have B: "bytes_at (i_bytecode p) (off + ?l) (linked_all starts ?l ts)"
    "bytes_at (i_bytecode p) (off + ?l1) (linked_all starts ?l1 rs)"
    "bytes_at (i_bytecode p) (off + ?l2) (linked starts ?l2 e)"
    using N(2) by (simp_all add: es linked_all_append bytes_at_append add.assoc)
  have F: "all_at (field_fits starts) ?l ts" "all_at (field_fits starts) ?l1 rs" "field_fits starts ?l2 e"
    using N(3) by (simp_all add: es)
  have tab: "K (off + ?l, ui, False, A) =
    (case tables_lookup (jumpTables ?T) c of
       Some x \<Rightarrow> K (off + starts ! x, u32 (ui + 1), c = 0, A)
     | None \<Rightarrow> K (off + ?l1, ui, False, A))"
    by (rule run_tables [OF ts B(1) F(1) _ sz c(1)]) (use W(2) bound in blast)
  have rng: "K (off + ?l1, ui, False, A) =
    (case ranges_lookup (ranges ?T) c of
       Some x \<Rightarrow> K (off + starts ! x, u32 (ui + 1), c = 0, A)
     | None \<Rightarrow> K (off + ?l2, ui, False, A))"
    by (rule run_ranges [OF rs B(2) F(2) _ sz c(1)]) (use W(1) bound in blast)
  have ex: "explicit_lookup ?T c = explicit_target d (nodes d ! q) c" by (rule node_transitions_lookup [OF wf c(2,3)])
  have run: "K (off + ?l, ui, False, A) =
    (case explicit_target d (nodes d ! q) c of
       Some x \<Rightarrow> K (off + starts ! x, u32 (ui + 1), c = 0, A)
     | None \<Rightarrow> K (off + ?l2, ui, False, A))"
    using tab rng unfolding ex [symmetric] explicit_lookup_def by (simp split: option.split)
  show ?thesis
  proof (cases "explicit_target d (nodes d ! q) c")
    case (Some x)
    then have "code_delta d q c = Some x"
      by (auto simp: code_delta_def explicit_target_def delta_def split: option.splits if_splits)
    then show ?thesis using run Some by simp
  next
    case None
    show ?thesis
    proof (cases "useFallbackTransition ?T")
      case True
      then obtain s where s: "e = jump_instr (fallbackTransitionTarget ?T) s" using e by auto
      let ?f = "fallbackTransitionTarget ?T"
      have st: "interpret_step p (off + ?l2, ui, False, A) =
          Some (if c = 0 \<or> False then Inl A else Inr (off + starts ! ?f, u32 (ui + 1), False, A))"
        using step_jump [OF B(3) [unfolded s] F(3) [unfolded s] sz bound [OF W(5) [OF True]], of ui False A] c(1) by simp
      have "delta d q c = Some ?f" if "c \<noteq> 0"
        using canUseFallbackTransition_covers [of d "nodes d ! q" c] W(3,4) True that c None
        by (auto simp: explicit_target_def delta_def split: if_splits)
      then show ?thesis using run st next_state None by (cases "c = 0") (auto simp: code_delta_def)
    next
      case False
      then have "e = terminate_instr" using e by simp
      then have "interpret_step p (off + ?l2, ui, False, A) = Some (Inl A)"
        using B(3) by (intro step_terminate) (simp add: terminate_instr_def)
      moreover have "code_delta d q c = None"
        using None False W(3) by (auto simp: code_delta_def explicit_target_def delta_def split: option.splits)
      ultimately show ?thesis using run None by auto
    qed
  qed
qed

end

lemma run_node:
  assumes "loaded p d off tr starts" "live d q" "url_at (i_url p) ui = Some c" "0 \<le> c" "c \<le> 127"
  shows "interpret_dfa p (off + trans_start d starts q, ui, False, A) =
    (case code_delta d q c of
       None \<Rightarrow> Some A
     | Some x \<Rightarrow> interpret_dfa p (off + starts ! x, u32 (ui + 1), c = 0, A))"
  using loop.run_node_next [OF assms, of A] loop_Inl by (auto split: option.splits)

lemma eol_safeD:
  "eol_safe d \<Longrightarrow> live d q \<Longrightarrow> explicit_target d (nodes d ! q) 0 = Some t \<Longrightarrow> \<not> pure_fallback d (nodes d ! t)"
  by (auto simp: eol_safe_def list_all_iff live_def)

lemma explicit_entries:
  assumes "node_wf d n" "length (nodes d) < u32_max" "c \<in> {0..127}" "explicit_target d n c \<noteq> None"
  shows "jumpTables (node_transitions d n) \<noteq> [] \<or> ranges (node_transitions d n) \<noteq> []"
  using node_transitions_lookup [OF assms(1,2), of c] assms(3,4) by (auto simp: explicit_lookup_def)

text \<open>Behind the end of the string every node stops, unless it is a bare fallback jump.\<close>

lemma run_node_after_end:
  assumes L: "loaded p d off tr starts" and lq: "live d q" and np: "\<not> pure_fallback d (nodes d ! q)"
  shows "interpret_dfa p (off + trans_start d starts q, ui, True, A) = Some A"
proof -
  let ?T = "node_transitions d (nodes d ! q)" and ?l = "trans_start d starts q"
  have wf: "node_wf d (nodes d ! q)" "length (nodes d) < u32_max"
    using L lq dfa_wf_node by (auto simp: loaded_def dfa_wf_def)
  note N = loaded_node [OF L lq] and W = node_transitions_wf [OF wf]
  obtain ts rs e where es: "tr q = ts @ rs @ [e]"
    and ts: "list_all2 (\<lambda>t e. \<exists>s. e = table_instr t s) (jumpTables ?T) ts"
    and rs: "list_all2 (\<lambda>r e. \<exists>s. e = range_instr r s) (ranges ?T) rs"
    and e: "if useFallbackTransition ?T then \<exists>s. e = jump_instr (fallbackTransitionTarget ?T) s else e = terminate_instr"
    using N(1) by (auto simp: trans_shape_def)
  show ?thesis
  proof (cases "ts @ rs")
    case Nil
    then have "jumpTables ?T = []" "ranges ?T = []" using ts rs by auto
    then have "explicit_target d (nodes d ! q) c = None" if "c \<in> {0..127}" for c
      using explicit_entries [OF wf that] by (cases "explicit_target d (nodes d ! q) c") auto
    then have "\<not> canUseFallbackTransition d (nodes d ! q)"
      using np by (auto simp: pure_fallback_def list_all_iff)
    then have "e = terminate_instr" using e W(3) by simp
    then have "interpret_step p (off + ?l, ui, True, A) = Some (Inl A)"
      using N(2) es Nil by (intro step_terminate) (simp add: terminate_instr_def)
    then show ?thesis by (rule loop_Inl)
  next
    case (Cons e' es')
    then have "e' \<in> set ts \<or> e' \<in> set rs" by (metis Un_iff list.set_intros(1) set_append)
    then obtain t r s where e': "e' = table_instr t s \<or> e' = range_instr r s"
      using list_all2_mem2 [OF ts] list_all2_mem2 [OF rs] by blast
    have "tr q = e' # es' @ [e]" using es Cons by simp
    then have "bytes_at (i_bytecode p) (off + ?l) (linked starts ?l e')"
      using N(2) by (simp add: bytes_at_append)
    then show ?thesis using step_after_end [OF _ e'] by (intro loop_Inl)
  qed
qed

section \<open>The run over a URL\<close>

definition url_wf :: "cchar list \<Rightarrow> bool" where
  "url_wf url \<longleftrightarrow> list_all (\<lambda>c. 1 \<le> c \<and> c \<le> 127) url \<and> length url + 1 < 2 ^ 32"

lemma explicit_target_delta: "explicit_target d (nodes d ! q) c = Some x \<Longrightarrow> delta d q c = Some x"
  by (auto simp: explicit_target_def delta_def split: option.splits if_splits)

lemma code_delta_delta: "code_delta d q c = Some x \<Longrightarrow> delta d q c = Some x"
  by (cases "c = 0") (simp_all add: code_delta_def explicit_target_delta)

lemma code_delta_live: "dfa_wf d \<Longrightarrow> live d q \<Longrightarrow> code_delta d q c = Some x \<Longrightarrow> live d x"
  by (rule delta_live [OF _ _ code_delta_delta])

lemma run_url:
  assumes L: "loaded p d off tr starts" and safe: "eol_safe d" and url: "url_wf (i_url p)"
  shows "live d q \<Longrightarrow> i_url p = pre @ rest \<Longrightarrow>
    interpret_dfa p (off + trans_start d starts q, length pre, False, A) =
      Some (A \<union> (\<Union>x \<in> set (tl (code_visits d q (rest @ [0]))). entry_actions p d x))"
proof (induction rest arbitrary: q pre A)
  case Nil
  have c: "url_at (i_url p) (length pre) = Some 0" using Nil by (simp add: url_at_def)
  note R = run_node [OF L Nil.prems(1) c]
  show ?case
  proof (cases "code_delta d q 0")
    case None
    then show ?thesis using R by simp
  next
    case (Some x)
    have lx: "live d x" using Some L Nil.prems(1) code_delta_live by (auto simp: loaded_def)
    have np: "\<not> pure_fallback d (nodes d ! x)"
      using eol_safeD [OF safe Nil.prems(1)] Some by (simp add: code_delta_def)
    show ?thesis using R Some loop.enter_node [OF L lx] run_node_after_end [OF L lx np] by simp
  qed
next
  case (Cons c rest)
  have c: "url_at (i_url p) (length pre) = Some c" using Cons.prems by (simp add: url_at_def)
  have cb: "1 \<le> c" "c \<le> 127" using url Cons.prems(2) by (auto simp: url_wf_def)
  have u: "u32 (length pre + 1) = length (pre @ [c])"
    using url Cons.prems(2) by (subst u32_id) (auto simp: url_wf_def)
  note R = run_node [OF L Cons.prems(1) c]
  show ?case
  proof (cases "code_delta d q c")
    case None
    then show ?thesis using R cb by simp
  next
    case (Some x)
    have lx: "live d x" using Some L Cons.prems(1) code_delta_live by (auto simp: loaded_def)
    have tl: "set (code_visits d x cs) = insert x (set (tl (code_visits d x cs)))" for cs
      by (cases cs) auto
    have "interpret_dfa p (off + trans_start d starts q, length pre, False, A) =
        interpret_dfa p (off + trans_start d starts x, length (pre @ [c]), False, A \<union> entry_actions p d x)"
      using R cb Some u loop.enter_node [OF L lx] by simp
    also have "\<dots> = Some (A \<union> entry_actions p d x \<union> (\<Union>y \<in> set (tl (code_visits d x (rest @ [0]))). entry_actions p d y))"
      by (rule Cons.IH [OF lx]) (simp add: Cons.prems(2))
    finally show ?thesis using Some tl [of "rest @ [0]"] by (simp add: Un_assoc)
  qed
qed

section \<open>Loading the compiled bytecode\<close>

lemma trans_shape_nonempty: "trans_shape T es \<Longrightarrow> es \<noteq> []"
  by (auto simp: trans_shape_def)

lemma trans_shape_mem:
  assumes "trans_shape T es" "e \<in> set es"
  shows "(\<exists>t s. e = table_instr t s) \<or> (\<exists>r s. e = range_instr r s) \<or> (\<exists>x s. e = jump_instr x s) \<or> e = terminate_instr"
proof -
  obtain ts rs e0 where es: "es = ts @ rs @ [e0]"
    and ts: "list_all2 (\<lambda>t e. \<exists>s. e = table_instr t s) (jumpTables T) ts"
    and rs: "list_all2 (\<lambda>r e. \<exists>s. e = range_instr r s) (ranges T) rs"
    and e0: "if useFallbackTransition T then \<exists>s. e0 = jump_instr (fallbackTransitionTarget T) s else e0 = terminate_instr"
    using assms(1) unfolding trans_shape_def by blast
  have e0': "(\<exists>x s. e0 = jump_instr x s) \<or> e0 = terminate_instr" using e0 by (cases "useFallbackTransition T") auto
  consider "e \<in> set ts" | "e \<in> set rs" | "e = e0" using assms(2) es by auto
  then show ?thesis using list_all2_mem2 [OF ts] list_all2_mem2 [OF rs] e0' by cases blast+
qed

lemma trans_instr_byte:
  assumes "(\<exists>t s. e = table_instr t s) \<or> (\<exists>r s. e = range_instr r s) \<or> (\<exists>x s. e = jump_instr x s) \<or> e = terminate_instr"
  shows "\<exists>b h op. fst e = b # h \<and> instruction_of_byte b = Some op \<and>
    op \<notin> {AppendAction, AppendActionWithIfDomain, TestFlagsAndAppendAction, TestFlagsAndAppendActionWithIfDomain}"
  using assms
proof (elim disjE exE)
  fix t s assume "e = table_instr t s"
  then show ?thesis by (cases "jt_caseSensitive t") (auto simp: table_instr_def simp del: opcode.simps)
next
  fix r s assume "e = range_instr r s"
  then show ?thesis by (cases "rg_min r = rg_max r"; cases "rg_caseSensitive r")
    (auto simp: range_instr_def simp del: opcode.simps)
qed (auto simp: jump_instr_def terminate_instr_def simp del: opcode.simps)

lemma first_instr_not_action:
  assumes "trans_shape T es" "bytes_at bc pc (linked_all starts loc es)"
  shows "\<exists>b op. getByte bc pc = Some b \<and> instruction_of_byte b = Some op \<and>
    op \<notin> {AppendAction, AppendActionWithIfDomain, TestFlagsAndAppendAction, TestFlagsAndAppendActionWithIfDomain}"
proof -
  obtain e es' where es: "es = e # es'" using trans_shape_nonempty [OF assms(1)] by (cases es) auto
  then obtain b h op where "fst e = b # h" and b: "instruction_of_byte b = Some op"
      "op \<notin> {AppendAction, AppendActionWithIfDomain, TestFlagsAndAppendAction, TestFlagsAndAppendActionWithIfDomain}"
    using trans_instr_byte [OF trans_shape_mem [OF assms(1)], of e] by auto
  moreover obtain ds s where "e = (fst e, ds, s)" by (cases e) auto
  ultimately have "bytes_at bc pc [b]"
    using assms(2) es bytes_at_append by (metis append_Cons append_Nil linked.simps linked_all.simps(2))
  then show ?thesis using getByte_at b by blast
qed

lemma compile_loaded:
  assumes wf: "dfa_wf d" and aw: "dfa_actions_wf d" and sz: "max_bytecode_size d < 2 ^ 30"
  shows "\<exists>blob tr starts. compile d [] = Some blob \<and> length blob \<le> max_bytecode_size d \<and> trans_start d starts (root d) < length blob \<and>
    (\<forall>p X Y. i_bytecode p = X @ blob @ Y \<longrightarrow> length (i_bytecode p) < 2 ^ 31 \<longrightarrow>
       loaded p d (length X) tr starts \<and> getBits 4 (i_bytecode p) (length X) = Some (int (length blob)))"
proof -
  obtain tr starts where lay: "final_layout d 4 tr starts"
    and fit: "all_at (field_fits starts) 4 (nodes_code d tr (live_order d))"
    and cs: "csize (nodes_code d tr (live_order d)) + 4 \<le> max_bytecode_size d"
    and cmp: "compile d [] = Some ([] @ encode_le 4 (int (4 + csize (nodes_code d tr (live_order d))))
       @ linked_all starts 4 (nodes_code d tr (live_order d)))"
    using compile_layout [OF wf, of "[]"] sz by auto
  let ?code = "nodes_code d tr (live_order d)"
  define blob where "blob = encode_le 4 (int (4 + csize ?code)) @ linked_all starts 4 ?code"
  have len: "length blob = 4 + csize ?code" by (simp add: blob_def)
  have lr: "live d (root d)" using wf by (simp add: dfa_wf_def)
  obtain ys where ord: "live_order d = [] @ root d # ys" using live_order_root [OF wf] by auto
  note D = final_layoutD [OF lay ord]
  have "0 < csize (tr (root d))"
  proof -
    obtain e es where e: "tr (root d) = e # es" using trans_shape_nonempty [OF D(2)] by (cases "tr (root d)") auto
    then obtain b h where "fst e = b # h"
      using trans_instr_byte [OF trans_shape_mem [OF D(2)], of e] by auto
    then show ?thesis using e by (cases e) simp
  qed
  then have ts: "trans_start d starts (root d) < length blob"
    using D(1) ord by (simp add: trans_start_def node_start_def len)
  have "loaded p d (length X) tr starts \<and> getBits 4 (i_bytecode p) (length X) = Some (int (length blob))"
    if bc: "i_bytecode p = X @ blob @ Y" and lt: "length (i_bytecode p) < 2 ^ 31" for p X Y
  proof
    have b: "bytes_at (i_bytecode p) (length X) blob" unfolding bc by (rule bytes_at_mid) simp
    then have B: "bytes_at (i_bytecode p) (length X) (encode_le 4 (int (4 + csize ?code)))"
      "bytes_at (i_bytecode p) (length X + 4) (linked_all starts 4 ?code)"
      by (simp_all add: blob_def bytes_at_append)
    show "loaded p d (length X) tr starts" using wf aw lay fit B(2) lt by (simp add: loaded_def)
    have "int (4 + csize ?code) < 256 ^ 4" using cs sz by simp
    then show "getBits 4 (i_bytecode p) (length X) = Some (int (length blob))"
      using getBits_at [OF B(1)] by (simp add: len)
  qed
  then show ?thesis using cmp cs ts len by (intro exI [of _ blob] exI [of _ tr] exI [of _ starts]) (auto simp: blob_def)
qed

section \<open>The actions of the first root\<close>

lemma skip_actions:
  assumes "bytes_at (i_bytecode p) loc (linked_all starts loc (map action_instr as))"
    and "\<forall>a \<in> set as. action_wf a" and "length (i_bytecode p) < 2 ^ 31"
    and nx: "getByte (i_bytecode p) (loc + csize (map action_instr as)) = Some b" "instruction_of_byte b = Some op"
      "op \<notin> {AppendAction, AppendActionWithIfDomain, TestFlagsAndAppendAction, TestFlagsAndAppendActionWithIfDomain}"
    and "loc + csize (map action_instr as) < len"
  shows "skip_universal_actions p len loc A =
      Some (loc + csize (map action_instr as), A \<union> {a \<in> set as. has_flags a \<and> selected p a})"
    and "matching_everything_loop p len loc A = Some (A \<union> {a \<in> set as. \<not> has_flags a \<and> selected p a})"
proof -
  have "skip_universal_actions p len loc A =
      Some (loc + csize (map action_instr as), A \<union> {a \<in> set as. has_flags a \<and> selected p a})
    \<and> matching_everything_loop p len loc A = Some (A \<union> {a \<in> set as. \<not> has_flags a \<and> selected p a})"
    using assms(1,2) nx(1) assms(7)
  proof (induction as arbitrary: loc A)
    case Nil
    then have "getInstruction (i_bytecode p) loc = Some (Some op)" using nx by (simp add: getInstruction_def)
    then show ?case using Nil nx(3)
      by (subst skip_universal_actions.simps, subst matching_everything_loop.simps) simp
  next
    case (Cons a as)
    let ?e = "action_instr a"
    have B: "bytes_at (i_bytecode p) loc (fst ?e)"
      "bytes_at (i_bytecode p) (loc + esize ?e) (linked_all starts (loc + esize ?e) (map action_instr as))"
      using Cons.prems(1) unfolding list.map linked_all.simps bytes_at_append linked_action
      by (simp_all add: linked_action [of starts loc a, symmetric] add.assoc)
    have bnd: "loc + esize ?e \<le> length (i_bytecode p)" using bytes_at_bound [OF B(2)] by simp
    have lt: "loc < len" using Cons.prems by simp
    have IH: "skip_universal_actions p len (loc + esize ?e) A' =
        Some (loc + esize ?e + csize (map action_instr as), A' \<union> {a \<in> set as. has_flags a \<and> selected p a})
      \<and> matching_everything_loop p len (loc + esize ?e) A' = Some (A' \<union> {a \<in> set as. \<not> has_flags a \<and> selected p a})" for A'
      using Cons.prems by (intro Cons.IH [OF B(2)]) (simp_all add: add.assoc)
    have u: "u32 (loc + esize ?e) = loc + esize ?e" using bnd assms(3) by (intro u32_id) simp
    have un: "{x \<in> set (a # as). P x} = (if P a then {a} else {}) \<union> {x \<in> set as. P x}" for P by auto
    show ?case
    proof (cases "has_flags a")
      case True
      let ?op = "if bit a 48 then TestFlagsAndAppendActionWithIfDomain else TestFlagsAndAppendAction"
      have I: "getInstruction (i_bytecode p) loc = Some (Some ?op)"
        using action_byte [OF B(1)] True by (simp add: getInstruction_def)
      have "interpretTestFlagsAndAppendAction p loc A (bit a 48) = Some (loc + esize ?e, if selected p a then insert a A else A)"
        using interpretTestFlags_at [OF B(1) _ True assms(3)] Cons.prems(2) True by (simp add: appendActionBytecodeSize_eq)
      then show ?thesis using lt I True IH u unfolding un
        by (subst skip_universal_actions.simps, subst matching_everything_loop.simps)
          (cases "bit a 48"; simp add: appendActionBytecodeSize_eq add.assoc)
    next
      case False
      let ?op = "if bit a 48 then AppendActionWithIfDomain else AppendAction"
      have I: "getInstruction (i_bytecode p) loc = Some (Some ?op)"
        using action_byte [OF B(1)] False by (simp add: getInstruction_def)
      have "interpretAppendAction p loc A (bit a 48) = Some (loc + esize ?e, if selected p a then insert a A else A)"
        using interpretAppendAction_at [OF B(1) _ False assms(3)] Cons.prems(2) False by (simp add: appendActionBytecodeSize_eq)
      then show ?thesis using lt I False IH u unfolding un
        by (subst skip_universal_actions.simps, subst matching_everything_loop.simps)
          (cases "bit a 48"; simp add: appendActionBytecodeSize_eq add.assoc)
    qed
  qed
  then show "skip_universal_actions p len loc A =
      Some (loc + csize (map action_instr as), A \<union> {a \<in> set as. has_flags a \<and> selected p a})"
    "matching_everything_loop p len loc A = Some (A \<union> {a \<in> set as. \<not> has_flags a \<and> selected p a})" by auto
qed

section \<open>A sequence of DFAs\<close>

text \<open>\<open>compileRuleList\<close> compiles every DFA into its own vector and the client stores them one after
  the other.\<close>

fun compile_all :: "DFA list \<Rightarrow> u8 list option" where
  "compile_all [] = Some []"
| "compile_all (d # ds) = do { b \<leftarrow> compile d []; bs \<leftarrow> compile_all ds; Some (b @ bs) }"

definition dfa_ok :: "DFA \<Rightarrow> bool" where
  "dfa_ok d \<longleftrightarrow> dfa_wf d \<and> dfa_actions_wf d \<and> eol_safe d"

definition code_matches :: "DFA \<Rightarrow> cchar list \<Rightarrow> u64 set" where
  "code_matches d cs = (\<Union>q \<in> set (code_visits d (root d) cs). actions_at d q)"

text \<open>What the first DFA contributes: the actions without flags of its root are left out.\<close>

definition first_matches :: "DFA \<Rightarrow> cchar list \<Rightarrow> u64 set" where
  "first_matches d cs = {a \<in> actions_at d (root d). has_flags a} \<union>
     (\<Union>q \<in> set (code_visits d (root d) cs) - {root d}. actions_at d q)"

definition universal_actions :: "DFA \<Rightarrow> u64 set" where
  "universal_actions d = {a \<in> actions_at d (root d). \<not> has_flags a}"

lemma max_bytecode_size_bound: "dfa_wf d \<Longrightarrow> max_bytecode_size d \<le> dfa_size_bound d"
proof -
  assume wf: "dfa_wf d"
  have "sum_list (map (compiledNodeMaxBytecodeSize d) [0 ..< length (nodes d)]) \<le>
      sum_list (map (\<lambda>q. node_size_bound (nodes d ! q)) [0 ..< length (nodes d)])"
    using compiledNodeMax_bound [OF wf] by (intro sum_list_mono) simp
  also have "map (\<lambda>q. node_size_bound (nodes d ! q)) [0 ..< length (nodes d)] = map node_size_bound (nodes d)"
    by (rule nth_equalityI) simp_all
  finally show ?thesis by (simp add: max_bytecode_size_def dfa_size_bound_def)
qed

lemma code_visits_hd: "set (code_visits d q cs) = insert q (set (tl (code_visits d q cs)))"
  by (cases cs) auto

lemma tail_actions:
  "(\<Union>x \<in> set (tl (code_visits d (root d) cs)). entry_actions p d x) =
   {a \<in> (\<Union>q \<in> set (code_visits d (root d) cs) - {root d}. actions_at d q). selected p a}"
  by (subst code_visits_hd) (auto simp: entry_actions_def sel_actions_def)

lemma run_dfa:
  assumes L: "loaded p d off tr starts" and ok: "dfa_ok d" and url: "url_wf (i_url p)"
  shows "interpret_dfa p (off + 4, 0, False, A) = Some (A \<union> {a \<in> code_matches d (i_url p @ [0]). selected p a})"
proof -
  have lr: "live d (root d)" using L by (simp add: loaded_def dfa_wf_def)
  have "interpret_dfa p (off + 4, 0, False, A) = Some (A \<union> (sel_actions p d (root d) \<union>
      (\<Union>x \<in> set (tl (code_visits d (root d) (i_url p @ [0]))). entry_actions p d x)))"
    using loop.run_root_actions [OF L] run_url [OF L _ url lr, of "[]"] ok by (simp add: dfa_ok_def Un_assoc)
  also have "sel_actions p d (root d) \<union> (\<Union>x \<in> set (tl (code_visits d (root d) (i_url p @ [0]))). entry_actions p d x)
      = {a \<in> code_matches d (i_url p @ [0]). selected p a}"
    unfolding tail_actions code_matches_def using code_visits_hd [of d "root d"] by (auto simp: sel_actions_def)
  finally show ?thesis .
qed

lemma loop_rest:
  assumes url: "url_wf (i_url p)"
  shows "\<forall>d \<in> set ds. dfa_ok d \<and> dfa_size_bound d < 2 ^ 30 \<Longrightarrow> compile_all ds = Some bs \<Longrightarrow>
    i_bytecode p = X @ bs \<Longrightarrow> X \<noteq> [] \<Longrightarrow> length (i_bytecode p) < 2 ^ 31 \<Longrightarrow>
    interpret_loop p (length X) A =
      Some (A \<union> {a \<in> (\<Union>d \<in> set ds. code_matches d (i_url p @ [0])). selected p a})"
proof (induction ds arbitrary: X A bs)
  case Nil
  then show ?case by (subst interpret_loop.simps) simp
next
  case (Cons d ds)
  have ok: "dfa_ok d" and sz: "max_bytecode_size d < 2 ^ 30"
    using Cons.prems(1) max_bytecode_size_bound [of d] by (auto simp: dfa_ok_def)
  obtain blob tr starts where cmp: "compile d [] = Some blob"
    and ts: "trans_start d starts (root d) < length blob"
    and ld: "\<And>p X Y. i_bytecode p = X @ blob @ Y \<Longrightarrow> length (i_bytecode p) < 2 ^ 31 \<Longrightarrow>
       loaded p d (length X) tr starts \<and> getBits 4 (i_bytecode p) (length X) = Some (int (length blob))"
    using compile_loaded [OF _ _ sz] ok unfolding dfa_ok_def by blast
  obtain bs' where bs: "compile_all ds = Some bs'" "bs = blob @ bs'"
    using Cons.prems(2) cmp by (cases "compile_all ds") auto
  have L: "loaded p d (length X) tr starts" and G: "getBits 4 (i_bytecode p) (length X) = Some (int (length blob))"
    using ld [of p X bs'] Cons.prems(3,5) bs by auto
  have "0 < length blob" using ts by linarith
  then have lt: "length X < length (i_bytecode p)" using Cons.prems(3) bs by simp
  have u: "u32 (length X + 4) = length X + 4" using lt Cons.prems(5) by (intro u32_id) simp
  have u': "u32 (length X + length blob) = length (X @ blob)"
    using Cons.prems(3,5) bs by (subst u32_id) simp_all
  have IH: "interpret_loop p (length (X @ blob)) A' =
      Some (A' \<union> {a \<in> (\<Union>d \<in> set ds. code_matches d (i_url p @ [0])). selected p a})" for A'
    by (rule Cons.IH [OF _ bs(1)]) (use Cons.prems bs in auto)
  have "interpret_loop p (length X) A = interpret_loop p (length (X @ blob))
      (A \<union> {a \<in> code_matches d (i_url p @ [0]). selected p a})"
    using lt G u u' Cons.prems(4) run_dfa [OF L ok url] by (subst interpret_loop.simps) simp
  then show ?case unfolding IH by auto
qed

lemma compile_all_ok:
  "\<forall>d \<in> set ds. dfa_ok d \<Longrightarrow> sum_list (map dfa_size_bound ds) < 2 ^ 30 \<Longrightarrow>
   \<exists>bs. compile_all ds = Some bs \<and> length bs \<le> sum_list (map dfa_size_bound ds)"
proof (induction ds)
  case (Cons d ds)
  obtain bs where bs: "compile_all ds = Some bs" "length bs \<le> sum_list (map dfa_size_bound ds)"
    using Cons.IH Cons.prems by auto
  have wf: "dfa_wf d" "dfa_actions_wf d" using Cons.prems(1) by (auto simp: dfa_ok_def)
  have le: "max_bytecode_size d \<le> dfa_size_bound d" by (rule max_bytecode_size_bound [OF wf(1)])
  moreover have "dfa_size_bound d < 2 ^ 30" using Cons.prems(2) by simp
  ultimately have sz: "max_bytecode_size d < 2 ^ 30" by (rule le_less_trans)
  obtain blob where "compile d [] = Some blob" "length blob \<le> max_bytecode_size d"
    using compile_loaded [OF wf sz] by blast
  then show ?case using bs le by simp
qed simp

lemma loop_first_step:
  assumes wf: "dfa_wf d" "dfa_actions_wf d" and sz: "max_bytecode_size d < 2 ^ 30"
    and cmp: "compile_all (d # ds) = Some (i_bytecode p)" and len: "length (i_bytecode p) < 2 ^ 31"
  obtains blob bs tr starts where "compile_all ds = Some bs" "i_bytecode p = blob @ bs" "blob \<noteq> []"
    "loaded p d 0 tr starts"
    "skip_universal_actions p (length blob) 4 {} =
       Some (trans_start d starts (root d), {a \<in> actions_at d (root d). has_flags a \<and> selected p a})"
    "interpret_loop p 0 {} = Option.bind (interpret_dfa p (trans_start d starts (root d), 0, False,
       {a \<in> actions_at d (root d). has_flags a \<and> selected p a})) (interpret_loop p (length blob))"
    "actionsMatchingEverything p = Some {a \<in> universal_actions d. selected p a}"
proof -
  obtain blob tr starts where cb: "compile d [] = Some blob"
    and ts: "trans_start d starts (root d) < length blob"
    and ld: "\<And>p X Y. i_bytecode p = X @ blob @ Y \<Longrightarrow> length (i_bytecode p) < 2 ^ 31 \<Longrightarrow>
       loaded p d (length X) tr starts \<and> getBits 4 (i_bytecode p) (length X) = Some (int (length blob))"
    using compile_loaded [OF wf sz] by blast
  obtain bs where bs: "compile_all ds = Some bs" "i_bytecode p = blob @ bs"
    using cmp cb by (cases "compile_all ds") auto
  have L: "loaded p d 0 tr starts" and G: "getBits 4 (i_bytecode p) 0 = Some (int (length blob))"
    using ld [of p "[]" bs] bs len by auto
  have lr: "live d (root d)" using wf by (simp add: dfa_wf_def)
  note N = loaded_node [OF L lr]
  have t4: "trans_start d starts (root d) = 4 + csize (map action_instr (node_actions d (nodes d ! root d)))"
    using N(5) by (simp add: trans_start_def acts_code_def)
  obtain b op where b: "getByte (i_bytecode p) (4 + csize (map action_instr (node_actions d (nodes d ! root d)))) = Some b"
    "instruction_of_byte b = Some op"
    "op \<notin> {AppendAction, AppendActionWithIfDomain, TestFlagsAndAppendAction, TestFlagsAndAppendActionWithIfDomain}"
    using first_instr_not_action [OF N(1,2)] t4 by auto
  have B: "bytes_at (i_bytecode p) 4 (linked_all starts 4 (map action_instr (node_actions d (nodes d ! root d))))"
    using N(5) by (simp add: acts_code_def)
  have aw: "\<forall>a \<in> set (node_actions d (nodes d ! root d)). action_wf a"
    using node_actions_wf [OF wf lr] by blast
  note S = skip_actions [OF B aw len b, unfolded t4 [symmetric], OF ts]
  have ne: "blob \<noteq> []" using ts by auto
  have nl: "\<not> length (i_bytecode p) \<le> trans_start d starts (root d)" using ts bs by simp
  have u: "u32 (length blob) = length blob" using len bs by (intro u32_id) simp
  have "interpret_loop p 0 {} = Option.bind (interpret_dfa p (trans_start d starts (root d), 0, False,
       {a \<in> actions_at d (root d). has_flags a \<and> selected p a})) (interpret_loop p (length blob))"
    using G S(1) [of "{}"] nl u ne bs(2) by (subst interpret_loop.simps) (simp add: u32_id actions_at_def)
  moreover have "actionsMatchingEverything p = Some {a \<in> universal_actions d. selected p a}"
    using G S(2) [of "{}"] by (simp add: actionsMatchingEverything_def universal_actions_def actions_at_def conj_ac)
  moreover have "skip_universal_actions p (length blob) 4 {} =
       Some (trans_start d starts (root d), {a \<in> actions_at d (root d). has_flags a \<and> selected p a})"
    using S(1) [of "{}"] by (simp add: actions_at_def)
  ultimately show ?thesis using that bs ne L by blast
qed

lemma loop_first:
  assumes url: "url_wf (i_url p)" and ok: "\<forall>d \<in> set (d # ds). dfa_ok d"
    and sz: "sum_list (map dfa_size_bound (d # ds)) < 2 ^ 30" and cmp: "compile_all (d # ds) = Some (i_bytecode p)"
  shows "interpret_loop p 0 {} = Some {a \<in> first_matches d (i_url p @ [0]) \<union>
      (\<Union>d \<in> set ds. code_matches d (i_url p @ [0])). selected p a}"
    and "actionsMatchingEverything p = Some {a \<in> universal_actions d. selected p a}"
proof -
  have wf: "dfa_wf d" "dfa_actions_wf d" "eol_safe d" using ok by (auto simp: dfa_ok_def)
  have le: "max_bytecode_size d \<le> dfa_size_bound d" by (rule max_bytecode_size_bound [OF wf(1)])
  moreover have "dfa_size_bound d < 2 ^ 30" using sz by simp
  ultimately have szd: "max_bytecode_size d < 2 ^ 30" by (rule le_less_trans)
  have len: "length (i_bytecode p) < 2 ^ 31"
    using compile_all_ok [OF ok sz] cmp sz by auto
  obtain blob bs tr starts where bs: "compile_all ds = Some bs" "i_bytecode p = blob @ bs" "blob \<noteq> []"
    and L: "loaded p d 0 tr starts"
    and "skip_universal_actions p (length blob) 4 {} =
       Some (trans_start d starts (root d), {a \<in> actions_at d (root d). has_flags a \<and> selected p a})"
    and step: "interpret_loop p 0 {} = Option.bind (interpret_dfa p (trans_start d starts (root d), 0, False,
       {a \<in> actions_at d (root d). has_flags a \<and> selected p a})) (interpret_loop p (length blob))"
    and U: "actionsMatchingEverything p = Some {a \<in> universal_actions d. selected p a}"
    using loop_first_step [OF wf(1,2) szd cmp len] .
  have lr: "live d (root d)" using wf by (simp add: dfa_wf_def)
  have rest: "interpret_loop p (length blob) A =
      Some (A \<union> {a \<in> (\<Union>d \<in> set ds. code_matches d (i_url p @ [0])). selected p a})" for A
  proof (rule loop_rest [OF url _ bs len])
    show "\<forall>d \<in> set ds. dfa_ok d \<and> dfa_size_bound d < 2 ^ 30"
      using ok sz member_le_sum_list [of _ "map dfa_size_bound ds"] by fastforce
  qed
  have run: "interpret_dfa p (trans_start d starts (root d), 0, False, A) =
      Some (A \<union> {a \<in> (\<Union>q \<in> set (code_visits d (root d) (i_url p @ [0])) - {root d}. actions_at d q). selected p a})" for A
    using run_url [OF L wf(3) url lr, of "[]" "i_url p" A] by (simp add: tail_actions)
  show "interpret_loop p 0 {} = Some {a \<in> first_matches d (i_url p @ [0]) \<union>
      (\<Union>d \<in> set ds. code_matches d (i_url p @ [0])). selected p a}"
    unfolding step run bind.simps rest by (auto simp: first_matches_def)
  show "actionsMatchingEverything p = Some {a \<in> universal_actions d. selected p a}" by (rule U)
qed

section \<open>The theorems\<close>

text \<open>No NUL transition is folded into a fallback jump.\<close>

definition eol_exact :: "DFA \<Rightarrow> bool" where
  "eol_exact d \<longleftrightarrow> list_all (\<lambda>q. isKilled (nodes d ! q) \<or>
     delta d q 0 = explicit_target d (nodes d ! q) 0) [0 ..< length (nodes d)]"

lemma code_delta_exact: "eol_exact d \<Longrightarrow> live d q \<Longrightarrow> code_delta d q c = delta d q c"
  by (auto simp: eol_exact_def list_all_iff live_def code_delta_def)

lemma code_visits_exact:
  assumes "dfa_wf d" "eol_exact d"
  shows "live d q \<Longrightarrow> code_visits d q cs = dfa_visits d q cs"
proof (induction cs arbitrary: q)
  case (Cons c cs)
  then show ?case using code_delta_exact [OF assms(2) Cons.prems] delta_live [OF assms(1) Cons.prems]
    by (auto split: option.split)
qed simp

lemma code_matches_exact: "dfa_wf d \<Longrightarrow> eol_exact d \<Longrightarrow> code_matches d cs = dfa_matches d cs"
  using code_visits_exact [of d "root d" cs] by (simp add: code_matches_def dfa_matches_def dfa_wf_def)

lemma first_and_universal: "first_matches d cs \<union> universal_actions d = code_matches d cs"
  unfolding first_matches_def universal_actions_def code_matches_def
  using code_visits_hd [of d "root d" cs] by auto

lemma universal_selected: "a \<in> universal_actions d \<Longrightarrow> flags_match (action_flags a) f"
  by (simp add: universal_actions_def no_flags flags_match_zero)

lemma compiled_run:
  fixes dom :: "u64 set option" and flags :: u16
  assumes "ds \<noteq> []" and ok: "\<forall>d \<in> set ds. dfa_ok d \<and> eol_exact d"
    and sz: "sum_list (map dfa_size_bound ds) < 2 ^ 30" and url: "url_wf url"
  defines "p bs \<equiv> \<lparr>i_bytecode = bs, i_url = url, i_flags = flags, i_domainActions = dom\<rparr>"
  shows "\<exists>bs R. compile_all ds = Some bs \<and> interpret_loop (p bs) 0 {} = Some R \<and>
    actionsMatchingEverything \<lparr>i_bytecode = bs, i_url = [], i_flags = 0, i_domainActions = None\<rparr>
      = Some (universal_actions (hd ds)) \<and>
    R \<union> {a \<in> universal_actions (hd ds). selected (p bs) a} =
      {a \<in> (\<Union>d \<in> set ds. dfa_matches d (url @ [0])). selected (p bs) a}"
proof -
  obtain d ds' where ds: "ds = d # ds'" using assms(1) by (cases ds) auto
  have ok': "\<forall>d \<in> set (d # ds'). dfa_ok d" using ok ds by auto
  have sz': "sum_list (map dfa_size_bound (d # ds')) < 2 ^ 30" using sz ds by simp
  obtain bs where bs: "compile_all (d # ds') = Some bs" using compile_all_ok [OF ok' sz'] by auto
  let ?p' = "\<lparr>i_bytecode = bs, i_url = [], i_flags = 0, i_domainActions = None\<rparr>"
  have R: "interpret_loop (p bs) 0 {} = Some {a \<in> first_matches d (url @ [0]) \<union>
      (\<Union>d \<in> set ds'. code_matches d (url @ [0])). selected (p bs) a}"
    using loop_first(1) [of "p bs" d ds', OF _ ok' sz'] url bs by (simp add: p_def)
  have "selected ?p' a = flags_match (action_flags a) 0" for a by (simp add: selected_def domain_ok_def)
  then have U: "actionsMatchingEverything ?p' = Some (universal_actions d)"
    using loop_first(2) [of ?p' d ds', OF _ ok' sz'] bs universal_selected [of _ d 0] by (auto simp: url_wf_def)
  have m: "code_matches x (url @ [0]) = dfa_matches x (url @ [0])" if "x \<in> set ds" for x
    using ok that by (auto simp: dfa_ok_def code_matches_exact)
  have "(\<Union>d \<in> set ds'. code_matches d (url @ [0])) = (\<Union>d \<in> set ds'. dfa_matches d (url @ [0]))"
    using m ds by (intro SUP_cong) auto
  moreover have "dfa_matches d (url @ [0]) = first_matches d (url @ [0]) \<union> universal_actions d"
    using first_and_universal [of d "url @ [0]"] m [of d] ds by simp
  ultimately have "{a \<in> first_matches d (url @ [0]) \<union> (\<Union>d \<in> set ds'. code_matches d (url @ [0])). selected (p bs) a}
      \<union> {a \<in> universal_actions d. selected (p bs) a} =
      {a \<in> (\<Union>d \<in> set ds. dfa_matches d (url @ [0])). selected (p bs) a}"
    unfolding ds by auto
  then show ?thesis using bs R U ds by auto
qed

text \<open>
  (C1) Compiling a list of DFAs never fails an assertion, and interpreting the stored bytecode on
  a URL terminates, reads only inside the bytecode and the URL, and yields, together with the
  universal actions kept aside, exactly the actions whose flags admit the load among those of
  the nodes that the DFAs visit on the URL and its terminating NUL.
\<close>

theorem compile_then_interpret:
  assumes "ds \<noteq> []" "\<forall>d \<in> set ds. dfa_ok d \<and> eol_exact d" "sum_list (map dfa_size_bound ds) < 2 ^ 30" "url_wf url"
  shows "\<exists>bs R. compile_all ds = Some bs \<and> interpret_url bs url flags = Some R \<and>
    actionsMatchingEverything \<lparr>i_bytecode = bs, i_url = [], i_flags = 0, i_domainActions = None\<rparr> 
      = Some (universal_actions (hd ds)) \<and>
    R \<union> universal_actions (hd ds) = {a \<in> (\<Union>d \<in> set ds. dfa_matches d (url @ [0])). flags_match (action_flags a) flags}"
proof -
  have "{a \<in> universal_actions (hd ds). flags_match (action_flags a) flags} = universal_actions (hd ds)"
    using universal_selected by auto
  then show ?thesis
    using compiled_run [OF assms, of flags None] by (simp add: interpret_url_def selected_def domain_ok_def)
qed

text \<open>The DFA of the filter \<open>a$\<close>, with one action, as an example.\<close>

definition example_eol :: DFA where
  "example_eol = \<lparr>
     nodes = [\<lparr>actionsStart = 0, transitionsStart = 0, actionsLength = 0, transitionsLength = 1, nodeFlags = 0\<rparr>,
       \<lparr>actionsStart = 0, transitionsStart = 1, actionsLength = 0, transitionsLength = 1, nodeFlags = 0\<rparr>,
       \<lparr>actionsStart = 0, transitionsStart = 2, actionsLength = 1, transitionsLength = 0, nodeFlags = 0\<rparr>],
     actions = [7], transitionRanges = [\<lparr>cr_first = 97, cr_last = 97\<rparr>, \<lparr>cr_first = 0, cr_last = 0\<rparr>],
     transitionDestinations = [1, 2], root = 0\<rparr>"

lemma example_eol_ok: "dfa_ok example_eol \<and> eol_exact example_eol \<and> dfa_size_bound example_eol < 2 ^ 30"
  by code_simp

lemma example_eol_matches: "dfa_matches example_eol [97, 0] = {7} \<and> universal_actions example_eol = {}"
  by code_simp

theorem compile_then_interpret_witness:
  "\<exists>bs. compile_all [example_eol] = Some bs \<and> interpret_url bs [97] 0 = Some {7} \<and>
    actionsMatchingEverything \<lparr>i_bytecode = bs, i_url = [], i_flags = 0, i_domainActions = None\<rparr> = Some {}"
proof -
  have "{a. a = 7 \<and> flags_match (action_flags a) 0} = {7}" by (auto simp: action_flags_def flags_match_def)
  moreover have "\<forall>d \<in> set [example_eol]. dfa_ok d \<and> eol_exact d" using example_eol_ok by simp
  moreover have "url_wf [97]" by (simp add: url_wf_def)
  ultimately show ?thesis
    using compile_then_interpret [of "[example_eol]" "[97]" 0] example_eol_ok example_eol_matches by simp
qed

text \<open>
  (C2) The same for the filters with domains: an action is kept exactly when its domain flag
  agrees with the actions that the domain filters selected for the page.
\<close>

theorem compile_then_interpretWithDomains:
  assumes "ds \<noteq> []" "\<forall>d \<in> set ds. dfa_ok d \<and> eol_exact d" "sum_list (map dfa_size_bound ds) < 2 ^ 30" "url_wf url"
  shows "\<exists>bs R. compile_all ds = Some bs \<and> interpretWithDomains bs url flags D = Some R \<and>
    actionsMatchingEverything \<lparr>i_bytecode = bs, i_url = [], i_flags = 0, i_domainActions = None\<rparr> 
      = Some (universal_actions (hd ds)) \<and>
    R \<union> {a \<in> universal_actions (hd ds). matchesDomain a D} =
      {a \<in> (\<Union>d \<in> set ds. dfa_matches d (url @ [0])). flags_match (action_flags a) flags \<and> matchesDomain a D}"
proof -
  have "{a \<in> universal_actions (hd ds). flags_match (action_flags a) flags \<and> matchesDomain a D}
      = {a \<in> universal_actions (hd ds). matchesDomain a D}"
    using universal_selected by auto
  then show ?thesis
    using compiled_run [OF assms, of flags "Some D"] by (simp add: interpretWithDomains_def selected_def domain_ok_def)
qed

text \<open>The DFA of the filter \<open>a\<close>, restricted to one domain: its action carries the domain flag.\<close>

definition example_domain :: DFA where
  "example_domain = \<lparr>
     nodes = [\<lparr>actionsStart = 0, transitionsStart = 0, actionsLength = 0, transitionsLength = 1, nodeFlags = 0\<rparr>,
       \<lparr>actionsStart = 0, transitionsStart = 1, actionsLength = 1, transitionsLength = 0, nodeFlags = 0\<rparr>],
     actions = [0x0001000000000007], transitionRanges = [\<lparr>cr_first = 97, cr_last = 97\<rparr>],
     transitionDestinations = [1], root = 0\<rparr>"

lemma example_domain_ok: "dfa_ok example_domain \<and> eol_exact example_domain \<and> dfa_size_bound example_domain < 2 ^ 30"
  by code_simp

lemma example_domain_matches:
  "dfa_matches example_domain [97, 0] = {0x0001000000000007} \<and> universal_actions example_domain = {}"
  by code_simp

theorem compile_then_interpretWithDomains_witness:
  "\<exists>bs. compile_all [example_domain] = Some bs \<and>
    interpretWithDomains bs [97] 0 {0x0001000000000007} = Some {0x0001000000000007} \<and>
    actionsMatchingEverything \<lparr>i_bytecode = bs, i_url = [], i_flags = 0, i_domainActions = None\<rparr> = Some {}"
proof -
  have f: "flags_match (action_flags 0x0001000000000007) 0 \<and>
      matchesDomain 0x0001000000000007 {0x0001000000000007}" by code_simp
  have "{a. a = 0x0001000000000007 \<and> flags_match (action_flags a) 0 \<and> matchesDomain a {0x0001000000000007}}
      = {0x0001000000000007}" using f by blast
  moreover have "\<forall>d \<in> set [example_domain]. dfa_ok d \<and> eol_exact d" using example_domain_ok by simp
  moreover have "url_wf [97]" by (simp add: url_wf_def)
  ultimately show ?thesis
    using compile_then_interpretWithDomains [of "[example_domain]" "[97]" 0 "{0x0001000000000007}"]
      example_domain_ok example_domain_matches by simp
qed

text \<open>
  The DFA of the filters \<open>^a$\<close> and \<open>^a.\<close> with a common action, after the equivalent nodes at their
  ends have been merged.
\<close>

definition lost_eol :: DFA where
  "lost_eol = \<lparr>
     nodes = [\<lparr>actionsStart = 0, transitionsStart = 0, actionsLength = 0, transitionsLength = 1, nodeFlags = 0\<rparr>,
       \<lparr>actionsStart = 0, transitionsStart = 1, actionsLength = 0, transitionsLength = 2, nodeFlags = 0\<rparr>,
       \<lparr>actionsStart = 0, transitionsStart = 3, actionsLength = 1, transitionsLength = 0, nodeFlags = 0\<rparr>],
     actions = [7],
     transitionRanges = [\<lparr>cr_first = 97, cr_last = 97\<rparr>, \<lparr>cr_first = 0, cr_last = 0\<rparr>, \<lparr>cr_first = 1, cr_last = 127\<rparr>],
     transitionDestinations = [1, 2, 2], root = 0\<rparr>"

text \<open>
  The actions behind the end-of-line transition of the node in which the run over a URL ends, and
  whether the compiler has folded that transition into the fallback of the node.
\<close>

definition end_actions :: "DFA \<Rightarrow> cchar list \<Rightarrow> u64 set" where
  "end_actions d url =
     (case dfa_run d (root d) url of None \<Rightarrow> {}
      | Some q \<Rightarrow> (case delta d q 0 of None \<Rightarrow> {} | Some t \<Rightarrow> actions_at d t))"

definition end_folded :: "DFA \<Rightarrow> cchar list \<Rightarrow> bool" where
  "end_folded d url \<longleftrightarrow>
     (case dfa_run d (root d) url of None \<Rightarrow> False
      | Some q \<Rightarrow> canUseFallbackTransition d (nodes d ! q) \<and>
          delta d q 0 = Some (bestFallbackTarget d (nodes d ! q)))"

lemma code_delta_nonzero: "c \<noteq> 0 \<Longrightarrow> code_delta d q c = delta d q c"
  by (simp add: code_delta_def)

lemma dfa_visits_end:
  "set (dfa_visits d q (url @ [c])) = set (dfa_visits d q url) \<union>
     (case dfa_run d q url of None \<Rightarrow> {} | Some x \<Rightarrow> set_option (delta d x c))"
proof (induction url arbitrary: q)
  case Nil
  show ?case by (cases "delta d q c") auto
next
  case (Cons a url)
  then show ?case by (cases "delta d q a") simp_all
qed

lemma code_visits_end:
  "0 \<notin> set url \<Longrightarrow> set (code_visits d q (url @ [0])) = set (dfa_visits d q url) \<union>
     (case dfa_run d q url of None \<Rightarrow> {} | Some x \<Rightarrow> set_option (explicit_target d (nodes d ! x) 0))"
proof (induction url arbitrary: q)
  case Nil
  show ?case by (auto simp: code_delta_def split: option.split)
next
  case (Cons c url)
  then show ?case using code_delta_nonzero [of c d q] by (cases "delta d q c") simp_all
qed

lemma dfa_matches_end: "dfa_matches d (url @ [0]) = dfa_matches d url \<union> end_actions d url"
  by (auto simp: dfa_matches_def dfa_visits_end end_actions_def split: option.splits)

lemma code_matches_end:
  assumes "0 \<notin> set url"
  shows "code_matches d (url @ [0]) = dfa_matches d url \<union> (if end_folded d url then {} else end_actions d url)"
  by (auto simp: code_matches_def code_visits_end [OF assms] dfa_matches_def end_folded_def end_actions_def
      explicit_target_def delta_def split: option.splits if_splits)

text \<open>
  (C3) Without the assumption of C1 on the end of line, the bytecode still matches what the DFAs match on
  the URL itself, but of what they match at its end it misses exactly the actions behind an end-of-line
  transition that leads to the target of its node's fallback transition: the compiler folds it into
  the fallback, which the interpreter never takes at the end. The instance: the DFA of the filters
  \<open>^a$\<close> and \<open>^a.\<close> with a common action matches the URL \<open>a\<close>, its bytecode does not.
\<close>

theorem eol_match_lost:
  assumes "ds \<noteq> []" "\<forall>d \<in> set ds. dfa_ok d" "sum_list (map dfa_size_bound ds) < 2 ^ 30" "url_wf url"
  shows "(\<forall>d \<in> set ds. dfa_matches d (url @ [0]) = dfa_matches d url \<union> end_actions d url) \<and>
    (\<exists>bs R. compile_all ds = Some bs \<and> interpret_url bs url flags = Some R \<and>
      R \<union> universal_actions (hd ds) =
        {a \<in> (\<Union>d \<in> set ds. dfa_matches d url \<union> (if end_folded d url then {} else end_actions d url)).
          flags_match (action_flags a) flags})"
proof -
  obtain d ds' where ds: "ds = d # ds'" using assms(1) by (cases ds) auto
  note ok = assms(2,3) [unfolded ds]
  obtain bs where bs: "compile_all (d # ds') = Some bs" using compile_all_ok [OF ok] by auto
  let ?p = "\<lparr>i_bytecode = bs, i_url = url, i_flags = flags, i_domainActions = None\<rparr>"
  have nz: "0 \<notin> set url" using assms(4) by (auto simp: url_wf_def list_all_iff)
  have "interpret_url bs url flags = Some {a \<in> first_matches d (url @ [0]) \<union>
      (\<Union>d \<in> set ds'. code_matches d (url @ [0])). flags_match (action_flags a) flags}"
    using loop_first(1) [of ?p, OF _ ok] assms(4) bs by (simp add: interpret_url_def selected_def domain_ok_def)
  moreover have "{a \<in> first_matches d (url @ [0]) \<union> (\<Union>d \<in> set ds'. code_matches d (url @ [0])).
        flags_match (action_flags a) flags} \<union> universal_actions d =
      {a \<in> (\<Union>d \<in> set ds. code_matches d (url @ [0])). flags_match (action_flags a) flags}"
    using first_and_universal [of d "url @ [0]"] universal_selected [of _ d flags] unfolding ds by auto
  ultimately show ?thesis using bs ds dfa_matches_end code_matches_end [OF nz] by auto
qed

theorem eol_match_lost_witness:
  "dfa_matches lost_eol ([97] @ [0]) = {7} \<and>
   (\<exists>bs. compile_all [lost_eol] = Some bs \<and> interpret_url bs [97] 0 = Some {})"
proof -
  have ok: "dfa_ok lost_eol" "dfa_size_bound lost_eol < 2 ^ 30" by code_simp+
  have v: "dfa_matches lost_eol [97] = {}" "end_actions lost_eol [97] = {7}" "end_folded lost_eol [97]"
    "universal_actions lost_eol = {}" by code_simp+
  have "url_wf [97]" by (simp add: url_wf_def)
  then show ?thesis using eol_match_lost [of "[lost_eol]" "[97]" 0] ok v by simp
qed

text \<open>The DFA of the filter \<open>^a[\0a]..b\<close>.\<close>

definition read_past_end :: DFA where
  "read_past_end = \<lparr>
     nodes = [\<lparr>actionsStart = 0, transitionsStart = 0, actionsLength = 0, transitionsLength = 1, nodeFlags = 0\<rparr>,
       \<lparr>actionsStart = 0, transitionsStart = 1, actionsLength = 0, transitionsLength = 2, nodeFlags = 0\<rparr>,
       \<lparr>actionsStart = 0, transitionsStart = 3, actionsLength = 0, transitionsLength = 1, nodeFlags = 0\<rparr>,
       \<lparr>actionsStart = 0, transitionsStart = 4, actionsLength = 0, transitionsLength = 1, nodeFlags = 0\<rparr>,
       \<lparr>actionsStart = 0, transitionsStart = 5, actionsLength = 0, transitionsLength = 1, nodeFlags = 0\<rparr>,
       \<lparr>actionsStart = 0, transitionsStart = 6, actionsLength = 1, transitionsLength = 0, nodeFlags = 0\<rparr>],
     actions = [7],
     transitionRanges = [\<lparr>cr_first = 97, cr_last = 97\<rparr>, \<lparr>cr_first = 0, cr_last = 0\<rparr>, \<lparr>cr_first = 97, cr_last = 97\<rparr>,
       \<lparr>cr_first = 1, cr_last = 127\<rparr>, \<lparr>cr_first = 1, cr_last = 127\<rparr>, \<lparr>cr_first = 98, cr_last = 98\<rparr>],
     transitionDestinations = [1, 2, 2, 3, 4, 5], root = 0\<rparr>"

lemma pure_fallback_code:
  assumes "node_wf d n" "length (nodes d) < u32_max" "pure_fallback d n" "trans_shape (node_transitions d n) es"
  shows "\<exists>s. es = [jump_instr (fallbackTransitionTarget (node_transitions d n)) s]"
proof -
  let ?T = "node_transitions d n"
  note W = node_transitions_wf [OF assms(1,2)]
  have none: "explicit_target d n c = None" if "c \<in> {0..127}" for c
  proof -
    have "nat c \<in> set [0 ..< 128]" using that by auto
    then have "explicit_target d n (int (nat c)) = None" using assms(3) unfolding pure_fallback_def list_all_iff by blast
    then show ?thesis using that by simp
  qed
  have "cover (ranges ?T) (jumpTables ?T) = {}"
    using node_transitions_cover [OF assms(1,2)] none by (auto simp: tables_ok_def)
  moreover have "cov_range r \<noteq> {}" if "range_wf r" for r
    using that by (auto simp: cov_range_def rg_matches_def range_wf_def fold_case_def toASCIILower_def intro!: exI [of _ "rg_min r"])
  moreover have "cov_table t \<noteq> {}" if "table_wf t" for t
    using that by (auto simp: cov_table_def jt_lookup_def table_wf_def fold_case_def toASCIILower_def Let_def intro!: exI [of _ "jt_min t"])
  ultimately have "jumpTables ?T = []" "ranges ?T = []"
    using W(1,2) by (auto simp: cover_def)
  then show ?thesis using assms(3,4) W(3) by (auto simp: trans_shape_def pure_fallback_def)
qed

lemma pure_fallback_stops:
  assumes L: "loaded p d off tr starts" and lq: "live d q" and pf: "pure_fallback d (nodes d ! q)"
    and out: "url_at (i_url p) ui = None"
  shows "getInstruction (i_bytecode p) (off + trans_start d starts q) = Some (Some Jump)"
    "interpret_step p (off + trans_start d starts q, ui, ae, A) = None"
proof -
  let ?T = "node_transitions d (nodes d ! q)" and ?l = "trans_start d starts q"
  have wf: "node_wf d (nodes d ! q)" "length (nodes d) < u32_max" and sz: "length (i_bytecode p) < 2 ^ 31"
    using L lq dfa_wf_node by (auto simp: loaded_def dfa_wf_def)
  note N = loaded_node [OF L lq] and W = node_transitions_wf [OF wf]
  obtain s where e: "tr q = [jump_instr (fallbackTransitionTarget ?T) s]"
    using pure_fallback_code [OF wf pf N(1)] by blast
  have lf: "live d (fallbackTransitionTarget ?T)" using W(3,5) pf by (simp add: pure_fallback_def)
  show "interpret_step p (off + ?l, ui, ae, A) = None"
    using step_jump [of p off ?l starts, OF _ _ sz loaded_node(6) [OF L lf]] N(2,3) e out by simp
  have "bytes_at (i_bytecode p) (off + ?l) [opcode Jump OR jump_size_code s]"
    using N(2) e by (simp add: jump_instr_def bytes_at_Cons [of _ _ _ "encode_le _ _"])
  then show "getInstruction (i_bytecode p) (off + ?l) = Some (Some Jump)"
    by (simp only: getInstruction_def getByte_at instruction_of_byte_with_size option.map)
qed

context run_result
begin

lemma run_prefix:
  assumes L: "loaded p d off tr starts" and url: "url_wf (i_url p)"
  shows "live d q \<Longrightarrow> i_url p = pre @ w @ rest \<Longrightarrow> dfa_run d q w = Some x \<Longrightarrow>
    live d x \<and> (\<exists>A'. K (off + trans_start d starts q, length pre, False, A) =
      K (off + trans_start d starts x, length (pre @ w), False, A'))"
proof (induction w arbitrary: q pre A)
  case Nil
  then show ?case by auto
next
  case (Cons c w)
  obtain y where y: "delta d q c = Some y" "dfa_run d y w = Some x" using Cons.prems(3) by (auto split: Option.bind_splits)
  have cb: "1 \<le> c" "c \<le> 127" using url Cons.prems(2) by (auto simp: url_wf_def)
  have c: "url_at (i_url p) (length pre) = Some c" using Cons.prems(2) by (simp add: url_at_def)
  have u: "u32 (length pre + 1) = length (pre @ [c])"
    using url Cons.prems(2) by (subst u32_id) (auto simp: url_wf_def)
  have ly: "live d y" using L delta_live [OF _ Cons.prems(1) y(1)] by (simp add: loaded_def)
  have "code_delta d q c = Some y" using y(1) cb by (simp add: code_delta_nonzero)
  then have "K (off + trans_start d starts q, length pre, False, A) =
      K (off + trans_start d starts y, length (pre @ [c]), False, A \<union> entry_actions p d y)"
    using run_node_next [OF L Cons.prems(1) c, of A] enter_node [OF L ly] cb u by simp
  then show ?case using Cons.IH [OF ly _ y(2), of "pre @ [c]"] Cons.prems(2) by simp
qed

end

text \<open>
  (C4) After the end-of-line transition the interpreter reads one byte behind the terminating NUL when
  the node it has reached consists of its fallback jump. For every DFA and URL with such a node behind
  the end, the loop of \<open>interpret\<close> stops in a state with the URL index behind the NUL, at a jump
  instruction of that node, which has to read the character at that index. The instance: the filter
  \<open>^a[\0a]..b\<close> on the URL \<open>a\<close>.
\<close>

theorem eol_read_past_end:
  fixes flags :: u16
  assumes "dfa_wf d" "dfa_actions_wf d" "dfa_size_bound d < 2 ^ 30" "url_wf url"
    "dfa_run d (root d) url = Some q" "explicit_target d (nodes d ! q) 0 = Some t" "pure_fallback d (nodes d ! t)"
  shows "\<exists>bs pc acts pc' acts'.
    compile_all [d] = Some bs \<and>
    skip_universal_actions \<lparr>i_bytecode = bs, i_url = url, i_flags = flags, i_domainActions = None\<rparr> (length bs) 4 {} =
      Some (pc, acts) \<and>
    stop_state \<lparr>i_bytecode = bs, i_url = url, i_flags = flags, i_domainActions = None\<rparr> (pc, 0, False, acts) =
      Some (pc', length url + 1, True, acts') \<and>
    getInstruction bs pc' = Some (Some Jump) \<and> url_at url (length url + 1) = None \<and>
    interpret_url bs url flags = None"
proof -
  have sz: "max_bytecode_size d < 2 ^ 30" using max_bytecode_size_bound [OF assms(1)] assms(3) by (rule le_less_trans)
  obtain blob where cb: "compile d [] = Some blob" "length blob \<le> max_bytecode_size d"
    using compile_loaded [OF assms(1,2) sz] by blast
  define p where "p = \<lparr>i_bytecode = blob, i_url = url, i_flags = flags, i_domainActions = None\<rparr>"
  have len: "length (i_bytecode p) < 2 ^ 31" using cb(2) sz by (simp add: p_def)
  have cmp: "compile_all [d] = Some (i_bytecode p)" using cb by (simp add: p_def)
  obtain blob' bs tr starts where b: "compile_all [] = Some bs" "i_bytecode p = blob' @ bs" "blob' \<noteq> []"
    and L: "loaded p d 0 tr starts"
    and skip: "skip_universal_actions p (length blob') 4 {} =
       Some (trans_start d starts (root d), {a \<in> actions_at d (root d). has_flags a \<and> selected p a})"
    and step: "interpret_loop p 0 {} = Option.bind (interpret_dfa p (trans_start d starts (root d), 0, False,
       {a \<in> actions_at d (root d). has_flags a \<and> selected p a})) (interpret_loop p (length blob'))"
    and "actionsMatchingEverything p = Some {a \<in> universal_actions d. selected p a}"
    using loop_first_step [OF assms(1,2) sz cmp len] .
  let ?A = "{a \<in> actions_at d (root d). has_flags a \<and> selected p a}"
  have lr: "live d (root d)" using assms(1) by (simp add: dfa_wf_def)
  have uw: "url_wf (i_url p)" "i_url p = [] @ url @ []" using assms(4) by (simp_all add: p_def)
  have lq: "live d q" using stop.run_prefix [OF L uw(1) lr uw(2) assms(5)] by blast
  have cd: "code_delta d q 0 = Some t" using assms(6) by (simp add: code_delta_def)
  have lt: "live d t" by (rule code_delta_live [OF assms(1) lq cd])
  have at: "url_at (i_url p) (length url) = Some 0" "url_at (i_url p) (length url + 1) = None"
    by (simp_all add: p_def url_at_def)
  have u: "u32 (length url + 1) = length url + 1" using assms(4) by (intro u32_id) (simp add: url_wf_def)
  note P = pure_fallback_stops [OF L lt assms(7) at(2)]
  obtain A1 where A1: "stop_state p (0 + trans_start d starts (root d), 0, False, ?A) =
      stop_state p (0 + trans_start d starts q, length url, False, A1)"
    using stop.run_prefix [OF L uw(1) lr uw(2) assms(5), of ?A] by auto
  obtain A2 where A2: "interpret_dfa p (0 + trans_start d starts (root d), 0, False, ?A) =
      interpret_dfa p (0 + trans_start d starts q, length url, False, A2)"
    using loop.run_prefix [OF L uw(1) lr uw(2) assms(5), of ?A] by auto
  have "stop_state p (0 + trans_start d starts q, length url, False, A1) =
      stop_state p (0 + trans_start d starts t, length url + 1, True, A1 \<union> entry_actions p d t)"
    using stop.run_node_next [OF L lq at(1), of A1] stop.enter_node [OF L lt] cd u by simp
  also have "\<dots> = Some (trans_start d starts t, length url + 1, True, A1 \<union> entry_actions p d t)"
    by (subst stop_state.simps) (simp add: P(2) [simplified])
  finally have stop: "stop_state p (trans_start d starts (root d), 0, False, ?A) =
      Some (trans_start d starts t, length url + 1, True, A1 \<union> entry_actions p d t)" using A1 by simp
  have "interpret_dfa p (0 + trans_start d starts q, length url, False, A2) =
      interpret_dfa p (0 + trans_start d starts t, length url + 1, True, A2 \<union> entry_actions p d t)"
    using loop.run_node_next [OF L lq at(1), of A2] loop.enter_node [OF L lt] cd u by simp
  also have "\<dots> = None" by (rule loop_None [OF P(2)])
  finally have "interpret_loop p 0 {} = None" using step A2 by simp
  then show ?thesis using cmp skip stop P(1) at(2) b by (auto simp: p_def interpret_url_def)
qed

theorem eol_read_past_end_witness:
  "\<exists>bs pc acts pc' acts'.
    compile_all [read_past_end] = Some bs \<and>
    skip_universal_actions \<lparr>i_bytecode = bs, i_url = [97], i_flags = 0, i_domainActions = None\<rparr> (length bs) 4 {} =
      Some (pc, acts) \<and>
    stop_state \<lparr>i_bytecode = bs, i_url = [97], i_flags = 0, i_domainActions = None\<rparr> (pc, 0, False, acts) =
      Some (pc', 2, True, acts') \<and>
    getInstruction bs pc' = Some (Some Jump) \<and> url_at [97] 2 = None \<and> interpret_url bs [97] 0 = None"
proof -
  have "dfa_wf read_past_end" "dfa_actions_wf read_past_end" "dfa_size_bound read_past_end < 2 ^ 30"
    "dfa_run read_past_end (root read_past_end) [97] = Some 1"
    "explicit_target read_past_end (nodes read_past_end ! 1) 0 = Some 2"
    "pure_fallback read_past_end (nodes read_past_end ! 2)" by code_simp+
  moreover have "url_wf [97]" by (simp add: url_wf_def)
  moreover have "length [97 :: cchar] + 1 = 2" by simp
  ultimately show ?thesis using eol_read_past_end [of read_past_end "[97]" 1 2 0] by metis
qed

end
