(* ===== verification/Range_List.thy ===== *)
theory Range_List
  imports Dfa
begin

text \<open>
  \<open>MutableRange.h\<close> and \<open>MutableRangeList.h\<close>: a list of character ranges with data, kept in a
  vector and linked by index (\<open>nextRangeIndex\<close>, 0 for the last range). \<open>extend\<close> merges another
  sequence of ranges into the list and splits the ranges where they overlap; a converter says
  how the data of the other sequence enters the list. The model keeps the vector and the links.
  The main lemma, \<open>extend_refines\<close>, relates it to \<open>merge_ranges\<close> on plain sorted lists, whose
  meaning character by character is \<open>lookup_merge_ranges\<close>.
\<close>

section \<open>Data\<close>

record 'd mrange =
  mr_data :: 'd
  nextRangeIndex :: nat
  mr_first :: cchar
  mr_last :: cchar

text \<open>What a \<open>RangeIterator\<close> has still to deliver: \<open>first()\<close>, \<open>last()\<close> and \<open>data()\<close> of each range.\<close>

type_synonym 'x item = "cchar \<times> cchar \<times> 'x"

definition MutableRange :: "'d \<Rightarrow> nat \<Rightarrow> cchar \<Rightarrow> cchar \<Rightarrow> 'd mrange" where
  "MutableRange data nextIndex first lst =
     \<lparr>mr_data = data, nextRangeIndex = nextIndex, mr_first = first, mr_last = lst\<rparr>"

text \<open>Conversion of an \<open>int\<close> to the signed 8-bit \<open>char\<close>.\<close>

definition to_char :: "int \<Rightarrow> cchar" where
  "to_char i = (i + 128) mod 256 - 128"

section \<open>Iteration\<close>

partial_function (option) iterate_from :: "'d mrange list \<Rightarrow> nat \<Rightarrow> 'd mrange list option" where
  "iterate_from ranges index =
     (let index' = nextRangeIndex (ranges ! index) in
      if index' = 0 then Some [ranges ! index]
      else Option.bind (iterate_from ranges index') (\<lambda>rest. Some (ranges ! index # rest)))"

definition iterate_ranges :: "'d mrange list \<Rightarrow> 'd mrange list option" where
  "iterate_ranges ranges = (if ranges = [] then Some [] else iterate_from ranges 0)"

section \<open>Operations\<close>

definition appendRange ::
    "'d mrange list \<Rightarrow> nat \<Rightarrow> cchar \<Rightarrow> cchar \<Rightarrow> 'd \<Rightarrow> 'd mrange list \<times> nat" where
  "appendRange ranges lastRangeIndex first lst data =
     (let newRangeIndex = length ranges;
          ranges' = ranges @ [MutableRange data 0 first lst]
      in if newRangeIndex = 0 then (ranges', 0)
         else (ranges'[lastRangeIndex := (ranges' ! lastRangeIndex)\<lparr>nextRangeIndex := newRangeIndex\<rparr>],
               newRangeIndex))"

definition insertBetween ::
    "'d mrange list \<Rightarrow> nat \<Rightarrow> nat \<Rightarrow> cchar \<Rightarrow> cchar \<Rightarrow> 'd \<Rightarrow> 'd mrange list \<times> nat \<times> nat" where
  "insertBetween ranges leftRangeIndex rightRangeIndex first lst data =
     (if rightRangeIndex = 0 then
        (let movedRangeIndex = length ranges;
             ranges' = ranges @ [ranges ! 0]
         in (ranges'[0 := MutableRange data movedRangeIndex first lst], 0, movedRangeIndex))
      else
        (let newRangeIndex = length ranges;
             ranges' = ranges @ [MutableRange data rightRangeIndex first lst]
         in (ranges'[leftRangeIndex := (ranges' ! leftRangeIndex)\<lparr>nextRangeIndex := newRangeIndex\<rparr>],
             newRangeIndex, rightRangeIndex)))"

fun initialize_loop :: "('x \<Rightarrow> 'd) \<Rightarrow> nat \<Rightarrow> 'x item list \<Rightarrow> 'd mrange list" where
  "initialize_loop convert loopCounter [] = []"
| "initialize_loop convert loopCounter ((first, lst, data) # others) =
     MutableRange (convert data) (loopCounter + 1) first lst #
     initialize_loop convert (loopCounter + 1) others"

definition initializeFrom :: "('x \<Rightarrow> 'd) \<Rightarrow> 'x item list \<Rightarrow> 'd mrange list" where
  "initializeFrom convert others =
     (let ranges = initialize_loop convert 0 others in
      if ranges = [] then ranges
      else ranges[length ranges - 1 := (last ranges)\<lparr>nextRangeIndex := 0\<rparr>])"

text \<open>The local variables of \<open>extend\<close> at the head of its loop.\<close>

record ('d, 'x) extend_state =
  m_ranges :: "'d mrange list"
  reachedSelfEnd :: bool
  lastSelfRangeIndex :: nat
  selfRangeIndex :: nat
  otherIterator :: "'x item list"
  otherRangeOffset :: cchar

text \<open>\<open>lastSelfRangeIndex = selfRangeIndex; selfRangeIndex = activeSelfRange->nextRangeIndex; ...\<close>\<close>

definition next_self :: "('d, 'x) extend_state \<Rightarrow> ('d, 'x) extend_state" where
  "next_self st =
     (let index = nextRangeIndex (m_ranges st ! selfRangeIndex st) in
      st\<lparr>lastSelfRangeIndex := selfRangeIndex st, selfRangeIndex := index,
         reachedSelfEnd := (index = 0)\<rparr>)"

definition next_other :: "('d, 'x) extend_state \<Rightarrow> ('d, 'x) extend_state" where
  "next_other st = st\<lparr>otherIterator := tl (otherIterator st), otherRangeOffset := 0\<rparr>"

definition insert_before_self ::
    "cchar \<Rightarrow> cchar \<Rightarrow> 'd \<Rightarrow> ('d, 'x) extend_state \<Rightarrow> ('d, 'x) extend_state" where
  "insert_before_self first lst data st =
     (case insertBetween (m_ranges st) (lastSelfRangeIndex st) (selfRangeIndex st) first lst data of
        (ranges, left, right) \<Rightarrow>
          st\<lparr>m_ranges := ranges, lastSelfRangeIndex := left, selfRangeIndex := right\<rparr>)"

definition update_self :: "('d mrange \<Rightarrow> 'd mrange) \<Rightarrow> ('d, 'x) extend_state \<Rightarrow> ('d, 'x) extend_state" where
  "update_self f st =
     st\<lparr>m_ranges := (m_ranges st)[selfRangeIndex st := f (m_ranges st ! selfRangeIndex st)]\<rparr>"

text \<open>
  The part on the left of the overlap: either the list's range starts first and is cut in two,
  or the other range starts first and its beginning becomes a range of its own.
\<close>

definition split_left :: "('x \<Rightarrow> 'd) \<Rightarrow> ('d, 'x) extend_state \<Rightarrow> ('d, 'x) extend_state" where
  "split_left convert st =
     (let active = m_ranges st ! selfRangeIndex st;
          (first, lst, data) = hd (otherIterator st)
      in if mr_first active < first + otherRangeOffset st then
           insert_before_self (mr_first active) (first + otherRangeOffset st - 1) (mr_data active)
             (update_self (\<lambda>r. r\<lparr>mr_first := first + otherRangeOffset st\<rparr>) st)
         else if first + otherRangeOffset st < mr_first active then
           (insert_before_self (first + otherRangeOffset st) (mr_first active - 1) (convert data) st)
             \<lparr>otherRangeOffset := to_char (mr_first active - first)\<rparr>
         else st)"

text \<open>Both ranges start at the same character: merge the data of the part they share.\<close>

definition merge_overlap :: "('d \<Rightarrow> 'x \<Rightarrow> 'd) \<Rightarrow> ('d, 'x) extend_state \<Rightarrow> ('d, 'x) extend_state" where
  "merge_overlap extendData st =
     (let active = m_ranges st ! selfRangeIndex st;
          (first, lst, data) = hd (otherIterator st)
      in if mr_last active = lst then
           next_other (next_self (update_self (\<lambda>r. r\<lparr>mr_data := extendData (mr_data r) data\<rparr>) st))
         else if mr_last active > lst then
           next_other (insert_before_self (mr_first active) lst (extendData (mr_data active) data)
             (update_self (\<lambda>r. r\<lparr>mr_first := lst + 1\<rparr>) st))
         else
           (next_self (update_self (\<lambda>r. r\<lparr>mr_data := extendData (mr_data r) data\<rparr>) st))
             \<lparr>otherRangeOffset := to_char (mr_last active - first + 1)\<rparr>)"

definition extend_step ::
    "('x \<Rightarrow> 'd) \<Rightarrow> ('d \<Rightarrow> 'x \<Rightarrow> 'd) \<Rightarrow> ('d, 'x) extend_state \<Rightarrow> ('d, 'x) extend_state" where
  "extend_step convert extendData st =
     (let active = m_ranges st ! selfRangeIndex st;
          (first, lst, data) = hd (otherIterator st)
      in if mr_last active < first + otherRangeOffset st then next_self st
         else if lst < mr_first active then
           next_other (insert_before_self (first + otherRangeOffset st) lst (convert data) st)
         else merge_overlap extendData (split_left convert st))"

partial_function (option) extend_loop ::
    "('x \<Rightarrow> 'd) \<Rightarrow> ('d \<Rightarrow> 'x \<Rightarrow> 'd) \<Rightarrow> ('d, 'x) extend_state \<Rightarrow> ('d, 'x) extend_state option" where
  "extend_loop convert extendData st =
     (let st' = extend_step convert extendData st in
      if \<not> reachedSelfEnd st' \<and> otherIterator st' \<noteq> []
      then extend_loop convert extendData st' else Some st')"

fun append_rest ::
    "('x \<Rightarrow> 'd) \<Rightarrow> 'd mrange list \<Rightarrow> nat \<Rightarrow> cchar \<Rightarrow> 'x item list \<Rightarrow> 'd mrange list" where
  "append_rest convert ranges lastIndex offset [] = ranges"
| "append_rest convert ranges lastIndex offset ((first, lst, data) # others) =
     (case appendRange ranges lastIndex (first + offset) lst (convert data) of
        (ranges', lastIndex') \<Rightarrow> append_rest convert ranges' lastIndex' 0 others)"

definition extend_ranges ::
    "('x \<Rightarrow> 'd) \<Rightarrow> ('d \<Rightarrow> 'x \<Rightarrow> 'd) \<Rightarrow> 'd mrange list \<Rightarrow> 'x item list \<Rightarrow> 'd mrange list option" where
  "extend_ranges convert extendData ranges others =
     (if others = [] then Some ranges
      else if ranges = [] then Some (initializeFrom convert others)
      else
        Option.bind
          (extend_loop convert extendData
             \<lparr>m_ranges = ranges, reachedSelfEnd = False, lastSelfRangeIndex = 0, selfRangeIndex = 0,
              otherIterator = others, otherRangeOffset = 0\<rparr>)
          (\<lambda>st. Some (append_rest convert (m_ranges st) (lastSelfRangeIndex st)
             (otherRangeOffset st) (otherIterator st))))"

section \<open>The merge of two sorted lists of ranges\<close>

fun rl_wf :: "cchar \<Rightarrow> 'd item list \<Rightarrow> bool" where
  "rl_wf lo [] = True"
| "rl_wf lo ((first, lst, d) # xs) =
     (lo \<le> first \<and> first \<le> lst \<and> lst \<le> 127 \<and> rl_wf (lst + 1) xs)"

definition rl_lookup :: "'d item list \<Rightarrow> cchar \<Rightarrow> 'd option" where
  "rl_lookup xs c =
     map_option (\<lambda>(first, lst, d). d) (find (\<lambda>(first, lst, d). first \<le> c \<and> c \<le> lst) xs)"

definition convert_item :: "('x \<Rightarrow> 'd) \<Rightarrow> 'x item \<Rightarrow> 'd item" where
  "convert_item convert = (\<lambda>(first, lst, d). (first, lst, convert d))"

function merge_ranges ::
    "('x \<Rightarrow> 'd) \<Rightarrow> ('d \<Rightarrow> 'x \<Rightarrow> 'd) \<Rightarrow> 'd item list \<Rightarrow> 'x item list \<Rightarrow> 'd item list" where
  "merge_ranges cv ex [] ys = map (convert_item cv) ys"
| "merge_ranges cv ex (x # xs) [] = x # xs"
| "merge_ranges cv ex ((f, l, d) # xs) ((f', l', d') # ys) =
     (if l < f' then (f, l, d) # merge_ranges cv ex xs ((f', l', d') # ys)
      else if l' < f then (f', l', cv d') # merge_ranges cv ex ((f, l, d) # xs) ys
      else if f < f' then (f, f' - 1, d) # merge_ranges cv ex ((f', l, d) # xs) ((f', l', d') # ys)
      else if f' < f then (f', f - 1, cv d') # merge_ranges cv ex ((f, l, d) # xs) ((f, l', d') # ys)
      else if l = l' then (f, l, ex d d') # merge_ranges cv ex xs ys
      else if l' < l then (f, l', ex d d') # merge_ranges cv ex ((l' + 1, l, d) # xs) ys
      else (f, l, ex d d') # merge_ranges cv ex xs ((l + 1, l', d') # ys))"
  by pat_completeness auto
termination
  by (relation "measures [\<lambda>(cv, ex, xs, ys). length xs + length ys,
      \<lambda>(cv, ex, xs, ys). if fst (hd xs) = fst (hd ys) then 0 else 1]") auto

text \<open>What the merge means for one character.\<close>

definition merge_data :: "('x \<Rightarrow> 'd) \<Rightarrow> ('d \<Rightarrow> 'x \<Rightarrow> 'd) \<Rightarrow> 'd option \<Rightarrow> 'x option \<Rightarrow> 'd option" where
  "merge_data cv ex a b =
     (case a of
        None \<Rightarrow> map_option cv b
      | Some d \<Rightarrow> (case b of None \<Rightarrow> Some d | Some d' \<Rightarrow> Some (ex d d')))"

lemma merge_data_simps [simp]:
  "merge_data cv ex None b = map_option cv b"
  "merge_data cv ex (Some d) None = Some d"
  "merge_data cv ex (Some d) (Some d') = Some (ex d d')"
  by (simp_all add: merge_data_def)

lemma merge_data_None2 [simp]: "merge_data cv ex a None = a"
  by (cases a) simp_all

lemma rl_lookup_Nil [simp]: "rl_lookup [] c = None"
  by (simp add: rl_lookup_def)

lemma rl_lookup_Cons [simp]:
  "rl_lookup ((f, l, d) # xs) c = (if f \<le> c \<and> c \<le> l then Some d else rl_lookup xs c)"
  by (simp add: rl_lookup_def)

lemma rl_wf_mono: "rl_wf lo xs \<Longrightarrow> lo' \<le> lo \<Longrightarrow> rl_wf lo' xs"
  by (cases xs) auto

lemma rl_wf_lookup_below: "rl_wf lo xs \<Longrightarrow> c < lo \<Longrightarrow> rl_lookup xs c = None"
  by (induction lo xs rule: rl_wf.induct) auto

lemma rl_lookup_convert: "rl_lookup (map (convert_item cv) xs) c = map_option cv (rl_lookup xs c)"
  by (induction xs) (auto simp: convert_item_def)

lemma rl_wf_convert: "rl_wf lo (map (convert_item cv) xs) = rl_wf lo xs"
  by (induction lo xs rule: rl_wf.induct) (auto simp: convert_item_def)

lemma rl_wf_merge_ranges:
  "rl_wf lo xs \<Longrightarrow> rl_wf lo ys \<Longrightarrow> rl_wf lo (merge_ranges cv ex xs ys)"
proof (induction cv ex xs ys arbitrary: lo rule: merge_ranges.induct)
  case (3 cv ex f l d xs f' l' d' ys)
  note wf = 3(8,9)
  consider "l < f'" | "\<not> l < f'" "l' < f" | "\<not> l < f'" "\<not> l' < f" "f < f'"
    | "\<not> l < f'" "\<not> l' < f" "f' < f" | "f = f'" "l = l'" | "f = f'" "l' < l" | "f = f'" "l < l'"
    by linarith
  then show ?case
  proof cases
    case 1
    then show ?thesis using wf 3(1) [of "l + 1"] by simp
  next
    case 2
    then show ?thesis using wf 3(2) [of "l' + 1"] by simp
  next
    case h: 3
    then show ?thesis using wf 3(3) [of f'] by simp
  next
    case 4
    then show ?thesis using wf 3(4) [of f] by simp
  next
    case 5
    then show ?thesis using wf 3(5) [of "l + 1"] by simp
  next
    case 6
    then show ?thesis using wf 3(6) [of "l' + 1"] by simp
  next
    case 7
    then show ?thesis using wf 3(7) [of "l + 1"] by simp
  qed
qed (simp_all add: rl_wf_convert)

lemma lookup_merge_ranges:
  "rl_wf lo xs \<Longrightarrow> rl_wf lo' ys \<Longrightarrow>
   rl_lookup (merge_ranges cv ex xs ys) c = merge_data cv ex (rl_lookup xs c) (rl_lookup ys c)"
proof (induction cv ex xs ys arbitrary: lo lo' rule: merge_ranges.induct)
  case (3 cv ex f l d xs f' l' d' ys)
  note wf = 3(8,9)
  have xs: "rl_lookup xs c = None" if "c \<le> l" using wf that by (auto intro: rl_wf_lookup_below)
  have ys: "rl_lookup ys c = None" if "c \<le> l'" using wf that by (auto intro: rl_wf_lookup_below)
  consider "l < f'" | "\<not> l < f'" "l' < f" | "\<not> l < f'" "\<not> l' < f" "f < f'"
    | "\<not> l < f'" "\<not> l' < f" "f' < f" | "f = f'" "l = l'" | "f = f'" "l' < l" | "f = f'" "l < l'"
    by linarith
  then show ?case
  proof cases
    case 1
    then show ?thesis using wf 3(1) [of "l + 1" lo'] ys by auto
  next
    case 2
    then show ?thesis using wf 3(2) [of lo "l' + 1"] xs by auto
  next
    case h: 3
    then show ?thesis using wf 3(3) [of f' lo'] ys by auto
  next
    case 4
    then show ?thesis using wf 3(4) [of lo f] xs by auto
  next
    case 5
    then show ?thesis using wf 3(5) [of "l + 1" "l' + 1"] by auto
  next
    case 6
    then show ?thesis using wf 3(6) [of "l' + 1" "l' + 1"] ys by auto
  next
    case 7
    then show ?thesis using wf 3(7) [of "l + 1" "l + 1"] xs by auto
  qed
qed (simp_all add: rl_lookup_convert)

section \<open>The linked vector represents a list of ranges\<close>

fun chained :: "'d mrange list \<Rightarrow> nat list \<Rightarrow> nat \<Rightarrow> bool" where
  "chained rs [] e = True"
| "chained rs (i # is) e =
     (i < length rs \<and> nextRangeIndex (rs ! i) = (case is of [] \<Rightarrow> e | j # _ \<Rightarrow> j) \<and> chained rs is e)"

definition item_of :: "'d mrange \<Rightarrow> 'd item" where
  "item_of r = (mr_first r, mr_last r, mr_data r)"

definition items :: "'d mrange list \<Rightarrow> nat list \<Rightarrow> 'd item list" where
  "items rs is = map (\<lambda>i. item_of (rs ! i)) is"

definition represents :: "'d mrange list \<Rightarrow> nat list \<Rightarrow> bool" where
  "represents rs is \<longleftrightarrow> chained rs is 0 \<and> distinct is \<and> set is = {..<length rs} \<and>
     (is \<noteq> [] \<longrightarrow> hd is = 0)"

text \<open>The list the vector stands for, and the invariant of the class.\<close>

definition range_list_of :: "'d mrange list \<Rightarrow> 'd item list \<Rightarrow> bool" where
  "range_list_of rs xs \<longleftrightarrow> (\<exists>is. represents rs is \<and> items rs is = xs)"

lemma items_simps [simp]:
  "items rs [] = []" "items rs (i # is) = item_of (rs ! i) # items rs is"
  "items rs (is @ js) = items rs is @ items rs js"
  by (simp_all add: items_def)

lemma items_Nil_iff [simp]: "items rs is = [] \<longleftrightarrow> is = []"
  by (simp add: items_def)

lemma items_cong: "(\<And>i. i \<in> set is \<Longrightarrow> item_of (rs ! i) = item_of (rs' ! i)) \<Longrightarrow> items rs is = items rs' is"
  by (simp add: items_def)

lemma chained_append:
  "chained rs (is @ js) e \<longleftrightarrow> chained rs is (case js of [] \<Rightarrow> e | j # _ \<Rightarrow> j) \<and> chained rs js e"
proof (induction "is")
  case (Cons i "is")
  then show ?case by (cases "is") (auto split: list.splits)
qed simp

lemma chained_cong:
  assumes "chained rs is e"
    and "\<And>i. i \<in> set is \<Longrightarrow> i < length rs' \<and> nextRangeIndex (rs' ! i) = nextRangeIndex (rs ! i)"
  shows "chained rs' is e"
  using assms by (induction "is") auto

lemma chained_bound: "chained rs is e \<Longrightarrow> i \<in> set is \<Longrightarrow> i < length rs"
  by (induction "is") auto

subsection \<open>The state of the loop\<close>

definition view :: "('d, 'x) extend_state \<Rightarrow> 'd item list \<Rightarrow> 'd item list \<Rightarrow> bool" where
  "view st P Q \<longleftrightarrow> (\<exists>ip iq. represents (m_ranges st) (ip @ iq) \<and>
     items (m_ranges st) ip = P \<and> items (m_ranges st) iq = Q \<and>
     (ip \<noteq> [] \<longrightarrow> lastSelfRangeIndex st = last ip) \<and> (iq \<noteq> [] \<longrightarrow> selfRangeIndex st = hd iq))"

lemma view_ConsE:
  assumes "view st P (x # Q)"
  obtains ip iq where "represents (m_ranges st) (ip @ selfRangeIndex st # iq)"
    "items (m_ranges st) ip = P" "item_of (m_ranges st ! selfRangeIndex st) = x"
    "items (m_ranges st) iq = Q" "ip \<noteq> [] \<longrightarrow> lastSelfRangeIndex st = last ip"
proof -
  obtain ip iq' where *: "represents (m_ranges st) (ip @ iq')" "items (m_ranges st) ip = P"
    "items (m_ranges st) iq' = x # Q" "ip \<noteq> [] \<longrightarrow> lastSelfRangeIndex st = last ip"
    "iq' \<noteq> [] \<longrightarrow> selfRangeIndex st = hd iq'"
    using assms unfolding view_def by blast
  then obtain j iq where "iq' = j # iq" by (cases iq') auto
  then show thesis using that [of ip iq] * by simp
qed

lemma view_active: "view st P (x # Q) \<Longrightarrow> item_of (m_ranges st ! selfRangeIndex st) = x"
  by (erule view_ConsE)

lemma view_next:
  assumes "view st P (x # Q)"
  shows "view (next_self st) (P @ [x]) Q" "reachedSelfEnd (next_self st) \<longleftrightarrow> Q = []"
    "otherIterator (next_self st) = otherIterator st"
    "otherRangeOffset (next_self st) = otherRangeOffset st"
proof -
  obtain ip iq where r: "represents (m_ranges st) (ip @ selfRangeIndex st # iq)"
    and i: "items (m_ranges st) ip = P" "item_of (m_ranges st ! selfRangeIndex st) = x"
      "items (m_ranges st) iq = Q"
    using assms by (rule view_ConsE)
  have n: "nextRangeIndex (m_ranges st ! selfRangeIndex st) = (case iq of [] \<Rightarrow> 0 | j # _ \<Rightarrow> j)"
    using r by (simp add: represents_def chained_append)
  have hd: "hd (ip @ selfRangeIndex st # iq) = 0" "distinct (ip @ selfRangeIndex st # iq)"
    using r by (simp_all add: represents_def)
  have nz: "iq \<noteq> [] \<Longrightarrow> hd iq \<noteq> 0"
    using hd by (cases ip; cases iq) auto
  show "view (next_self st) (P @ [x]) Q"
    unfolding view_def
    by (rule exI [of _ "ip @ [selfRangeIndex st]"], rule exI [of _ iq])
      (use r i n in \<open>auto simp: next_self_def Let_def split: list.splits\<close>)
  show "reachedSelfEnd (next_self st) \<longleftrightarrow> Q = []"
    using n nz i by (auto simp: next_self_def Let_def split: list.splits)
qed (simp_all add: next_self_def Let_def)

lemma view_update:
  assumes "view st P (x # Q)" "\<And>r. nextRangeIndex (f r) = nextRangeIndex r"
    "\<And>r. item_of r = x \<Longrightarrow> item_of (f r) = y"
  shows "view (update_self f st) P (y # Q)"
proof -
  let ?s = "selfRangeIndex st" and ?rs = "m_ranges st"
  obtain ip iq where r: "represents ?rs (ip @ ?s # iq)"
    and i: "items ?rs ip = P" "item_of (?rs ! ?s) = x" "items ?rs iq = Q"
      "ip \<noteq> [] \<longrightarrow> lastSelfRangeIndex st = last ip"
    using assms(1) by (rule view_ConsE)
  let ?rs' = "?rs[?s := f (?rs ! ?s)]"
  have s: "?s < length ?rs" using r by (auto simp: represents_def chained_append)
  have d: "?s \<notin> set ip" "?s \<notin> set iq" using r by (auto simp: represents_def)
  have "chained ?rs' (ip @ ?s # iq) 0"
  proof (rule chained_cong)
    show "chained ?rs (ip @ ?s # iq) 0" using r by (simp add: represents_def)
    then show "i < length ?rs' \<and> nextRangeIndex (?rs' ! i) = nextRangeIndex (?rs ! i)"
      if "i \<in> set (ip @ ?s # iq)" for i
      using that s assms(2) by (auto simp: nth_list_update dest: chained_bound)
  qed
  then have "represents ?rs' (ip @ ?s # iq)" using r by (simp add: represents_def)
  moreover have "items ?rs' ip = items ?rs ip" "items ?rs' iq = items ?rs iq"
    by (rule items_cong; use d in \<open>auto intro!: arg_cong [where f = item_of] nth_list_update_neq\<close>)+
  moreover have "item_of (?rs' ! ?s) = y" using s i(2) assms(3) by simp
  ultimately show ?thesis
    unfolding view_def
    by (intro exI [of _ ip] exI [of _ "?s # iq"]) (simp add: update_self_def i)
qed

lemma update_self_fields [simp]:
  "reachedSelfEnd (update_self f st) = reachedSelfEnd st"
  "otherIterator (update_self f st) = otherIterator st"
  "otherRangeOffset (update_self f st) = otherRangeOffset st"
  by (simp_all add: update_self_def)

lemma next_other_fields [simp]:
  "reachedSelfEnd (next_other st) = reachedSelfEnd st"
  "otherIterator (next_other st) = tl (otherIterator st)"
  "otherRangeOffset (next_other st) = 0"
  "view (next_other st) P Q = view st P Q"
  by (simp_all add: next_other_def view_def)

lemma insert_before_self_fields [simp]:
  "reachedSelfEnd (insert_before_self f l d st) = reachedSelfEnd st"
  "otherIterator (insert_before_self f l d st) = otherIterator st"
  "otherRangeOffset (insert_before_self f l d st) = otherRangeOffset st"
  by (simp_all add: insert_before_self_def split: prod.splits)

lemma view_offset [simp]: "view (st\<lparr>otherRangeOffset := k\<rparr>) P Q = view st P Q"
  by (simp add: view_def)

lemma view_insert:
  assumes "view st P (x # Q)"
  shows "view (insert_before_self f l d st) (P @ [(f, l, d)]) (x # Q)"
proof -
  let ?s = "selfRangeIndex st" and ?rs = "m_ranges st" and ?n = "length (m_ranges st)"
  obtain ip iq where r: "represents ?rs (ip @ ?s # iq)"
    and i: "items ?rs ip = P" "item_of (?rs ! ?s) = x" "items ?rs iq = Q"
      "ip \<noteq> [] \<longrightarrow> lastSelfRangeIndex st = last ip"
    using assms by (rule view_ConsE)
  have ch: "chained ?rs ip ?s" "chained ?rs iq 0" "?s < ?n"
      "nextRangeIndex (?rs ! ?s) = (case iq of [] \<Rightarrow> 0 | j # _ \<Rightarrow> j)"
    and di: "distinct (ip @ ?s # iq)" and se: "set (ip @ ?s # iq) = {..<?n}"
    and hd: "hd (ip @ ?s # iq) = 0"
    using r by (simp_all add: represents_def chained_append)
  have lt: "i < ?n" if "i \<in> set ip \<or> i \<in> set iq" for i using se that by auto
  show ?thesis
  proof (cases "?s = 0")
    case True
    then have ip: "ip = []" using hd di by (cases ip) auto
    define rs' where "rs' = (?rs @ [?rs ! 0])[0 := MutableRange d ?n f l]"
    have st': "insert_before_self f l d st =
        st\<lparr>m_ranges := rs', lastSelfRangeIndex := 0, selfRangeIndex := ?n\<rparr>"
      using True by (simp add: insert_before_self_def insertBetween_def Let_def rs'_def)
    have old: "rs' ! i = ?rs ! i" if "i \<in> set iq" for i
      using that lt di ip True by (auto simp: nth_append nth_list_update rs'_def)
    have new: "rs' ! ?n = ?rs ! 0" "rs' ! 0 = MutableRange d ?n f l" "length rs' = Suc ?n"
      using ch(3) True by (simp_all add: nth_list_update rs'_def)
    have "chained rs' iq 0"
      by (rule chained_cong [OF ch(2)]) (use old new lt in \<open>auto simp: less_SucI\<close>)
    then have "chained rs' (0 # ?n # iq) 0"
      using new ch True by (simp add: MutableRange_def)
    moreover have "distinct (0 # ?n # iq)" 
    proof -
      have "?n \<notin> set iq" using lt by blast
      then show ?thesis using di ip True ch(3) by simp
    qed
    moreover have "set (0 # ?n # iq) = insert ?n (insert 0 (set iq))" by auto
    then have "set (0 # ?n # iq) = {..<length rs'}" using se ip True new by (simp add: lessThan_Suc)
    ultimately have "represents rs' ([0] @ ?n # iq)" by (simp add: represents_def)
    moreover have "items rs' iq = Q" using i(3) old by (auto simp: items_def)
    moreover have "items rs' [0] = P @ [(f, l, d)]"
      using new i ip by (simp add: item_of_def MutableRange_def)
    moreover have "item_of (rs' ! ?n) = x" using new i True by simp
    ultimately show ?thesis
      unfolding view_def st' by (intro exI [of _ "[0]"] exI [of _ "?n # iq"]) simp
  next
    case False
    then have ne: "ip \<noteq> []" using hd by auto
    then obtain ip' k where ip: "ip = ip' @ [k]" by (cases ip rule: rev_cases) auto
    have k: "lastSelfRangeIndex st = k" using i(4) ne ip by simp
    define rs' where "rs' = (?rs @ [MutableRange d ?s f l])[k := (?rs ! k)\<lparr>nextRangeIndex := ?n\<rparr>]"
    have kn: "k < ?n" using lt ip by simp
    have st': "insert_before_self f l d st =
        st\<lparr>m_ranges := rs', lastSelfRangeIndex := ?n, selfRangeIndex := ?s\<rparr>"
      using False k kn by (simp add: insert_before_self_def insertBetween_def Let_def nth_append rs'_def)
    have old: "rs' ! i = ?rs ! i" if "i < ?n" "i \<noteq> k" for i
      using that by (auto simp: nth_append nth_list_update rs'_def)
    have new: "rs' ! ?n = MutableRange d ?s f l" "rs' ! k = (?rs ! k)\<lparr>nextRangeIndex := ?n\<rparr>" "length rs' = Suc ?n"
      using kn by (simp_all add: nth_list_update nth_append rs'_def)
    have it: "item_of (rs' ! i) = item_of (?rs ! i)" if "i < ?n" for i
      using that old new by (cases "i = k") (auto simp: item_of_def)
    have dk: "k \<notin> set ip'" "k \<notin> set iq" "k \<noteq> ?s" using di ip by auto
    have keep: "i < length rs' \<and> nextRangeIndex (rs' ! i) = nextRangeIndex (?rs ! i)"
      if "i \<in> set ip' \<union> set (?s # iq)" for i
    proof -
      have "i < ?n" "i \<noteq> k" using that lt dk ip ch(3) by auto
      then show ?thesis using old new by simp
    qed
    have "chained ?rs ip' k" using ch(1) ip by (simp add: chained_append)
    then have "chained rs' ip' k"
      by (rule chained_cong) (use keep in blast)
    moreover have "chained ?rs (?s # iq) 0" using ch by simp
    then have "chained rs' (?s # iq) 0"
      by (rule chained_cong) (use keep in blast)
    ultimately have "chained rs' (ip' @ k # ?n # ?s # iq) 0"
      using new kn by (simp add: chained_append MutableRange_def)
    moreover have "distinct (ip' @ k # ?n # ?s # iq)" using di ip lt ch(3) by auto
    moreover have "set (ip' @ k # ?n # ?s # iq) = insert ?n (set (ip @ ?s # iq))" using ip by auto
    then have "set (ip' @ k # ?n # ?s # iq) = {..<length rs'}" using se new by (simp add: lessThan_Suc)
    moreover have "hd (ip' @ k # ?n # ?s # iq) = 0" using hd ip by (cases ip') auto
    ultimately have "represents rs' ((ip @ [?n]) @ ?s # iq)" by (simp add: represents_def ip)
    moreover have "items rs' ip = P" "items rs' (?s # iq) = x # Q"
      using i it lt ch(3) by (auto simp: items_def)
    moreover have "item_of (rs' ! ?n) = (f, l, d)" using new by (simp add: item_of_def MutableRange_def)
    ultimately show ?thesis
      unfolding view_def st' by (intro exI [of _ "ip @ [?n]"] exI [of _ "?s # iq"]) simp
  qed
qed

subsection \<open>One iteration is a step of the merge\<close>

fun shifted :: "cchar \<Rightarrow> 'x item list \<Rightarrow> 'x item list" where
  "shifted k [] = []"
| "shifted k ((f, l, d) # ys) = (f + k, l, d) # ys"

lemma shifted_0 [simp]: "shifted 0 ys = ys"
  by (cases ys) auto

lemma to_char_id: "0 \<le> i \<Longrightarrow> i \<le> 127 \<Longrightarrow> to_char i = i"
  by (simp add: to_char_def)

text \<open>
  \<open>loop_inv st R\<close>: the ranges before the active one, followed by the merge of the active one and
  the later ones with what the iterator has left, are \<open>R\<close>.
\<close>

definition loop_inv ::
    "('x \<Rightarrow> 'd) \<Rightarrow> ('d \<Rightarrow> 'x \<Rightarrow> 'd) \<Rightarrow> ('d, 'x) extend_state \<Rightarrow> 'd item list \<Rightarrow> nat \<Rightarrow> bool" where
  "loop_inv cv ex st R n \<longleftrightarrow> (\<exists>P Q. view st P Q \<and> (reachedSelfEnd st \<longleftrightarrow> Q = []) \<and>
     rl_wf 0 Q \<and> rl_wf 0 (otherIterator st) \<and> rl_wf 0 (shifted (otherRangeOffset st) (otherIterator st)) \<and>
     0 \<le> otherRangeOffset st \<and> P @ Q \<noteq> [] \<and>
     R = P @ merge_ranges cv ex Q (shifted (otherRangeOffset st) (otherIterator st)) \<and>
     n = length Q + length (otherIterator st))"

lemma loop_invI:
  assumes "view st P Q" "reachedSelfEnd st \<longleftrightarrow> Q = []" "rl_wf 0 Q" "rl_wf 0 (otherIterator st)"
    "rl_wf 0 (shifted (otherRangeOffset st) (otherIterator st))" "0 \<le> otherRangeOffset st" "P @ Q \<noteq> []"
    "R = P @ merge_ranges cv ex Q (shifted (otherRangeOffset st) (otherIterator st))"
  shows "loop_inv cv ex st R (length Q + length (otherIterator st))"
  using assms unfolding loop_inv_def by blast

text \<open>After \<open>split_left\<close> both ranges start at the same character.\<close>

lemma split_left_view:
  assumes v: "view st P ((f, l, d) # Q)" and o: "otherIterator st = (f', l', d') # ys"
    and k: "otherRangeOffset st = k"
    and ov: "\<not> l < f' + k" "\<not> l' < f" and b: "0 \<le> f" "l \<le> 127" "f \<le> l" "0 \<le> f'" "l' \<le> 127" "f' + k \<le> l'" "0 \<le> k"
  obtains P' g where "view (split_left cv st) P' ((g, l, d) # Q)"
    "otherIterator (split_left cv st) = otherIterator st"
    "reachedSelfEnd (split_left cv st) = reachedSelfEnd st"
    "f' + otherRangeOffset (split_left cv st) = g" "k \<le> otherRangeOffset (split_left cv st)"
    "g \<le> l" "g \<le> l'" "0 \<le> g"
    "P @ merge_ranges cv ex ((f, l, d) # Q) ((f' + k, l', d') # ys) =
     P' @ merge_ranges cv ex ((g, l, d) # Q) ((g, l', d') # ys)"
proof -
  let ?act = "m_ranges st ! selfRangeIndex st"
  have act: "mr_first ?act = f" "mr_last ?act = l" "mr_data ?act = d"
    using view_active [OF v] by (simp_all add: item_of_def)
  consider "f < f' + k" | "f' + k < f" | "f = f' + k" by linarith
  then show thesis
  proof cases
    case 1
    let ?st1 = "update_self (\<lambda>r. r\<lparr>mr_first := f' + k\<rparr>) st"
    have s: "split_left cv st = insert_before_self f (f' + k - 1) d ?st1"
      using 1 o k act by (simp add: split_left_def Let_def)
    have "view ?st1 P ((f' + k, l, d) # Q)"
      by (rule view_update [OF v]) (auto simp: item_of_def)
    then have "view (split_left cv st) (P @ [(f, f' + k - 1, d)]) ((f' + k, l, d) # Q)"
      unfolding s by (rule view_insert)
    then show thesis
      by (rule that) (use 1 o k b ov in \<open>auto simp: s\<close>)
  next
    case 2
    have s: "split_left cv st =
        (insert_before_self (f' + k) (f - 1) (cv d') st)\<lparr>otherRangeOffset := f - f'\<rparr>"
      using 2 o k act b by (simp add: split_left_def Let_def to_char_id)
    have "view (split_left cv st) (P @ [(f' + k, f - 1, cv d')]) ((f, l, d) # Q)"
      unfolding s view_offset by (rule view_insert [OF v])
    then show thesis
      by (rule that) (use 2 o k b ov in \<open>auto simp: s\<close>)
  next
    case 3
    have s: "split_left cv st = st"
      using 3 o k act by (simp add: split_left_def Let_def)
    show thesis
      by (rule that [of P f]) (use 3 v o k b ov in \<open>auto simp: s\<close>)
  qed
qed

lemma merge_overlap_inv:
  assumes v: "view st P ((g, l, d) # Q)" and o: "otherIterator st = (f', l', d') # ys"
    and k: "f' + otherRangeOffset st = g" and r: "\<not> reachedSelfEnd st"
    and wf: "rl_wf (l + 1) Q" "rl_wf (l' + 1) ys"
    and b: "0 \<le> g" "g \<le> l" "g \<le> l'" "l \<le> 127" "l' \<le> 127" "0 \<le> f'" "0 \<le> otherRangeOffset st"
  shows "\<exists>n. n < length Q + length ys + 2 \<and> loop_inv cv ex (merge_overlap ex st)
     (P @ merge_ranges cv ex ((g, l, d) # Q) ((g, l', d') # ys)) n"
proof -
  let ?act = "m_ranges st ! selfRangeIndex st"
  have act: "mr_first ?act = g" "mr_last ?act = l" "mr_data ?act = d"
    using view_active [OF v] by (simp_all add: item_of_def)
  have wf0: "rl_wf 0 Q" "rl_wf 0 ys" using wf b by (auto elim: rl_wf_mono)
  let ?up = "update_self (\<lambda>r. r\<lparr>mr_data := ex (mr_data r) d'\<rparr>) st"
  have up: "view ?up P ((g, l, ex d d') # Q)"
    by (rule view_update [OF v]) (auto simp: item_of_def)
  consider "l = l'" | "l' < l" | "l < l'" by linarith
  then show ?thesis
  proof cases
    case 1
    have s: "merge_overlap ex st = next_other (next_self ?up)"
      using 1 o act by (simp add: merge_overlap_def Let_def)
    show ?thesis
      by (rule exI, rule conjI [rotated], unfold s, rule loop_invI [of _ "P @ [(g, l, ex d d')]" Q])
        (use 1 o wf0 b view_next [OF up] in simp_all)
  next
    case 2
    let ?st1 = "update_self (\<lambda>r. r\<lparr>mr_first := l' + 1\<rparr>) st"
    have s: "merge_overlap ex st = next_other (insert_before_self g l' (ex d d') ?st1)"
      using 2 o act by (simp add: merge_overlap_def Let_def)
    have v1: "view ?st1 P ((l' + 1, l, d) # Q)"
      by (rule view_update [OF v]) (auto simp: item_of_def)
    show ?thesis
      by (rule exI, rule conjI [rotated], unfold s,
          rule loop_invI [of _ "P @ [(g, l', ex d d')]" "(l' + 1, l, d) # Q"])
        (use 2 o r wf wf0 b in \<open>simp_all add: view_insert [OF v1]\<close>)
  next
    case 3
    have s: "merge_overlap ex st = (next_self ?up)\<lparr>otherRangeOffset := l - f' + 1\<rparr>"
      using 3 o act b k by (simp add: merge_overlap_def Let_def to_char_id)
    show ?thesis
      by (rule exI, rule conjI [rotated], unfold s, rule loop_invI [of _ "P @ [(g, l, ex d d')]" Q])
        (use 3 o k b wf wf0 view_next [OF up] in simp_all)
  qed
qed

lemma extend_step_inv:
  assumes inv: "loop_inv cv ex st R n" and go: "\<not> reachedSelfEnd st" "otherIterator st \<noteq> []"
  shows "\<exists>m < n. loop_inv cv ex (extend_step cv ex st) R m"
proof -
  obtain P Q0 where v0: "view st P Q0" and r: "reachedSelfEnd st \<longleftrightarrow> Q0 = []"
    and wf: "rl_wf 0 Q0" "rl_wf 0 (otherIterator st)"
      "rl_wf 0 (shifted (otherRangeOffset st) (otherIterator st))" "0 \<le> otherRangeOffset st"
    and R: "R = P @ merge_ranges cv ex Q0 (shifted (otherRangeOffset st) (otherIterator st))"
    and n: "n = length Q0 + length (otherIterator st)"
    using inv unfolding loop_inv_def by blast
  obtain f l d Q where Q: "Q0 = (f, l, d) # Q" using r go by (cases Q0) auto
  obtain f' l' d' ys where o: "otherIterator st = (f', l', d') # ys"
    using go by (cases "otherIterator st") auto
  define k where "k = otherRangeOffset st"
  have v: "view st P ((f, l, d) # Q)" using v0 Q by simp
  have act: "mr_first (m_ranges st ! selfRangeIndex st) = f" "mr_last (m_ranges st ! selfRangeIndex st) = l"
    using view_active [OF v] by (simp_all add: item_of_def)
  have b: "0 \<le> f" "f \<le> l" "l \<le> 127" "rl_wf (l + 1) Q" "0 \<le> f'" "f' + k \<le> l'" "l' \<le> 127"
    "rl_wf (l' + 1) ys" "0 \<le> k"
    using wf o Q by (simp_all add: k_def)
  have wf0: "rl_wf 0 Q" "rl_wf 0 ys" using b by (auto elim: rl_wf_mono)
  consider "l < f' + k" | "\<not> l < f' + k" "l' < f" | "\<not> l < f' + k" "\<not> l' < f" by blast
  then show ?thesis
  proof cases
    case 1
    have s: "extend_step cv ex st = next_self st"
      using 1 o act by (simp add: extend_step_def Let_def k_def)
    show ?thesis unfolding s
      by (rule exI, rule conjI [rotated], rule loop_invI [of _ "P @ [(f, l, d)]" Q])
        (use 1 o b wf0 wf R Q n view_next [OF v] in \<open>simp_all add: k_def\<close>)
  next
    case 2
    have s: "extend_step cv ex st = next_other (insert_before_self (f' + k) l' (cv d') st)"
      using 2 o act by (simp add: extend_step_def Let_def k_def)
    show ?thesis unfolding s
      by (rule exI, rule conjI [rotated],
          rule loop_invI [of _ "P @ [(f' + k, l', cv d')]" "(f, l, d) # Q"])
        (use 2 o b wf0 wf R Q n go in \<open>simp_all add: view_insert [OF v] k_def\<close>)
  next
    case 3
    have s: "extend_step cv ex st = merge_overlap ex (split_left cv st)"
      using 3 o act by (simp add: extend_step_def Let_def k_def)
    obtain P' g where sp: "view (split_left cv st) P' ((g, l, d) # Q)"
      "otherIterator (split_left cv st) = otherIterator st"
      "reachedSelfEnd (split_left cv st) = reachedSelfEnd st"
      "f' + otherRangeOffset (split_left cv st) = g" "k \<le> otherRangeOffset (split_left cv st)"
      "g \<le> l" "g \<le> l'" "0 \<le> g"
      "P @ merge_ranges cv ex ((f, l, d) # Q) ((f' + k, l', d') # ys) =
       P' @ merge_ranges cv ex ((g, l, d) # Q) ((g, l', d') # ys)"
      using split_left_view [OF v o k_def [symmetric] 3 b(1,3,2,5,7,6,9), of cv ex] by metis
    have "R = P @ merge_ranges cv ex ((f, l, d) # Q) ((f' + k, l', d') # ys)"
      unfolding R Q o k_def by (simp del: merge_ranges.simps)
    then have "R = P' @ merge_ranges cv ex ((g, l, d) # Q) ((g, l', d') # ys)"
      by (rule trans [OF _ sp(9)])
    moreover have "\<exists>m. m < length Q + length ys + 2 \<and> loop_inv cv ex (merge_overlap ex (split_left cv st))
       (P' @ merge_ranges cv ex ((g, l, d) # Q) ((g, l', d') # ys)) m"
      by (rule merge_overlap_inv [OF sp(1) _ sp(4)]) (use sp(2-8) o go b in simp_all)
    ultimately show ?thesis unfolding s using n Q o by (auto simp del: merge_ranges.simps)
  qed
qed

lemma extend_loop_inv:
  assumes "loop_inv cv ex st R n" "\<not> reachedSelfEnd st" "otherIterator st \<noteq> []"
  shows "\<exists>st' m. extend_loop cv ex st = Some st' \<and> loop_inv cv ex st' R m \<and>
    (reachedSelfEnd st' \<or> otherIterator st' = [])"
  using assms
proof (induction n arbitrary: st rule: less_induct)
  case (less n)
  obtain m where m: "m < n" "loop_inv cv ex (extend_step cv ex st) R m"
    using extend_step_inv [OF less.prems] by blast
  let ?st = "extend_step cv ex st"
  show ?case
  proof (cases "\<not> reachedSelfEnd ?st \<and> otherIterator ?st \<noteq> []")
    case True
    then have "extend_loop cv ex st = extend_loop cv ex ?st"
      by (subst extend_loop.simps) (simp add: Let_def)
    then show ?thesis using less.IH [OF m] True by simp
  next
    case False
    then have "extend_loop cv ex st = Some ?st"
      by (subst extend_loop.simps) (auto simp: Let_def)
    then show ?thesis using m(2) False by blast
  qed
qed

subsection \<open>The whole operation\<close>

lemma append_rest_items:
  assumes "represents rs is" "is \<noteq> []" "li = last is"
  shows "\<exists>is'. represents (append_rest cv rs li k ys) is' \<and>
    items (append_rest cv rs li k ys) is' = items rs is @ map (convert_item cv) (shifted k ys)"
  using assms
proof (induction ys arbitrary: rs li k "is")
  case (Cons y ys)
  obtain f l d where y: "y = (f, l, d)" by (cases y)
  obtain is0 where is0: "is = is0 @ [li]" 
    by (rule that [of "butlast is"]) (simp add: Cons.prems)
  let ?n = "length rs"
  have rep: "chained rs is0 li" "nextRangeIndex (rs ! li) = 0" "li < ?n" "distinct (is0 @ [li])"
    "set is = {..<?n}" "hd is = 0"
    using Cons.prems(1) is0 by (simp_all add: represents_def chained_append)
  define rs' where "rs' = (rs @ [MutableRange (cv d) 0 (f + k) l])[li := (rs ! li)\<lparr>nextRangeIndex := ?n\<rparr>]"
  have ap: "appendRange rs li (f + k) l (cv d) = (rs', ?n)"
    using rep(3) by (auto simp: appendRange_def Let_def rs'_def nth_append)
  have old: "rs' ! i = rs ! i" if "i < ?n" "i \<noteq> li" for i
    using that by (simp add: rs'_def nth_append)
  have new: "rs' ! li = (rs ! li)\<lparr>nextRangeIndex := ?n\<rparr>" "rs' ! ?n = MutableRange (cv d) 0 (f + k) l"
    "length rs' = ?n + 1"
    using rep(3) by (simp_all add: rs'_def nth_append)
  have lt: "i < ?n" if "i \<in> set is" for i using that rep by auto
  have "chained rs' is0 li"
  proof (rule chained_cong [OF rep(1)])
    fix i assume "i \<in> set is0"
    then have "i < ?n" "i \<noteq> li" using lt is0 rep(4) by auto
    then show "i < length rs' \<and> nextRangeIndex (rs' ! i) = nextRangeIndex (rs ! i)"
      using old new(3) by simp
  qed
  then have "chained rs' (is @ [?n]) 0"
    unfolding is0 using rep(3) new by (simp add: chained_append MutableRange_def)
  moreover have "distinct (is @ [?n])" using rep(4) lt [of ?n] is0 by (simp; blast)
  moreover have "set (is @ [?n]) = {..<length rs'}" using rep(5) new(3) by (simp add: lessThan_Suc)
  ultimately have "represents rs' (is @ [?n])"
    using rep(6) Cons.prems(2) by (simp add: represents_def)
  moreover have "items rs' (is @ [?n]) = items rs is @ [(f + k, l, cv d)]"
  proof -
    have "item_of (rs' ! i) = item_of (rs ! i)" if "i < ?n" for i
      using that old new(1) by (cases "i = li") (auto simp: item_of_def)
    then have "items rs' is = items rs is" using lt by (auto intro: items_cong)
    then show ?thesis using new by (simp add: item_of_def MutableRange_def)
  qed
  ultimately show ?case
    using Cons.IH [of rs' "is @ [?n]" ?n 0] by (simp add: y ap convert_item_def)
qed auto

lemma initialize_loop_length [simp]: "length (initialize_loop cv k ys) = length ys"
  by (induction cv k ys rule: initialize_loop.induct) auto

lemma initialize_loop_nth:
  "i < length ys \<Longrightarrow> item_of (initialize_loop cv k ys ! i) = convert_item cv (ys ! i) \<and>
     nextRangeIndex (initialize_loop cv k ys ! i) = k + i + 1"
proof (induction cv k ys arbitrary: i rule: initialize_loop.induct)
  case (2 cv k f l d ys)
  then show ?case by (cases i) (auto simp: item_of_def MutableRange_def convert_item_def)
qed simp

lemma chained_upt:
  "(\<And>i. a \<le> i \<Longrightarrow> i < b \<Longrightarrow> i < length rs \<and> nextRangeIndex (rs ! i) = (if i + 1 = b then e else i + 1)) \<Longrightarrow>
   chained rs [a..<b] e"
proof (induction "b - a" arbitrary: a)
  case (Suc n)
  then have ab: "[a..<b] = a # [a + 1..<b]" by (simp add: upt_conv_Cons)
  have "chained rs [a + 1..<b] e" using Suc by simp
  then show ?case using Suc.prems [of a] Suc.hyps unfolding ab by (auto split: list.split simp: upt_eq_Cons_conv)
qed simp

lemma initializeFrom_items:
  assumes "ys \<noteq> []"
  shows "range_list_of (initializeFrom cv ys) (map (convert_item cv) ys)"
proof -
  let ?l = "initialize_loop cv 0 ys" and ?n = "length ys"
  let ?rs = "?l[?n - 1 := (last ?l)\<lparr>nextRangeIndex := 0\<rparr>]"
  have ne: "?l \<noteq> []" using assms by (metis initialize_loop_length length_0_conv)
  have rs: "initializeFrom cv ys = ?rs" using ne by (simp add: initializeFrom_def Let_def)
  have la: "last ?l = ?l ! (?n - 1)" using ne by (simp add: last_conv_nth)
  have "chained ?rs [0..<?n] 0"
    by (rule chained_upt) (use la in \<open>auto simp: nth_list_update initialize_loop_nth\<close>)
  then have "represents ?rs [0..<?n]"
    using assms by (simp add: represents_def hd_upt atLeast0LessThan)
  moreover have "items ?rs [0..<?n] = map (convert_item cv) ys"
    by (rule nth_equalityI)
      (auto simp: items_def nth_list_update la initialize_loop_nth item_of_def
        intro: initialize_loop_nth [unfolded item_of_def, THEN conjunct1])
  ultimately show ?thesis unfolding rs range_list_of_def by blast
qed

theorem extend_refines:
  assumes rs: "range_list_of rs xs" and wf: "rl_wf 0 xs" "rl_wf 0 ys"
  shows "\<exists>rs'. extend_ranges cv ex rs ys = Some rs' \<and> range_list_of rs' (merge_ranges cv ex xs ys)"
proof (cases "ys = [] \<or> rs = []")
  case True
  have "xs = []" if "rs = []" using rs that by (auto simp: range_list_of_def represents_def)
  moreover have "merge_ranges cv ex xs [] = xs" by (cases xs) (simp_all add: convert_item_def)
  ultimately show ?thesis using True rs
    by (cases "ys = []") (auto simp: extend_ranges_def initializeFrom_items)
next
  case False
  obtain "is" where isl: "represents rs is" "items rs is = xs" using rs by (auto simp: range_list_of_def)
  have ne: "is \<noteq> []"
  proof
    assume "is = []"
    then have "{..<length rs} = {}" using isl(1) by (simp add: represents_def)
    then show False using False by (simp add: lessThan_empty_iff)
  qed
  have h0: "hd is = 0" using isl(1) ne by (simp add: represents_def)
  let ?st = "\<lparr>m_ranges = rs, reachedSelfEnd = False, lastSelfRangeIndex = 0, selfRangeIndex = 0,
    otherIterator = ys, otherRangeOffset = 0\<rparr>"
  have "view ?st [] xs" unfolding view_def by (rule exI [of _ "[]"], rule exI [of _ "is"]) (use isl h0 in simp)
  then have "loop_inv cv ex ?st (merge_ranges cv ex xs ys) (length xs + length (otherIterator ?st))"
    by (rule loop_invI) (use wf isl ne in auto)
  then obtain st' m where st': "extend_loop cv ex ?st = Some st'"
    "loop_inv cv ex st' (merge_ranges cv ex xs ys) m" "reachedSelfEnd st' \<or> otherIterator st' = []"
    using extend_loop_inv [of cv ex ?st "merge_ranges cv ex xs ys" "length xs + length (otherIterator ?st)"] False
    by auto
  obtain P Q where v: "view st' P Q" and Q: "reachedSelfEnd st' \<longleftrightarrow> Q = []" and PQ: "P @ Q \<noteq> []"
    and R: "merge_ranges cv ex xs ys = P @ merge_ranges cv ex Q (shifted (otherRangeOffset st') (otherIterator st'))"
    using st'(2) unfolding loop_inv_def by blast
  obtain ip iq where ip: "represents (m_ranges st') (ip @ iq)" "items (m_ranges st') ip = P"
    "items (m_ranges st') iq = Q" "ip \<noteq> [] \<longrightarrow> lastSelfRangeIndex st' = last ip"
    using v unfolding view_def by blast
  let ?rs = "append_rest cv (m_ranges st') (lastSelfRangeIndex st') (otherRangeOffset st') (otherIterator st')"
  have "range_list_of ?rs (merge_ranges cv ex xs ys)"
  proof (cases "Q = []")
    case True
    then have "iq = []" "ip \<noteq> []" using ip PQ by auto
    then show ?thesis
      using append_rest_items [of "m_ranges st'" ip "lastSelfRangeIndex st'" cv "otherRangeOffset st'" "otherIterator st'"]
        ip R True unfolding range_list_of_def by simp
  next
    case False
    then have o: "otherIterator st' = []" using st'(3) Q by simp
    have "merge_ranges cv ex Q [] = Q" using False by (cases Q) auto
    then have "range_list_of (m_ranges st') (merge_ranges cv ex xs ys)"
      using ip R o unfolding range_list_of_def by (intro exI [of _ "ip @ iq"]) simp
    then show ?thesis using o by simp
  qed
  then show ?thesis using st'(1) False by (simp add: extend_ranges_def)
qed

text \<open>Iteration delivers exactly the represented list.\<close>

lemma iterate_from_chain:
  assumes "chained rs is 0" "is \<noteq> []" "0 \<notin> set (tl is)"
  shows "iterate_from rs (hd is) = Some (map ((!) rs) is)"
  using assms
proof (induction "is")
  case (Cons i "is")
  show ?case
  proof (cases "is")
    case Nil
    then show ?thesis using Cons.prems by (subst iterate_from.simps) (simp add: Let_def)
  next
    case (Cons j js)
    moreover have "iterate_from rs j = Some (map ((!) rs) is)"
      using Cons.IH Cons Cons.prems by simp
    ultimately show ?thesis using Cons.prems by (subst iterate_from.simps) (simp add: Let_def)
  qed
qed simp

lemma iterate_ranges_items:
  assumes "range_list_of rs xs"
  shows "\<exists>ms. iterate_ranges rs = Some ms \<and> map item_of ms = xs"
proof -
  obtain "is" where isl: "represents rs is" "items rs is = xs" using assms by (auto simp: range_list_of_def)
  show ?thesis
  proof (cases "is")
    case Nil
    then have "rs = []" using isl by (auto simp: represents_def)
    then show ?thesis using isl Nil by (simp add: iterate_ranges_def)
  next
    case (Cons i js)
    then have "rs \<noteq> []" "i = 0" "0 \<notin> set js" using isl by (auto simp: represents_def)
    moreover have "iterate_from rs (hd is) = Some (map ((!) rs) is)"
      using isl Cons calculation by (intro iterate_from_chain) (auto simp: represents_def)
    ultimately show ?thesis using isl Cons by (simp add: iterate_ranges_def items_def comp_def)
  qed
qed

section \<open>Extending with several sequences\<close>

text \<open>The clients call \<open>extend\<close> once for each of their nodes.\<close>

fun extend_all ::
    "('x \<Rightarrow> 'd) \<Rightarrow> ('d \<Rightarrow> 'x \<Rightarrow> 'd) \<Rightarrow> 'd mrange list \<Rightarrow> 'x item list list \<Rightarrow> 'd mrange list option" where
  "extend_all convert extendData ranges [] = Some ranges"
| "extend_all convert extendData ranges (others # rest) =
     Option.bind (extend_ranges convert extendData ranges others)
       (\<lambda>ranges'. extend_all convert extendData ranges' rest)"

lemma rl_wf_foldl_merge:
  "rl_wf 0 xs \<Longrightarrow> list_all (rl_wf 0) yss \<Longrightarrow> rl_wf 0 (foldl (merge_ranges cv ex) xs yss)"
  by (induction yss arbitrary: xs) (auto intro: rl_wf_merge_ranges)

lemma extend_all_refines:
  assumes "range_list_of rs xs" "rl_wf 0 xs" "list_all (rl_wf 0) yss"
  shows "\<exists>rs'. extend_all cv ex rs yss = Some rs' \<and> range_list_of rs' (foldl (merge_ranges cv ex) xs yss)"
  using assms
proof (induction yss arbitrary: rs xs)
  case (Cons ys yss)
  then obtain rs1 where "extend_ranges cv ex rs ys = Some rs1" "range_list_of rs1 (merge_ranges cv ex xs ys)"
    using extend_refines [of rs xs ys cv ex] by auto
  moreover have "rl_wf 0 (merge_ranges cv ex xs ys)" using Cons.prems by (simp add: rl_wf_merge_ranges)
  ultimately show ?case using Cons.IH Cons.prems by simp
qed auto

lemma range_list_of_Nil: "range_list_of [] []"
  by (simp add: range_list_of_def represents_def)

lemma merge_ranges_all:
  assumes "list_all (\<lambda>(f, l, d). P d) xs" "list_all (\<lambda>(f, l, d). Q d) ys"
    and "\<And>d. Q d \<Longrightarrow> P (cv d)" "\<And>d d'. P d \<Longrightarrow> Q d' \<Longrightarrow> P (ex d d')"
  shows "list_all (\<lambda>(f, l, d). P d) (merge_ranges cv ex xs ys)"
  using assms
proof (induction cv ex xs ys rule: merge_ranges.induct)
  case (3 cv ex f l d xs f' l' d' ys)
  note a = 3(8-11)
  consider "l < f'" | "\<not> l < f'" "l' < f" | "\<not> l < f'" "\<not> l' < f" "f < f'"
    | "\<not> l < f'" "\<not> l' < f" "\<not> f < f'" "f' < f"
    | "\<not> l < f'" "\<not> l' < f" "f = f'" "l = l'" | "\<not> l < f'" "\<not> l' < f" "f = f'" "l' < l"
    | "\<not> l < f'" "\<not> l' < f" "f = f'" "l < l'"
    by linarith
  then show ?case
  proof cases
    case 1
    then show ?thesis using a 3(1) by simp
  next
    case 2
    then show ?thesis using a 3(2) by simp
  next
    case h: 3
    then show ?thesis using a 3(3) by simp
  next
    case 4
    then show ?thesis using a 3(4) by simp
  next
    case 5
    then show ?thesis using a 3(5) by simp
  next
    case 6
    then show ?thesis using a 3(6) by simp
  next
    case 7
    then show ?thesis using a 3(7) by simp
  qed
qed (auto simp: list_all_iff convert_item_def)

section \<open>The contract of a data converter\<close>

definition data_at :: "('d \<Rightarrow> 'a set) \<Rightarrow> 'd item list \<Rightarrow> cchar \<Rightarrow> 'a set" where
  "data_at f xs c = (case rl_lookup xs c of None \<Rightarrow> {} | Some d \<Rightarrow> f d)"

definition ok_items :: "('d \<Rightarrow> bool) \<Rightarrow> 'd item list \<Rightarrow> bool" where
  "ok_items P xs \<longleftrightarrow> rl_wf 0 xs \<and> list_all (\<lambda>(f, l, d). P d) xs"

lemma ok_items_Nil [simp]: "ok_items P []"
  by (simp add: ok_items_def)

lemma data_at_Nil [simp]: "data_at f [] c = {}"
  by (simp add: data_at_def)

lemma rl_lookup_all: "list_all (\<lambda>(f, l, d). P d) xs \<Longrightarrow> rl_lookup xs c = Some d \<Longrightarrow> P d"
  by (induction xs) (auto split: if_splits)

text \<open>
  What \<open>extend\<close> relies on in its \<open>DataConverter\<close>: the data of the list stands for a set, the data of
  the iterator contributes a set, \<open>convert\<close> starts with the contribution and \<open>extend\<close> adds it. The
  data may have an invariant of its own.
\<close>

locale range_data =
  fixes convert :: "'x \<Rightarrow> 'd" and extendData :: "'d \<Rightarrow> 'x \<Rightarrow> 'd"
    and ok :: "'d \<Rightarrow> bool" and arg :: "'x \<Rightarrow> bool"
    and meaning :: "'d \<Rightarrow> 'a set" and contribution :: "'x \<Rightarrow> 'a set"
  assumes ok_convert: "arg x \<Longrightarrow> ok (convert x)"
    and ok_extend: "ok d \<Longrightarrow> arg x \<Longrightarrow> ok (extendData d x)"
    and convert_meaning: "arg x \<Longrightarrow> meaning (convert x) = contribution x"
    and extend_meaning: "ok d \<Longrightarrow> arg x \<Longrightarrow> meaning (extendData d x) = meaning d \<union> contribution x"
begin

lemma merge_ok: "ok_items ok xs \<Longrightarrow> ok_items arg ys \<Longrightarrow> ok_items ok (merge_ranges convert extendData xs ys)"
  unfolding ok_items_def
  by (auto intro: rl_wf_merge_ranges merge_ranges_all [where Q = arg] ok_convert ok_extend)

lemma merge_meaning:
  assumes "ok_items ok xs" "ok_items arg ys"
  shows "data_at meaning (merge_ranges convert extendData xs ys) c =
    data_at meaning xs c \<union> data_at contribution ys c"
proof -
  have "rl_lookup (merge_ranges convert extendData xs ys) c =
      merge_data convert extendData (rl_lookup xs c) (rl_lookup ys c)"
    using assms by (auto simp: ok_items_def intro: lookup_merge_ranges)
  moreover have "rl_lookup xs c = Some d \<Longrightarrow> ok d" for d
    using assms(1) by (auto simp: ok_items_def intro: rl_lookup_all)
  moreover have "rl_lookup ys c = Some x \<Longrightarrow> arg x" for x
    using assms(2) by (auto simp: ok_items_def intro: rl_lookup_all)
  ultimately show ?thesis
    by (cases "rl_lookup xs c"; cases "rl_lookup ys c") (simp_all add: data_at_def convert_meaning extend_meaning)
qed

lemma foldl_merge_ok:
  "ok_items ok xs \<Longrightarrow> list_all (ok_items arg) yss \<Longrightarrow>
   ok_items ok (foldl (merge_ranges convert extendData) xs yss)"
  by (induction yss arbitrary: xs) (auto intro: merge_ok)

lemma foldl_merge_meaning:
  "ok_items ok xs \<Longrightarrow> list_all (ok_items arg) yss \<Longrightarrow>
   data_at meaning (foldl (merge_ranges convert extendData) xs yss) c =
   data_at meaning xs c \<union> (\<Union>ys \<in> set yss. data_at contribution ys c)"
  by (induction yss arbitrary: xs) (auto simp: merge_ok merge_meaning)

text \<open>Extending the linked vector: the call returns, and each character gets the union.\<close>

lemma extend_all_meaning:
  assumes "range_list_of rs xs" "ok_items ok xs" "list_all (ok_items arg) yss"
  shows "\<exists>rs' xs'. extend_all convert extendData rs yss = Some rs' \<and> range_list_of rs' xs' \<and>
    ok_items ok xs' \<and>
    (\<forall>c. data_at meaning xs' c = data_at meaning xs c \<union> (\<Union>ys \<in> set yss. data_at contribution ys c))"
proof -
  let ?xs = "foldl (merge_ranges convert extendData) xs yss"
  have "list_all (rl_wf 0) yss" using assms(3) by (auto simp: list_all_iff ok_items_def)
  moreover have "rl_wf 0 xs" using assms(2) by (simp add: ok_items_def)
  ultimately obtain rs' where rs': "extend_all convert extendData rs yss = Some rs'" "range_list_of rs' ?xs"
    using extend_all_refines [OF assms(1), of yss convert extendData] by blast
  show ?thesis
    by (rule exI [of _ rs'], rule exI [of _ ?xs])
      (simp add: rs' foldl_merge_ok [OF assms(2,3)] foldl_merge_meaning [OF assms(2,3)])
qed

end

section \<open>Merging, character by character\<close>

text \<open>
  C5. For every converter, \<open>extend\<close> returns on every well-formed list; the result is again a
  well-formed list whose chain of links visits every element of the vector once, with sorted
  disjoint ranges, and each character has the converted data where only the other sequence
  covers it, its old data where only the list does, and the extended data where both do.
\<close>

theorem extend_ranges_lookup:
  assumes "range_list_of rs xs" "rl_wf 0 xs" "rl_wf 0 ys"
  shows "\<exists>rs' xs'. extend_ranges cv ex rs ys = Some rs' \<and> range_list_of rs' xs' \<and> rl_wf 0 xs' \<and>
    (\<forall>c. rl_lookup xs' c = merge_data cv ex (rl_lookup xs c) (rl_lookup ys c))"
proof -
  obtain rs' where "extend_ranges cv ex rs ys = Some rs'" "range_list_of rs' (merge_ranges cv ex xs ys)"
    using extend_refines [OF assms, of cv ex] by blast
  then show ?thesis
    using rl_wf_merge_ranges [OF assms(2,3)] lookup_merge_ranges [OF assms(2,3)]
    by (intro exI [of _ rs'] exI [of _ "merge_ranges cv ex xs ys"]) simp
qed

theorem extend_ranges_lookup_witness:
  "\<exists>rs' xs'. extend_ranges (\<lambda>x. [x]) (\<lambda>d x. d @ [x]) [MutableRange [1 :: nat] 0 97 100] [(99, 110, 2)] = Some rs' \<and>
     range_list_of rs' xs' \<and> rl_wf 0 xs' \<and>
     rl_lookup xs' 98 = Some [1] \<and> rl_lookup xs' 99 = Some [1, 2] \<and> rl_lookup xs' 101 = Some [2] \<and>
     rl_lookup xs' 111 = None"
proof -
  have r: "range_list_of [MutableRange [1 :: nat] 0 97 100] [(97, 100, [1])]"
    unfolding range_list_of_def
    by (rule exI [of _ "[0]"]) (auto simp: represents_def MutableRange_def item_of_def)
  have w: "rl_wf 0 [(97, 100, [1 :: nat])]" "rl_wf 0 [(99, 110, 2 :: nat)]" by simp_all
  obtain rs' xs' where x: "extend_ranges (\<lambda>x. [x]) (\<lambda>d x. d @ [x]) [MutableRange [1 :: nat] 0 97 100] [(99, 110, 2)] = Some rs'"
    "range_list_of rs' xs'" "rl_wf 0 xs'"
    "\<forall>c. rl_lookup xs' c = merge_data (\<lambda>x. [x]) (\<lambda>d x. d @ [x]) (rl_lookup [(97, 100, [1 :: nat])] c) (rl_lookup [(99, 110, 2)] c)"
    using extend_ranges_lookup [OF r w, of "\<lambda>x. [x]" "\<lambda>d x. d @ [x]"] by blast
  then show ?thesis by (intro exI [of _ rs'] exI [of _ xs']) simp
qed

end
