(* ===== verification/Nfa.thy ===== *)
theory Nfa
  imports Range_List "HOL-Library.Sublist"
begin

text \<open>
  \<open>ImmutableNFA.h\<close>, \<open>NFA.h\<close> and \<open>ImmutableNFANodeBuilder.h\<close>: the compact NFA, whose nodes
  are slices of shared vectors, and the builders that collect the edges of one node and write
  them into the NFA when they are finalised. Between the two, the edges of a node live in its
  builder. The lemmas describe both by one set of labelled edges: adding a transition adds
  edges, and finalising moves the builder's edges into the NFA without changing the union.
\<close>

section \<open>Data\<close>

record ImmutableRange =
  targetStart :: nat
  targetEnd :: nat
  ir_first :: cchar
  ir_last :: cchar

record ImmutableNFANode =
  rangesStart :: nat
  rangesEnd :: nat
  epsilonTransitionTargetsStart :: nat
  epsilonTransitionTargetsEnd :: nat
  actionStart :: nat
  actionEnd :: nat

record NFA =
  nfa_nodes :: "ImmutableNFANode list"
  nfa_transitions :: "ImmutableRange list"
  targets :: "nat list"
  epsilonTransitionsTargets :: "nat list"
  nfa_actions :: "u64 list"

definition ImmutableNFANode_new :: ImmutableNFANode where
  "ImmutableNFANode_new = \<lparr>rangesStart = 0, rangesEnd = 0, epsilonTransitionTargetsStart = 0,
     epsilonTransitionTargetsEnd = 0, actionStart = 0, actionEnd = 0\<rparr>"

definition NFA_new :: NFA where
  "NFA_new = \<lparr>nfa_nodes = [], nfa_transitions = [], targets = [], epsilonTransitionsTargets = [],
     nfa_actions = []\<rparr>"

definition IterableConstTargets :: "NFA \<Rightarrow> ImmutableRange \<Rightarrow> nat list" where
  "IterableConstTargets nfa r = vec_slice (targetStart r) (targetEnd r - targetStart r) (targets nfa)"

definition range_item :: "NFA \<Rightarrow> ImmutableRange \<Rightarrow> nat list item" where
  "range_item nfa r = (ir_first r, ir_last r, IterableConstTargets nfa r)"

definition transitionsForNode :: "NFA \<Rightarrow> nat \<Rightarrow> nat list item list" where
  "transitionsForNode nfa nodeId =
     (let node = nfa_nodes nfa ! nodeId in
      map (range_item nfa)
        (vec_slice (rangesStart node) (rangesEnd node - rangesStart node) (nfa_transitions nfa)))"

definition epsilonTargets :: "NFA \<Rightarrow> nat \<Rightarrow> nat list" where
  "epsilonTargets nfa nodeId =
     (let node = nfa_nodes nfa ! nodeId in
      vec_slice (epsilonTransitionTargetsStart node)
        (epsilonTransitionTargetsEnd node - epsilonTransitionTargetsStart node)
        (epsilonTransitionsTargets nfa))"

definition actionsOfNode :: "NFA \<Rightarrow> nat \<Rightarrow> u64 list" where
  "actionsOfNode nfa nodeId =
     (let node = nfa_nodes nfa ! nodeId in
      vec_slice (actionStart node) (actionEnd node - actionStart node) (nfa_actions nfa))"

text \<open>\<open>root()\<close> release-asserts that there is a node.\<close>

definition NFA_root :: "NFA \<Rightarrow> nat option" where
  "NFA_root nfa = (if nfa_nodes nfa = [] then None else Some 0)"

section \<open>Node builders\<close>

record NodeBuilder =
  bd_valid :: bool
  bd_ranges :: "nat list mrange list"
  m_epsilonTransitionTargets :: "nat list"
  m_actions :: "u64 list"
  m_nodeId :: nat
  m_finalized :: bool

definition NodeBuilder_invalid :: NodeBuilder where
  "NodeBuilder_invalid = \<lparr>bd_valid = False, bd_ranges = [], m_epsilonTransitionTargets = [],
     m_actions = [], m_nodeId = 0, m_finalized = True\<rparr>"

definition NodeBuilder_new :: "NFA \<Rightarrow> NodeBuilder \<times> NFA" where
  "NodeBuilder_new nfa =
     (\<lparr>bd_valid = True, bd_ranges = [], m_epsilonTransitionTargets = [], m_actions = [],
       m_nodeId = length (nfa_nodes nfa), m_finalized = False\<rparr>,
      nfa\<lparr>nfa_nodes := nfa_nodes nfa @ [ImmutableNFANode_new]\<rparr>)"

definition converter_convert :: "nat \<Rightarrow> nat list" where
  "converter_convert target = hs_add target []"

definition converter_extend :: "nat list \<Rightarrow> nat \<Rightarrow> nat list" where
  "converter_extend existingTargets target = hs_add target existingTargets"

definition addTransition :: "cchar \<Rightarrow> cchar \<Rightarrow> nat \<Rightarrow> NodeBuilder \<Rightarrow> NodeBuilder option" where
  "addTransition first lst targetNodeId b =
     map_option (\<lambda>ranges. b\<lparr>bd_ranges := ranges\<rparr>)
       (extend_ranges converter_convert converter_extend (bd_ranges b) [(first, lst, targetNodeId)])"

definition addEpsilonTransition :: "nat \<Rightarrow> NodeBuilder \<Rightarrow> NodeBuilder" where
  "addEpsilonTransition targetNodeId b =
     b\<lparr>m_epsilonTransitionTargets := hs_add targetNodeId (m_epsilonTransitionTargets b)\<rparr>"

definition NodeBuilder_setActions :: "u64 list \<Rightarrow> NodeBuilder \<Rightarrow> NodeBuilder" where
  "NodeBuilder_setActions as b = b\<lparr>m_actions := hs_add_all as (m_actions b)\<rparr>"

definition update_node :: "nat \<Rightarrow> (ImmutableNFANode \<Rightarrow> ImmutableNFANode) \<Rightarrow> NFA \<Rightarrow> NFA" where
  "update_node i f nfa = nfa\<lparr>nfa_nodes := (nfa_nodes nfa)[i := f (nfa_nodes nfa ! i)]\<rparr>"

definition sinkActions :: "NodeBuilder \<Rightarrow> NFA \<Rightarrow> NFA" where
  "sinkActions b nfa =
     (let start = length (nfa_actions nfa);
          nfa' = nfa\<lparr>nfa_actions := nfa_actions nfa @ m_actions b\<rparr>
      in update_node (m_nodeId b)
           (\<lambda>n. n\<lparr>actionStart := start, actionEnd := length (nfa_actions nfa')\<rparr>) nfa')"

definition sinkEpsilonTransitions :: "NodeBuilder \<Rightarrow> NFA \<Rightarrow> NFA" where
  "sinkEpsilonTransitions b nfa =
     (let start = length (epsilonTransitionsTargets nfa);
          nfa' = nfa\<lparr>epsilonTransitionsTargets :=
            epsilonTransitionsTargets nfa @ m_epsilonTransitionTargets b\<rparr>
      in update_node (m_nodeId b)
           (\<lambda>n. n\<lparr>epsilonTransitionTargetsStart := start,
                  epsilonTransitionTargetsEnd := length (epsilonTransitionsTargets nfa')\<rparr>) nfa')"

fun sink_ranges :: "nat list mrange list \<Rightarrow> NFA \<Rightarrow> NFA" where
  "sink_ranges [] nfa = nfa"
| "sink_ranges (rng # ranges) nfa =
     (let targetsStart = length (targets nfa);
          nfa' = nfa\<lparr>targets := targets nfa @ mr_data rng\<rparr>
      in sink_ranges ranges
           (nfa'\<lparr>nfa_transitions := nfa_transitions nfa' @
              [\<lparr>targetStart = targetsStart, targetEnd = length (targets nfa'),
                ir_first = mr_first rng, ir_last = mr_last rng\<rparr>]\<rparr>))"

definition sinkTransitions :: "NodeBuilder \<Rightarrow> NFA \<Rightarrow> NFA option" where
  "sinkTransitions b nfa =
     Option.bind (iterate_ranges (bd_ranges b)) (\<lambda>ranges.
       let start = length (nfa_transitions nfa);
           nfa' = sink_ranges ranges nfa
       in Some (update_node (m_nodeId b)
            (\<lambda>n. n\<lparr>rangesStart := start, rangesEnd := length (nfa_transitions nfa')\<rparr>) nfa'))"

definition NodeBuilder_finalize :: "NodeBuilder \<Rightarrow> NFA \<Rightarrow> NFA option" where
  "NodeBuilder_finalize b nfa = sinkTransitions b (sinkEpsilonTransitions b (sinkActions b nfa))"


definition NodeBuilder_destroy :: "NodeBuilder \<Rightarrow> NFA \<Rightarrow> NFA option" where
  "NodeBuilder_destroy b nfa = (if m_finalized b then Some nfa else NodeBuilder_finalize b nfa)"

text \<open>Move assignment: the old builder is finalised, the new one takes its place.\<close>

definition NodeBuilder_assign :: "NodeBuilder \<Rightarrow> NodeBuilder \<Rightarrow> NFA \<Rightarrow> (NodeBuilder \<times> NFA) option" where
  "NodeBuilder_assign old new nfa = map_option (\<lambda>nfa'. (new, nfa')) (NodeBuilder_destroy old nfa)"

section \<open>Edges\<close>

type_synonym edge = "nat \<times> cchar option \<times> nat"

definition node_edges :: "nat \<Rightarrow> nat list \<Rightarrow> nat list item list \<Rightarrow> edge set" where
  "node_edges p es ts = {(p', l, q). p' = p \<and>
     (case l of None \<Rightarrow> q \<in> set es | Some c \<Rightarrow> q \<in> data_at set ts c)}"

definition nfa_edges :: "NFA \<Rightarrow> edge set" where
  "nfa_edges nfa = (\<Union>p \<in> {..<length (nfa_nodes nfa)}.
     node_edges p (epsilonTargets nfa p) (transitionsForNode nfa p))"

definition nfa_acts :: "NFA \<Rightarrow> (nat \<times> u64) set" where
  "nfa_acts nfa = {(p, a). p < length (nfa_nodes nfa) \<and> a \<in> set (actionsOfNode nfa p)}"

definition builder_items :: "NodeBuilder \<Rightarrow> nat list item list" where
  "builder_items b = (case iterate_ranges (bd_ranges b) of None \<Rightarrow> [] | Some ms \<Rightarrow> map item_of ms)"

definition builder_edges :: "NodeBuilder \<Rightarrow> edge set" where
  "builder_edges b = node_edges (m_nodeId b) (m_epsilonTransitionTargets b) (builder_items b)"

definition builder_acts :: "NodeBuilder \<Rightarrow> (nat \<times> u64) set" where
  "builder_acts b = {(p, a). p = m_nodeId b \<and> a \<in> set (m_actions b)}"

text \<open>The paths of a graph and the words they read.\<close>

inductive gpath :: "edge set \<Rightarrow> nat \<Rightarrow> cchar list \<Rightarrow> nat \<Rightarrow> bool" for E where
  gpath_refl: "gpath E p [] p"
| gpath_eps: "(p, None, q) \<in> E \<Longrightarrow> gpath E q w r \<Longrightarrow> gpath E p w r"
| gpath_chr: "(p, Some c, q) \<in> E \<Longrightarrow> gpath E q w r \<Longrightarrow> gpath E p (c # w) r"

definition nfa_matches :: "NFA \<Rightarrow> cchar list \<Rightarrow> u64 set" where
  "nfa_matches nfa cs = {a. \<exists>w q. prefix w cs \<and> gpath (nfa_edges nfa) 0 w q \<and> (q, a) \<in> nfa_acts nfa}"

section \<open>Invariants\<close>

definition slice_ok :: "nat \<Rightarrow> nat \<Rightarrow> 'a list \<Rightarrow> bool" where
  "slice_ok i j xs \<longleftrightarrow> i \<le> j \<and> j \<le> length xs"

definition targets_ok :: "nat \<Rightarrow> nat list \<Rightarrow> bool" where
  "targets_ok n ts \<longleftrightarrow> ts \<noteq> [] \<and> (\<forall>t \<in> set ts. t < n)"

definition node_ok :: "NFA \<Rightarrow> nat \<Rightarrow> bool" where
  "node_ok nfa p \<longleftrightarrow>
     (let node = nfa_nodes nfa ! p; n = length (nfa_nodes nfa) in
      slice_ok (rangesStart node) (rangesEnd node) (nfa_transitions nfa) \<and>
      slice_ok (epsilonTransitionTargetsStart node) (epsilonTransitionTargetsEnd node)
        (epsilonTransitionsTargets nfa) \<and>
      slice_ok (actionStart node) (actionEnd node) (nfa_actions nfa) \<and>
      ok_items (targets_ok n) (transitionsForNode nfa p) \<and>
      (\<forall>t \<in> set (epsilonTargets nfa p). t < n))"

definition nfa_wf :: "NFA \<Rightarrow> bool" where
  "nfa_wf nfa \<longleftrightarrow> list_all (node_ok nfa) [0..<length (nfa_nodes nfa)] \<and>
     list_all (\<lambda>r. slice_ok (targetStart r) (targetEnd r) (targets nfa)) (nfa_transitions nfa)"

definition builder_ok :: "NFA \<Rightarrow> NodeBuilder \<Rightarrow> bool" where
  "builder_ok nfa b \<longleftrightarrow> bd_valid b \<and> \<not> m_finalized b \<and> m_nodeId b < length (nfa_nodes nfa) \<and>
     nfa_nodes nfa ! m_nodeId b = ImmutableNFANode_new \<and>
     range_list_of (bd_ranges b) (builder_items b) \<and>
     ok_items (targets_ok (length (nfa_nodes nfa))) (builder_items b) \<and>
     (\<forall>t \<in> set (m_epsilonTransitionTargets b). t < length (nfa_nodes nfa))"

section \<open>Paths\<close>

lemma gpath_mono: "gpath E p w q \<Longrightarrow> E \<subseteq> E' \<Longrightarrow> gpath E' p w q"
  by (induction rule: gpath.induct) (auto intro: gpath.intros)

lemma gpath_append: "gpath E p u q \<Longrightarrow> gpath E q v r \<Longrightarrow> gpath E p (u @ v) r"
  by (induction rule: gpath.induct) (auto intro: gpath.intros)

lemma gpath_edge_eps: "(p, None, q) \<in> E \<Longrightarrow> gpath E p [] q"
  by (auto intro: gpath.intros)

lemma gpath_edge_chr: "(p, Some c, q) \<in> E \<Longrightarrow> gpath E p [c] q"
  by (auto intro: gpath.intros)

lemma gpath_snoc_eps: "gpath E p w q \<Longrightarrow> (q, None, r) \<in> E \<Longrightarrow> gpath E p w r"
  using gpath_append [of E p w q "[]" r] by (auto intro: gpath_edge_eps)

lemma gpath_snoc_chr: "gpath E p w q \<Longrightarrow> (q, Some c, r) \<in> E \<Longrightarrow> gpath E p (w @ [c]) r"
  by (auto intro: gpath_append gpath_edge_chr)

section \<open>Builder lemmas\<close>

interpretation builder: range_data converter_convert converter_extend
  "targets_ok n" "\<lambda>t. t < n" set "\<lambda>t. {t}" for n
  by unfold_locales (auto simp: converter_convert_def converter_extend_def targets_ok_def hs_add_def)

lemma builder_items_eq: "range_list_of (bd_ranges b) xs \<Longrightarrow> builder_items b = xs"
  by (auto simp: builder_items_def dest!: iterate_ranges_items)

subsection \<open>Appending to the shared vectors\<close>

definition appended :: "NFA \<Rightarrow> NFA \<Rightarrow> bool" where
  "appended nfa nfa' \<longleftrightarrow> prefix (nfa_transitions nfa) (nfa_transitions nfa') \<and>
     prefix (targets nfa) (targets nfa') \<and>
     prefix (epsilonTransitionsTargets nfa) (epsilonTransitionsTargets nfa') \<and>
     prefix (nfa_actions nfa) (nfa_actions nfa')"

lemma vec_slice_prefix: "slice_ok i j xs \<Longrightarrow> prefix xs ys \<Longrightarrow> vec_slice i (j - i) ys = vec_slice i (j - i) xs"
  by (auto simp: slice_ok_def prefix_def vec_slice_def)

lemma slice_ok_prefix: "slice_ok i j xs \<Longrightarrow> prefix xs ys \<Longrightarrow> slice_ok i j ys"
  by (auto simp: slice_ok_def prefix_def)

lemma vec_slice_subset: "set (vec_slice i n xs) \<subseteq> set xs"
  by (auto simp: vec_slice_def dest: in_set_takeD in_set_dropD)

lemma nfa_wf_node: "nfa_wf nfa \<Longrightarrow> p < length (nfa_nodes nfa) \<Longrightarrow> node_ok nfa p"
  by (auto simp: nfa_wf_def list_all_iff)

lemma node_view_appended:
  assumes "nfa_wf nfa" "appended nfa nfa'" "p < length (nfa_nodes nfa)"
    "nfa_nodes nfa' ! p = nfa_nodes nfa ! p"
  shows "transitionsForNode nfa' p = transitionsForNode nfa p"
    "epsilonTargets nfa' p = epsilonTargets nfa p" "actionsOfNode nfa' p = actionsOfNode nfa p"
proof -
  let ?n = "nfa_nodes nfa ! p"
  have sl: "slice_ok (rangesStart ?n) (rangesEnd ?n) (nfa_transitions nfa)"
    "slice_ok (epsilonTransitionTargetsStart ?n) (epsilonTransitionTargetsEnd ?n) (epsilonTransitionsTargets nfa)"
    "slice_ok (actionStart ?n) (actionEnd ?n) (nfa_actions nfa)"
    using nfa_wf_node [OF assms(1,3)] by (simp_all add: node_ok_def Let_def)
  have pf: "prefix (nfa_transitions nfa) (nfa_transitions nfa')" "prefix (targets nfa) (targets nfa')"
    "prefix (epsilonTransitionsTargets nfa) (epsilonTransitionsTargets nfa')"
    "prefix (nfa_actions nfa) (nfa_actions nfa')"
    using assms(2) by (simp_all add: appended_def)
  let ?rs = "vec_slice (rangesStart ?n) (rangesEnd ?n - rangesStart ?n) (nfa_transitions nfa)"
  have "range_item nfa' r = range_item nfa r" if "r \<in> set ?rs" for r
  proof -
    have "r \<in> set (nfa_transitions nfa)" by (rule subsetD [OF vec_slice_subset that])
    then have "slice_ok (targetStart r) (targetEnd r) (targets nfa)"
      using assms(1) by (simp add: nfa_wf_def list_all_iff)
    then show ?thesis
      by (simp add: range_item_def IterableConstTargets_def vec_slice_prefix [OF _ pf(2)])
  qed
  then show "transitionsForNode nfa' p = transitionsForNode nfa p"
    by (simp add: transitionsForNode_def Let_def assms(4) vec_slice_prefix [OF sl(1) pf(1)])
  show "epsilonTargets nfa' p = epsilonTargets nfa p" "actionsOfNode nfa' p = actionsOfNode nfa p"
    by (simp_all add: epsilonTargets_def actionsOfNode_def Let_def assms(4)
        vec_slice_prefix [OF sl(2) pf(3)] vec_slice_prefix [OF sl(3) pf(4)])
qed

lemma node_ok_appended:
  assumes "nfa_wf nfa" "appended nfa nfa'" "p < length (nfa_nodes nfa)"
    "nfa_nodes nfa' ! p = nfa_nodes nfa ! p" "length (nfa_nodes nfa) \<le> length (nfa_nodes nfa')"
  shows "node_ok nfa' p"
proof -
  note ok = nfa_wf_node [OF assms(1,3)]
  have "ok_items (targets_ok (length (nfa_nodes nfa'))) (transitionsForNode nfa p)"
    using ok assms(5) by (fastforce simp: node_ok_def Let_def ok_items_def list_all_iff targets_ok_def)
  moreover have "\<forall>t \<in> set (epsilonTargets nfa p). t < length (nfa_nodes nfa')"
    using ok assms(5) by (fastforce simp: node_ok_def Let_def)
  ultimately show ?thesis
    using ok assms(2,4) node_view_appended [OF assms(1-4)]
    by (auto simp: node_ok_def Let_def appended_def intro: slice_ok_prefix)
qed

lemma new_node_view:
  assumes "nfa_nodes nfa ! p = ImmutableNFANode_new"
  shows "transitionsForNode nfa p = []" "epsilonTargets nfa p = []" "actionsOfNode nfa p = []"
  using assms
  by (simp_all add: transitionsForNode_def epsilonTargets_def actionsOfNode_def ImmutableNFANode_new_def vec_slice_def)

lemma node_edges_empty [simp]: "node_edges p [] [] = {}"
  by (auto simp: node_edges_def split: option.splits)

lemma NodeBuilder_new_ok:
  assumes "NodeBuilder_new nfa = (b, nfa')" "nfa_wf nfa"
  shows "nfa_wf nfa'" "builder_ok nfa' b" "m_nodeId b = length (nfa_nodes nfa)"
    "length (nfa_nodes nfa') = length (nfa_nodes nfa) + 1"
    "nfa_edges nfa' = nfa_edges nfa" "nfa_acts nfa' = nfa_acts nfa"
    "builder_edges b = {}" "builder_acts b = {}"
proof -
  let ?n = "length (nfa_nodes nfa)"
  have b: "b = \<lparr>bd_valid = True, bd_ranges = [], m_epsilonTransitionTargets = [], m_actions = [],
       m_nodeId = ?n, m_finalized = False\<rparr>"
    and n: "nfa' = nfa\<lparr>nfa_nodes := nfa_nodes nfa @ [ImmutableNFANode_new]\<rparr>"
    using assms(1) by (auto simp: NodeBuilder_new_def)
  have ap: "appended nfa nfa'" by (simp add: n appended_def)
  have old: "nfa_nodes nfa' ! p = nfa_nodes nfa ! p" if "p < ?n" for p
    using that by (simp add: n nth_append)
  have last: "nfa_nodes nfa' ! ?n = ImmutableNFANode_new" by (simp add: n)
  show len: "length (nfa_nodes nfa') = ?n + 1" by (simp add: n)
  have bi: "builder_items b = []" using range_list_of_Nil by (auto simp: b intro: builder_items_eq)
  show "m_nodeId b = ?n" "builder_acts b = {}" by (simp_all add: b builder_acts_def)
  show "builder_edges b = {}" by (simp add: builder_edges_def bi) (simp add: b)
  show "builder_ok nfa' b"
    using bi range_list_of_Nil last len by (simp add: builder_ok_def b)
  have "node_ok nfa' ?n"
    by (simp add: node_ok_def Let_def new_node_view [OF last]) (simp add: last ImmutableNFANode_new_def slice_ok_def)
  then show "nfa_wf nfa'"
    using assms(2) node_ok_appended [OF assms(2) ap _ old] len
    by (auto simp: nfa_wf_def list_all_iff less_Suc_eq) (simp add: n)
  have U: "{..<length (nfa_nodes nfa')} = insert ?n {..<?n}" using len by auto
  show "nfa_edges nfa' = nfa_edges nfa"
    unfolding nfa_edges_def U
    by (simp add: new_node_view [OF last] node_view_appended [OF assms(2) ap _ old])
  show "nfa_acts nfa' = nfa_acts nfa"
    using new_node_view(3) [OF last] node_view_appended(3) [OF assms(2) ap _ old]
    by (auto simp: nfa_acts_def len less_Suc_eq)
qed

subsection \<open>Adding to a builder\<close>

lemma addTransition_ok:
  assumes "builder_ok nfa b" "0 \<le> f" "f \<le> l" "l \<le> 127" "t < length (nfa_nodes nfa)"
  shows "\<exists>b'. addTransition f l t b = Some b' \<and> builder_ok nfa b' \<and> m_nodeId b' = m_nodeId b \<and>
    m_epsilonTransitionTargets b' = m_epsilonTransitionTargets b \<and>
    builder_edges b' = builder_edges b \<union> {(m_nodeId b, Some c, t) | c. f \<le> c \<and> c \<le> l} \<and>
    builder_acts b' = builder_acts b"
proof -
  let ?P = "targets_ok (length (nfa_nodes nfa))"
  have ok: "ok_items ?P (builder_items b)" "ok_items (\<lambda>t. t < length (nfa_nodes nfa)) [(f, l, t)]"
    using assms by (auto simp: builder_ok_def ok_items_def)
  let ?xs = "merge_ranges converter_convert converter_extend (builder_items b) [(f, l, t)]"
  obtain rs' where rs': "extend_ranges converter_convert converter_extend (bd_ranges b) [(f, l, t)] = Some rs'"
    "range_list_of rs' ?xs"
    using extend_refines [of "bd_ranges b" "builder_items b" "[(f, l, t)]"] assms
    by (fastforce simp: builder_ok_def ok_items_def)
  let ?b = "b\<lparr>bd_ranges := rs'\<rparr>"
  have bi: "builder_items ?b = ?xs" using rs'(2) by (auto intro: builder_items_eq)
  have "ok_items ?P ?xs" by (rule builder.merge_ok [OF ok])
  then have "builder_ok nfa ?b" using assms(1) rs'(2) bi by (simp add: builder_ok_def)
  moreover have "data_at set ?xs c = data_at set (builder_items b) c \<union> (if f \<le> c \<and> c \<le> l then {t} else {})" for c
    by (subst builder.merge_meaning [OF ok]) (simp add: data_at_def)
  then have "builder_edges ?b = builder_edges b \<union> {(m_nodeId b, Some c, t) | c. f \<le> c \<and> c \<le> l}"
    by (auto simp: builder_edges_def node_edges_def bi split: option.splits if_splits)
  ultimately show ?thesis using rs'(1) by (simp add: addTransition_def builder_acts_def)
qed


lemma addEpsilonTransition_ok:
  assumes "builder_ok nfa b" "t < length (nfa_nodes nfa)"
  shows "builder_ok nfa (addEpsilonTransition t b)"
    "m_nodeId (addEpsilonTransition t b) = m_nodeId b"
    "builder_edges (addEpsilonTransition t b) = insert (m_nodeId b, None, t) (builder_edges b)"
    "builder_acts (addEpsilonTransition t b) = builder_acts b"
proof -
  have bi: "builder_items (addEpsilonTransition t b) = builder_items b"
    by (simp add: builder_items_def addEpsilonTransition_def)
  show "builder_ok nfa (addEpsilonTransition t b)"
    using assms bi by (simp add: builder_ok_def) (auto simp: addEpsilonTransition_def)
  show "builder_edges (addEpsilonTransition t b) = insert (m_nodeId b, None, t) (builder_edges b)"
    unfolding builder_edges_def bi by (auto simp: node_edges_def addEpsilonTransition_def split: option.splits)
qed (simp_all add: addEpsilonTransition_def builder_acts_def)

lemma NodeBuilder_setActions_ok:
  assumes "builder_ok nfa b"
  shows "builder_ok nfa (NodeBuilder_setActions as b)"
    "m_nodeId (NodeBuilder_setActions as b) = m_nodeId b"
    "builder_edges (NodeBuilder_setActions as b) = builder_edges b"
    "builder_acts (NodeBuilder_setActions as b) = builder_acts b \<union> {m_nodeId b} \<times> set as"
proof -
  have bi: "builder_items (NodeBuilder_setActions as b) = builder_items b"
    by (simp add: builder_items_def NodeBuilder_setActions_def)
  show "builder_ok nfa (NodeBuilder_setActions as b)"
    using assms bi by (simp add: builder_ok_def) (simp add: NodeBuilder_setActions_def)
  show "builder_edges (NodeBuilder_setActions as b) = builder_edges b"
    unfolding builder_edges_def bi by (simp add: NodeBuilder_setActions_def)
qed (auto simp: NodeBuilder_setActions_def builder_acts_def)

lemma list_all2_mem1: "list_all2 P xs ys \<Longrightarrow> x \<in> set xs \<Longrightarrow> \<exists>y \<in> set ys. P x y"
  by (induction xs ys rule: list_all2_induct) auto

subsection \<open>Finalising a builder\<close>

lemma sink_ranges_eq:
  "\<exists>trs. sink_ranges ms nfa =
     nfa\<lparr>targets := targets nfa @ concat (map mr_data ms), nfa_transitions := nfa_transitions nfa @ trs\<rparr> \<and>
     list_all2 (\<lambda>r m. slice_ok (targetStart r) (targetEnd r) (targets nfa @ concat (map mr_data ms)) \<and>
        vec_slice (targetStart r) (targetEnd r - targetStart r) (targets nfa @ concat (map mr_data ms)) = mr_data m \<and>
        ir_first r = mr_first m \<and> ir_last r = mr_last m) trs ms"
proof (induction ms arbitrary: nfa)
  case (Cons m ms)
  let ?r = "\<lparr>targetStart = length (targets nfa), targetEnd = length (targets nfa) + length (mr_data m),
       ir_first = mr_first m, ir_last = mr_last m\<rparr>"
  let ?nfa = "nfa\<lparr>targets := targets nfa @ mr_data m, nfa_transitions := nfa_transitions nfa @ [?r]\<rparr>"
  obtain trs where trs: "sink_ranges ms ?nfa =
     ?nfa\<lparr>targets := targets ?nfa @ concat (map mr_data ms), nfa_transitions := nfa_transitions ?nfa @ trs\<rparr>"
     "list_all2 (\<lambda>r m. slice_ok (targetStart r) (targetEnd r) (targets ?nfa @ concat (map mr_data ms)) \<and>
        vec_slice (targetStart r) (targetEnd r - targetStart r) (targets ?nfa @ concat (map mr_data ms)) = mr_data m \<and>
        ir_first r = mr_first m \<and> ir_last r = mr_last m) trs ms"
    using Cons.IH [of ?nfa] by blast
  have "sink_ranges (m # ms) nfa = sink_ranges ms ?nfa" by (simp add: Let_def)
  then show ?case using trs
    by (intro exI [of _ "?r # trs"]) (simp add: slice_ok_def)
qed simp

lemma finalize_ok:
  assumes wf: "nfa_wf nfa" and ok: "builder_ok nfa b"
  shows "\<exists>nfa'. NodeBuilder_finalize b nfa = Some nfa' \<and> nfa_wf nfa' \<and>
    length (nfa_nodes nfa') = length (nfa_nodes nfa) \<and>
    (\<forall>i. i \<noteq> m_nodeId b \<longrightarrow> nfa_nodes nfa' ! i = nfa_nodes nfa ! i) \<and>
    nfa_edges nfa' = nfa_edges nfa \<union> builder_edges b \<and> nfa_acts nfa' = nfa_acts nfa \<union> builder_acts b"
proof -
  let ?k = "m_nodeId b" and ?n = "length (nfa_nodes nfa)"
  have k: "?k < ?n" "nfa_nodes nfa ! ?k = ImmutableNFANode_new" and rl: "range_list_of (bd_ranges b) (builder_items b)"
    and okb: "ok_items (targets_ok ?n) (builder_items b)"
      "\<forall>t \<in> set (m_epsilonTransitionTargets b). t < ?n"
    using ok by (simp_all add: builder_ok_def)
  obtain ms where ms: "iterate_ranges (bd_ranges b) = Some ms" "map item_of ms = builder_items b"
    using iterate_ranges_items [OF rl] by blast
  let ?T = "targets nfa @ concat (map mr_data ms)"
  let ?nfa1 = "sinkEpsilonTransitions b (sinkActions b nfa)"
  have nfa1: "targets ?nfa1 = targets nfa" "nfa_transitions ?nfa1 = nfa_transitions nfa"
    by (simp_all add: sinkEpsilonTransitions_def sinkActions_def update_node_def Let_def)
  obtain trs where trs: "sink_ranges ms ?nfa1 =
      ?nfa1\<lparr>targets := ?T, nfa_transitions := nfa_transitions nfa @ trs\<rparr>"
    "list_all2 (\<lambda>r m. slice_ok (targetStart r) (targetEnd r) ?T \<and>
        vec_slice (targetStart r) (targetEnd r - targetStart r) ?T = mr_data m \<and>
        ir_first r = mr_first m \<and> ir_last r = mr_last m) trs ms"
    using sink_ranges_eq [of ms ?nfa1] unfolding nfa1 by blast
  define node where "node = \<lparr>rangesStart = length (nfa_transitions nfa),
     rangesEnd = length (nfa_transitions nfa) + length trs,
     epsilonTransitionTargetsStart = length (epsilonTransitionsTargets nfa),
     epsilonTransitionTargetsEnd = length (epsilonTransitionsTargets nfa) + length (m_epsilonTransitionTargets b),
     actionStart = length (nfa_actions nfa), actionEnd = length (nfa_actions nfa) + length (m_actions b)\<rparr>"
  define nfa' where "nfa' = nfa\<lparr>nfa_nodes := (nfa_nodes nfa)[?k := node],
     nfa_transitions := nfa_transitions nfa @ trs, targets := ?T,
     epsilonTransitionsTargets := epsilonTransitionsTargets nfa @ m_epsilonTransitionTargets b,
     nfa_actions := nfa_actions nfa @ m_actions b\<rparr>"
  have fin: "NodeBuilder_finalize b nfa = Some nfa'"
    using k unfolding NodeBuilder_finalize_def sinkTransitions_def ms(1) bind.simps Let_def trs(1) nfa1
    by (simp add: sinkEpsilonTransitions_def sinkActions_def update_node_def Let_def nfa'_def node_def
        ImmutableNFANode_new_def)
  have ap: "appended nfa nfa'" by (simp add: appended_def nfa'_def)
  have len: "length (nfa_nodes nfa') = ?n" by (simp add: nfa'_def)
  have other: "nfa_nodes nfa' ! i = nfa_nodes nfa ! i" if "i \<noteq> ?k" for i using that by (simp add: nfa'_def)
  have self: "nfa_nodes nfa' ! ?k = node" using k by (simp add: nfa'_def)
  have "map (range_item nfa') trs = map item_of ms"
    using trs(2) by (auto simp: list_all2_conv_all_nth range_item_def IterableConstTargets_def item_of_def nfa'_def
        intro!: nth_equalityI)
  then have tr: "transitionsForNode nfa' ?k = builder_items b"
    by (simp add: transitionsForNode_def Let_def self ms(2)) (simp add: node_def nfa'_def vec_slice_def)
  have ep: "epsilonTargets nfa' ?k = m_epsilonTransitionTargets b"
    by (simp add: epsilonTargets_def Let_def self) (simp add: node_def nfa'_def vec_slice_def)
  have ac: "actionsOfNode nfa' ?k = m_actions b"
    by (simp add: actionsOfNode_def Let_def self) (simp add: node_def nfa'_def vec_slice_def)
  have "node_ok nfa' ?k"
    using okb by (simp add: node_ok_def Let_def tr ep self len) (simp add: node_def nfa'_def slice_ok_def)
  then have "node_ok nfa' i" if "i < ?n" for i
    using that node_ok_appended [OF wf ap that] other len by (cases "i = ?k") simp_all
  moreover have "slice_ok (targetStart r) (targetEnd r) ?T" if "r \<in> set (nfa_transitions nfa @ trs)" for r
    using that wf list_all2_mem1 [OF trs(2)]
    by (auto simp: nfa_wf_def list_all_iff intro: slice_ok_prefix)
  ultimately have wf': "nfa_wf nfa'"
    by (simp add: nfa_wf_def len list_all_iff) (simp add: nfa'_def)
  have U: "{..<?n} = insert ?k ({..<?n} - {?k})" using k by auto
  note same = node_view_appended [OF wf ap _ other]
  have "(\<Union>p \<in> {..<?n} - {?k}. node_edges p (epsilonTargets nfa' p) (transitionsForNode nfa' p)) =
      (\<Union>p \<in> {..<?n} - {?k}. node_edges p (epsilonTargets nfa p) (transitionsForNode nfa p))"
    by (rule SUP_cong) (simp_all add: same)
  then have "nfa_edges nfa' = builder_edges b \<union>
      (\<Union>p \<in> {..<?n} - {?k}. node_edges p (epsilonTargets nfa p) (transitionsForNode nfa p))"
    unfolding nfa_edges_def len by (subst U) (simp only: UN_insert tr ep builder_edges_def)
  moreover have "nfa_edges nfa = (\<Union>p \<in> {..<?n} - {?k}. node_edges p (epsilonTargets nfa p) (transitionsForNode nfa p))"
    unfolding nfa_edges_def by (subst U) (simp only: UN_insert new_node_view [OF k(2)] node_edges_empty Un_empty_left)
  ultimately have "nfa_edges nfa' = nfa_edges nfa \<union> builder_edges b" by (simp only: Un_commute)
  moreover have "nfa_acts nfa' = nfa_acts nfa \<union> builder_acts b"
  proof -
    have "(p, a) \<in> nfa_acts nfa' \<longleftrightarrow> (p, a) \<in> nfa_acts nfa \<union> builder_acts b" for p a
      using k(1) ac new_node_view(3) [OF k(2)] same(3) [of p]
      by (cases "p = ?k") (auto simp: nfa_acts_def builder_acts_def len)
    then show ?thesis by auto
  qed
  ultimately show ?thesis using fin wf' len other by blast
qed

text \<open>Other live builders stay usable.\<close>

lemma builder_ok_mono:
  assumes "builder_ok nfa b" "length (nfa_nodes nfa) \<le> length (nfa_nodes nfa')"
    "nfa_nodes nfa' ! m_nodeId b = nfa_nodes nfa ! m_nodeId b"
  shows "builder_ok nfa' b"
proof -
  have "ok_items (targets_ok (length (nfa_nodes nfa'))) (builder_items b)"
    using assms(1,2) by (fastforce simp: builder_ok_def ok_items_def list_all_iff targets_ok_def)
  then show ?thesis using assms by (fastforce simp: builder_ok_def)
qed

lemma NodeBuilder_new_keeps:
  assumes "NodeBuilder_new nfa = (b', nfa')" "builder_ok nfa b"
  shows "builder_ok nfa' b" "m_nodeId b' \<noteq> m_nodeId b"
proof -
  have "m_nodeId b < length (nfa_nodes nfa)" using assms(2) by (simp add: builder_ok_def)
  then show "builder_ok nfa' b" "m_nodeId b' \<noteq> m_nodeId b"
    using assms by (auto simp: NodeBuilder_new_def nth_append intro: builder_ok_mono)
qed

lemma nfa_wf_new: "nfa_wf NFA_new" "nfa_edges NFA_new = {}" "nfa_acts NFA_new = {}"
  by (simp_all add: nfa_wf_def NFA_new_def nfa_edges_def nfa_acts_def)

lemma nfa_edges_bound: "nfa_wf nfa \<Longrightarrow> (p, l, q) \<in> nfa_edges nfa \<Longrightarrow> p < length (nfa_nodes nfa) \<and> q < length (nfa_nodes nfa)"
proof -
  assume wf: "nfa_wf nfa" and e: "(p, l, q) \<in> nfa_edges nfa"
  then have p: "p < length (nfa_nodes nfa)" "(p, l, q) \<in> node_edges p (epsilonTargets nfa p) (transitionsForNode nfa p)"
    by (auto simp: nfa_edges_def node_edges_def)
  then have ok: "ok_items (targets_ok (length (nfa_nodes nfa))) (transitionsForNode nfa p)"
    "\<forall>t \<in> set (epsilonTargets nfa p). t < length (nfa_nodes nfa)"
    using nfa_wf_node [OF wf p(1)] by (simp_all add: node_ok_def Let_def)
  then show ?thesis
    using p rl_lookup_all [of "targets_ok (length (nfa_nodes nfa))" "transitionsForNode nfa p"]
    by (cases l) (auto simp: node_edges_def data_at_def ok_items_def targets_ok_def split: option.splits)
qed

section \<open>The life of a node\<close>

text \<open>
  The calls that a client makes on a builder between its creation and its destruction, in any
  order and number, with the edges and actions that each of them stands for.
\<close>

datatype builder_call =
    AddTransition cchar cchar nat
  | AddEpsilonTransition nat
  | SetActions "u64 list"

fun builder_step :: "builder_call \<Rightarrow> NodeBuilder \<Rightarrow> NodeBuilder option" where
  "builder_step (AddTransition f l t) b = addTransition f l t b"
| "builder_step (AddEpsilonTransition t) b = Some (addEpsilonTransition t b)"
| "builder_step (SetActions as) b = Some (NodeBuilder_setActions as b)"

fun builder_run :: "builder_call list \<Rightarrow> NodeBuilder \<Rightarrow> NodeBuilder option" where
  "builder_run [] b = Some b"
| "builder_run (c # cs) b = Option.bind (builder_step c b) (builder_run cs)"

fun call_ok :: "nat \<Rightarrow> builder_call \<Rightarrow> bool" where
  "call_ok n (AddTransition f l t) \<longleftrightarrow> 0 \<le> f \<and> f \<le> l \<and> l \<le> 127 \<and> t < n"
| "call_ok n (AddEpsilonTransition t) \<longleftrightarrow> t < n"
| "call_ok n (SetActions as) \<longleftrightarrow> True"

fun call_edges :: "nat \<Rightarrow> builder_call \<Rightarrow> edge set" where
  "call_edges p (AddTransition f l t) = {(p, Some c, t) | c. f \<le> c \<and> c \<le> l}"
| "call_edges p (AddEpsilonTransition t) = {(p, None, t)}"
| "call_edges p (SetActions as) = {}"

fun call_acts :: "nat \<Rightarrow> builder_call \<Rightarrow> (nat \<times> u64) set" where
  "call_acts p (SetActions as) = {p} \<times> set as"
| "call_acts p c = {}"

lemma builder_step_ok:
  assumes "builder_ok nfa b" "call_ok (length (nfa_nodes nfa)) c"
  shows "\<exists>b'. builder_step c b = Some b' \<and> builder_ok nfa b' \<and> m_nodeId b' = m_nodeId b \<and>
    builder_edges b' = builder_edges b \<union> call_edges (m_nodeId b) c \<and>
    builder_acts b' = builder_acts b \<union> call_acts (m_nodeId b) c"
proof (cases c)
  case (AddTransition f l t)
  then show ?thesis using addTransition_ok [OF assms(1), of f l t] assms(2) by auto
next
  case (AddEpsilonTransition t)
  then show ?thesis using addEpsilonTransition_ok [OF assms(1), of t] assms(2) by auto
next
  case (SetActions as)
  then show ?thesis using NodeBuilder_setActions_ok [OF assms(1), of as] by auto
qed

lemma builder_run_ok:
  assumes "builder_ok nfa b" "list_all (call_ok (length (nfa_nodes nfa))) cs"
  shows "\<exists>b'. builder_run cs b = Some b' \<and> builder_ok nfa b' \<and>
    builder_edges b' = builder_edges b \<union> (\<Union>c \<in> set cs. call_edges (m_nodeId b) c) \<and>
    builder_acts b' = builder_acts b \<union> (\<Union>c \<in> set cs. call_acts (m_nodeId b) c)"
  using assms
proof (induction cs arbitrary: b)
  case (Cons c cs)
  obtain b1 where b1: "builder_step c b = Some b1" "builder_ok nfa b1" "m_nodeId b1 = m_nodeId b"
    "builder_edges b1 = builder_edges b \<union> call_edges (m_nodeId b) c"
    "builder_acts b1 = builder_acts b \<union> call_acts (m_nodeId b) c"
    using builder_step_ok [OF Cons.prems(1), of c] Cons.prems(2) by auto
  then show ?case using Cons.IH [OF b1(2)] Cons.prems(2) by (auto simp: Un_assoc)
qed simp

text \<open>
  C6. A builder that is created, given character ranges, epsilon targets and actions by any
  sequence of calls, and destroyed leaves a well-formed NFA: it has one more node, the edges and
  actions it had before, and for the new node exactly the edges and actions of all the calls.
  Ranges may overlap and actions may be set repeatedly: a later call never removes what an
  earlier one added.
\<close>

theorem node_life_cycle:
  assumes "nfa_wf nfa" "NodeBuilder_new nfa = (b, nfa1)"
    "list_all (call_ok (length (nfa_nodes nfa) + 1)) cs"
  shows "\<exists>b' nfa'. builder_run cs b = Some b' \<and> NodeBuilder_destroy b' nfa1 = Some nfa' \<and> nfa_wf nfa' \<and>
    length (nfa_nodes nfa') = length (nfa_nodes nfa) + 1 \<and>
    nfa_edges nfa' = nfa_edges nfa \<union> (\<Union>c \<in> set cs. call_edges (length (nfa_nodes nfa)) c) \<and>
    nfa_acts nfa' = nfa_acts nfa \<union> (\<Union>c \<in> set cs. call_acts (length (nfa_nodes nfa)) c)"
proof -
  note new = NodeBuilder_new_ok [OF assms(2,1)]
  have ok: "list_all (call_ok (length (nfa_nodes nfa1))) cs" using assms(3) new(4) by simp
  obtain b' where b': "builder_run cs b = Some b'" "builder_ok nfa1 b'"
    "builder_edges b' = (\<Union>c \<in> set cs. call_edges (length (nfa_nodes nfa)) c)"
    "builder_acts b' = (\<Union>c \<in> set cs. call_acts (length (nfa_nodes nfa)) c)"
    using builder_run_ok [OF new(2) ok] unfolding new(3,7,8) by auto
  obtain nfa' where nfa': "NodeBuilder_finalize b' nfa1 = Some nfa'" "nfa_wf nfa'"
    "length (nfa_nodes nfa') = length (nfa_nodes nfa1)"
    "nfa_edges nfa' = nfa_edges nfa1 \<union> builder_edges b'" "nfa_acts nfa' = nfa_acts nfa1 \<union> builder_acts b'"
    using finalize_ok [OF new(1) b'(2)] by blast
  have "NodeBuilder_destroy b' nfa1 = Some nfa'"
    using nfa'(1) b'(2) by (simp add: NodeBuilder_destroy_def builder_ok_def)
  then show ?thesis using b' nfa' new by simp
qed

theorem node_life_cycle_witness:
  "\<exists>b' nfa'. builder_run [SetActions [5], AddTransition 97 122 0, AddTransition 100 100 0, SetActions [6]]
      (fst (NodeBuilder_new NFA_new)) = Some b' \<and>
    NodeBuilder_destroy b' (snd (NodeBuilder_new NFA_new)) = Some nfa' \<and> nfa_wf nfa' \<and>
    (0, Some 98, 0) \<in> nfa_edges nfa' \<and> (0, 5) \<in> nfa_acts nfa' \<and> (0, 6) \<in> nfa_acts nfa'"
proof -
  obtain b nfa1 where n: "NodeBuilder_new NFA_new = (b, nfa1)" by (cases "NodeBuilder_new NFA_new")
  show ?thesis
    using node_life_cycle [OF nfa_wf_new(1) n,
        of "[SetActions [5], AddTransition 97 122 0, AddTransition 100 100 0, SetActions [6]]"] n
    by (auto simp: NFA_new_def)
qed

end
