(* ===== verification/Nfa_To_Dfa.thy ===== *)
theory Nfa_To_Dfa
  imports Nfa
begin

text \<open>
  \<open>NFAToDFA.cpp\<close>: the subset construction. Epsilon closures are computed once per node; the
  outgoing ranges of a set of NFA nodes are merged in a \<open>MutableRangeList\<close> whose data are sets of
  nodes, and every new set becomes a DFA node. A failed \<open>RELEASE_ASSERT\<close> is \<open>None\<close>. The theorem
  of the theory says that the construction returns and that the DFA matches exactly what the
  NFA matches.
\<close>

section \<open>Epsilon closures\<close>

definition closure_add :: "nat list \<times> nat list \<times> nat list \<Rightarrow> nat \<Rightarrow> nat list \<times> nat list \<times> nat list" where
  "closure_add = (\<lambda>(closure, unprocessedNodes, output) targetNodeId.
     if targetNodeId \<in> set closure then (closure, unprocessedNodes, output)
     else (hs_add targetNodeId closure, unprocessedNodes @ [targetNodeId], output @ [targetNodeId]))"

lemma closure_add_fold:
  assumes "foldl closure_add (cl, un, out) ts = (cl', un', out')"
  shows "set cl' = set cl \<union> set ts" "\<exists>new. un' = un @ new \<and> out' = out @ new \<and> set new = set ts - set cl \<and> distinct new"
proof -
  have "set cl' = set cl \<union> set ts \<and> (\<exists>new. un' = un @ new \<and> out' = out @ new \<and> set new = set ts - set cl \<and> distinct new)"
    using assms
  proof (induction ts arbitrary: cl un out)
    case (Cons t ts)
    show ?case
    proof (cases "t \<in> set cl")
      case True
      then show ?thesis using Cons by (auto simp: closure_add_def insert_absorb)
    next
      case False
      then have "foldl closure_add (hs_add t cl, un @ [t], out @ [t]) ts = (cl', un', out')"
        using Cons.prems by (simp add: closure_add_def)
      from Cons.IH [OF this] obtain new where new: "set cl' = set (hs_add t cl) \<union> set ts"
        "un' = (un @ [t]) @ new" "out' = (out @ [t]) @ new" "set new = set ts - set (hs_add t cl)" "distinct new"
        by blast
      then have "un' = un @ t # new \<and> out' = out @ t # new \<and> set (t # new) = set (t # ts) - set cl \<and> distinct (t # new)"
        using False by auto
      then show ?thesis using new(1) by auto
    qed
  qed auto
  then show "set cl' = set cl \<union> set ts" "\<exists>new. un' = un @ new \<and> out' = out @ new \<and> set new = set ts - set cl \<and> distinct new"
    by blast+
qed

lemma closure_add_foldE:
  assumes "foldl closure_add (cl, un, out) ts = (cl', un', out')"
  obtains new where "un' = un @ new" "out' = out @ new" "set new = set ts - set cl" "distinct new"
    "set cl' = set cl \<union> set ts"
proof -
  obtain new where "un' = un @ new \<and> out' = out @ new \<and> set new = set ts - set cl \<and> distinct new"
    using closure_add_fold(2) [OF assms] by (rule exE)
  then show thesis by (elim conjE) (rule that [OF _ _ _ _ closure_add_fold(1) [OF assms]])
qed

lemma epsilonTargets_subset: "set (epsilonTargets nfa p) \<subseteq> set (epsilonTransitionsTargets nfa)"
  unfolding epsilonTargets_def Let_def by (rule vec_slice_subset)

lemma closure_decreases:
  assumes ne: "un \<noteq> []"
    and f: "foldl closure_add (cl, butlast un, out) (epsilonTargets nfa (last un)) = (cl', un', out')"
  shows "card (set (epsilonTransitionsTargets nfa) - set cl') < card (set (epsilonTransitionsTargets nfa) - set cl) \<or>
    card (set (epsilonTransitionsTargets nfa) - set cl') = card (set (epsilonTransitionsTargets nfa) - set cl) \<and>
    length un' < length un"
proof -
  let ?ts = "epsilonTargets nfa (last un)" and ?T = "set (epsilonTransitionsTargets nfa)"
  obtain new where new: "un' = butlast un @ new" "set new = set ?ts - set cl" and cl': "set cl' = set cl \<union> set ?ts"
    using f by (rule closure_add_foldE)
  show ?thesis
  proof (cases "set ?ts \<subseteq> set cl")
    case True
    then have "set new = {}" "set cl' = set cl" unfolding new(2) cl' by blast+
    then have "new = []" "set cl' = set cl" by simp_all
    then show ?thesis using new(1) ne by simp
  next
    case False
    then have "?T - set cl' \<subset> ?T - set cl" using cl' epsilonTargets_subset [of nfa "last un"] by blast
    then have "card (?T - set cl') < card (?T - set cl)" by (intro psubset_card_mono) auto
    then show ?thesis by blast
  qed
qed

function closure_loop :: "NFA \<Rightarrow> nat list \<Rightarrow> nat list \<Rightarrow> nat list \<Rightarrow> nat list" where
  "closure_loop nfa closure unprocessedNodes output =
     (if unprocessedNodes = [] then output
      else
        (case foldl closure_add (closure, butlast unprocessedNodes, output)
                (epsilonTargets nfa (last unprocessedNodes)) of
           (closure', unprocessedNodes', output') \<Rightarrow>
             closure_loop nfa closure' unprocessedNodes' output'))"
  by pat_completeness auto
termination
  by (relation "measures [\<lambda>(nfa, cl, un, out). card (set (epsilonTransitionsTargets nfa) - set cl),
      \<lambda>(nfa, cl, un, out). length un]", simp) (hypsubst, drule (1) closure_decreases [OF _ sym], unfold in_measures prod.case, blast)

declare closure_loop.simps [simp del]

definition epsilonClosureExcludingSelf :: "NFA \<Rightarrow> nat \<Rightarrow> nat list" where
  "epsilonClosureExcludingSelf nfa nodeId = closure_loop nfa [nodeId] [nodeId] []"

definition resolveEpsilonClosures :: "NFA \<Rightarrow> nat list list \<times> NFA" where
  "resolveEpsilonClosures nfa =
     (map (epsilonClosureExcludingSelf nfa) [0..<length (nfa_nodes nfa)],
      nfa\<lparr>epsilonTransitionsTargets := []\<rparr>)"

definition extendSetWithClosure :: "nat list list \<Rightarrow> nat \<Rightarrow> nat list \<Rightarrow> nat list" where
  "extendSetWithClosure nfaNodeClosures nodeId nodeSet =
     (let nodeClosure = nfaNodeClosures ! nodeId in
      if nodeClosure \<noteq> [] then hs_add_all nodeClosure nodeSet else nodeSet)"

section \<open>Sets of NFA nodes as DFA nodes\<close>

record UniqueNodeIdSet =
  m_buffer :: "nat list"
  m_dfaNodeId :: nat

definition UniqueNodeIdSet_equal :: "nat list \<Rightarrow> UniqueNodeIdSet \<Rightarrow> bool" where
  "UniqueNodeIdSet_equal other u \<longleftrightarrow> length (m_buffer u) = length other \<and>
     list_all (\<lambda>x. x \<in> set other) (m_buffer u)"

definition translate :: "NFA \<Rightarrow> nat list \<Rightarrow> DFA \<Rightarrow> (DFA \<times> UniqueNodeIdSet) option" where
  "translate nfa nodeIdSet dfa =
     (let nodeActions = foldl (\<lambda>acts nfaNodeId. hs_add_all (actionsOfNode nfa nfaNodeId) acts) [] nodeIdSet;
          start = length (actions dfa);
          dfa' = dfa\<lparr>actions := actions dfa @ nodeActions\<rparr>;
          len = length (actions dfa') - start
      in if len \<le> 2 ^ 16 - 1 then
           Some (dfa'\<lparr>nodes := nodes dfa' @ [setActions start len DFANode_new]\<rparr>,
                 \<lparr>m_buffer = nodeIdSet, m_dfaNodeId = length (nodes dfa')\<rparr>)
         else None)"

record Conversion =
  conv_dfa :: DFA
  uniqueNodeIdSetTable :: "UniqueNodeIdSet list"
  unprocessedNodes :: "UniqueNodeIdSet list"

definition getOrCreateDFANode :: "NFA \<Rightarrow> nat list \<Rightarrow> Conversion \<Rightarrow> (nat \<times> Conversion) option" where
  "getOrCreateDFANode nfa nodeSet st =
     (case find (UniqueNodeIdSet_equal nodeSet) (uniqueNodeIdSetTable st) of
        Some u \<Rightarrow> Some (m_dfaNodeId u, st)
      | None \<Rightarrow>
          Option.bind (translate nfa nodeSet (conv_dfa st)) (\<lambda>(dfa, u).
            Some (m_dfaNodeId u,
              st\<lparr>conv_dfa := dfa, uniqueNodeIdSetTable := uniqueNodeIdSetTable st @ [u],
                 unprocessedNodes := unprocessedNodes st @ [u]\<rparr>)))"

definition closure_convert :: "nat list list \<Rightarrow> nat list \<Rightarrow> nat list" where
  "closure_convert closures iterable =
     foldl (\<lambda>result nodeId. hs_add_all (closures ! nodeId) (hs_add nodeId result)) [] iterable"

definition closure_extend :: "nat list list \<Rightarrow> nat list \<Rightarrow> nat list \<Rightarrow> nat list" where
  "closure_extend closures destination iterable =
     foldl (\<lambda>result nodeId. if nodeId \<in> set result then result
              else hs_add_all (closures ! nodeId) (hs_add nodeId result)) destination iterable"

definition createCombinedTransition ::
    "UniqueNodeIdSet \<Rightarrow> NFA \<Rightarrow> nat list list \<Rightarrow> nat list mrange list option" where
  "createCombinedTransition source nfa closures =
     extend_all (closure_convert closures) (closure_extend closures) []
       (map (transitionsForNode nfa) (m_buffer source))"

fun add_dfa_transitions :: "NFA \<Rightarrow> nat list mrange list \<Rightarrow> Conversion \<Rightarrow> Conversion option" where
  "add_dfa_transitions nfa [] st = Some st"
| "add_dfa_transitions nfa (r # ranges) st =
     Option.bind (getOrCreateDFANode nfa (mr_data r) st) (\<lambda>(targetNodeId, st').
       add_dfa_transitions nfa ranges
         (st'\<lparr>conv_dfa := (conv_dfa st')
            \<lparr>transitionRanges := transitionRanges (conv_dfa st') @ [\<lparr>cr_first = mr_first r, cr_last = mr_last r\<rparr>],
             transitionDestinations := transitionDestinations (conv_dfa st') @ [targetNodeId]\<rparr>\<rparr>))"

definition convert_node :: "NFA \<Rightarrow> nat list list \<Rightarrow> Conversion \<Rightarrow> Conversion option" where
  "convert_node nfa closures st =
     (let source = last (unprocessedNodes st);
          st1 = st\<lparr>unprocessedNodes := butlast (unprocessedNodes st)\<rparr>
      in Option.bind (createCombinedTransition source nfa closures) (\<lambda>rangeVector.
         Option.bind (iterate_ranges rangeVector) (\<lambda>combinedRangeList.
           let start = length (transitionRanges (conv_dfa st1)) in
           Option.bind (add_dfa_transitions nfa combinedRangeList st1) (\<lambda>st2.
             let dfa = conv_dfa st2;
                 len = length (transitionRanges dfa) - start;
                 k = m_dfaNodeId source
             in Some (st2\<lparr>conv_dfa := dfa\<lparr>nodes := (nodes dfa)[k := setTransitions start len (nodes dfa ! k)]\<rparr>\<rparr>)))))"

partial_function (option) convert_loop :: "NFA \<Rightarrow> nat list list \<Rightarrow> Conversion \<Rightarrow> Conversion option" where
  "convert_loop nfa closures st =
     (if unprocessedNodes st = [] then Some st
      else Option.bind (convert_node nfa closures st) (convert_loop nfa closures))"

definition NFAToDFA_convert :: "NFA \<Rightarrow> DFA option" where
  "NFAToDFA_convert nfa =
     Option.bind (NFA_root nfa) (\<lambda>rootNode.
       case resolveEpsilonClosures nfa of (closures, nfa') \<Rightarrow>
         let initialSet = extendSetWithClosure closures rootNode [rootNode] in
         Option.bind (translate nfa' initialSet DFA_new) (\<lambda>(dfa, u).
           Option.bind (convert_loop nfa' closures
             \<lparr>conv_dfa = dfa, uniqueNodeIdSetTable = [u], unprocessedNodes = [u]\<rparr>) (\<lambda>st.
               Some (conv_dfa st))))"

section \<open>Closures are reachability\<close>

definition eps_rel :: "NFA \<Rightarrow> (nat \<times> nat) set" where
  "eps_rel nfa = {(p, q). q \<in> set (epsilonTargets nfa p)}"

definition eps_reach :: "NFA \<Rightarrow> nat \<Rightarrow> nat set" where
  "eps_reach nfa x = (eps_rel nfa)\<^sup>* `` {x}"

lemma closure_loop_correct:
  assumes "set cl = insert x (set out)" "x \<notin> set out" "set un \<subseteq> set cl" "set cl \<subseteq> eps_reach nfa x"
    "\<And>p q. p \<in> set cl \<Longrightarrow> p \<notin> set un \<Longrightarrow> q \<in> set (epsilonTargets nfa p) \<Longrightarrow> q \<in> set cl"
    "distinct out"
  shows "set (closure_loop nfa cl un out) = eps_reach nfa x - {x} \<and> distinct (closure_loop nfa cl un out)"
  using assms
proof (induction nfa cl un out rule: closure_loop.induct)
  case (1 nfa cl un out)
  note a = 1(2-)
  show ?case
  proof (cases "un = []")
    case True
    have "y \<in> set cl" if "(x, y) \<in> (eps_rel nfa)\<^sup>*" for y
      using that by induction (use a(1,5) True in \<open>auto simp: eps_rel_def\<close>)
    then have "set cl = eps_reach nfa x" using a(4) by (auto simp: eps_reach_def)
    then show ?thesis using a True by (subst (1 2) closure_loop.simps) auto
  next
    case False
    let ?ts = "epsilonTargets nfa (last un)"
    obtain cl' un' out' where f: "foldl closure_add (cl, butlast un, out) ?ts = (cl', un', out')"
      by (metis surj_pair)
    obtain new where new: "un' = butlast un @ new" "out' = out @ new" "set new = set ?ts - set cl" "distinct new"
      and cl': "set cl' = set cl \<union> set ?ts"
      using f by (rule closure_add_foldE)
    have un: "un = butlast un @ [last un]" using False by simp
    have lu: "last un \<in> set cl" "set (butlast un) \<subseteq> set cl"
      using a(3) False in_set_butlastD [of _ un] by auto
    have step: "closure_loop nfa cl un out = closure_loop nfa cl' un' out'"
      using False f by (subst closure_loop.simps) simp
    show ?thesis unfolding step
    proof (rule 1(1) [OF False f [symmetric] refl])
      show "set cl' = insert x (set out')" using a(1) new cl' by auto
      show "x \<notin> set out'" using a(1,2) new by auto
      show "set un' \<subseteq> set cl'" using lu new cl' by auto
      have "set ?ts \<subseteq> eps_reach nfa x"
        using lu(1) a(4) by (auto simp: eps_reach_def eps_rel_def intro: rtrancl_into_rtrancl)
      then show "set cl' \<subseteq> eps_reach nfa x" using a(4) cl' by auto
      show "q \<in> set cl'" if "p \<in> set cl'" "p \<notin> set un'" "q \<in> set (epsilonTargets nfa p)" for p q
      proof (cases "p = last un")
        case True
        then show ?thesis using that cl' by simp
      next
        case p: False
        have "p \<in> set cl" using that new cl' by auto
        moreover have "p \<notin> set un" using that(2) new p un by (metis Un_iff empty_iff insert_iff list.set set_append)
        ultimately show ?thesis using a(5) that(3) cl' by auto
      qed
      show "distinct out'" using a(1,6) new by auto
    qed
  qed
qed

lemma epsilonClosure_correct:
  "set (epsilonClosureExcludingSelf nfa x) = eps_reach nfa x - {x}"
  "distinct (epsilonClosureExcludingSelf nfa x)"
  unfolding epsilonClosureExcludingSelf_def
  by (rule conjunct1 [OF closure_loop_correct] conjunct2 [OF closure_loop_correct];
      auto simp: eps_reach_def)+


lemma eps_reach_bound:
  assumes "nfa_wf nfa" "x < length (nfa_nodes nfa)" "y \<in> eps_reach nfa x"
  shows "y < length (nfa_nodes nfa)"
proof -
  have "(x, y) \<in> (eps_rel nfa)\<^sup>*" using assms(3) by (simp add: eps_reach_def)
  then show ?thesis
  proof induction
    case (step y z)
    then have "node_ok nfa y" using nfa_wf_node [OF assms(1)] by blast
    then show ?case using step(2) by (simp add: eps_rel_def node_ok_def Let_def)
  qed (use assms in simp)
qed

lemma eps_reach_trans: "y \<in> eps_reach nfa x \<Longrightarrow> eps_reach nfa y \<subseteq> eps_reach nfa x"
  by (auto simp: eps_reach_def intro: rtrancl_trans)

lemma eps_reach_refl [simp]: "x \<in> eps_reach nfa x"
  by (simp add: eps_reach_def)

text \<open>What the conversion relies on in its table of closures.\<close>

definition closures_ok :: "nat list list \<Rightarrow> bool" where
  "closures_ok cl \<longleftrightarrow> (\<forall>x < length cl. \<forall>y \<in> set (cl ! x). y < length cl \<and> set (cl ! y) \<subseteq> insert x (set (cl ! x)))"

definition closed_in :: "nat list list \<Rightarrow> nat set \<Rightarrow> bool" where
  "closed_in cl X \<longleftrightarrow> (\<forall>x \<in> X. x < length cl \<and> set (cl ! x) \<subseteq> X)"

definition node_set_ok :: "nat list list \<Rightarrow> nat list \<Rightarrow> bool" where
  "node_set_ok cl s \<longleftrightarrow> s \<noteq> [] \<and> distinct s \<and> closed_in cl (set s)"

definition close :: "nat list list \<Rightarrow> nat set \<Rightarrow> nat set" where
  "close cl X = (\<Union>x \<in> X. insert x (set (cl ! x)))"

lemma resolve_ok:
  assumes wf: "nfa_wf nfa"
  defines "cl \<equiv> map (epsilonClosureExcludingSelf nfa) [0..<length (nfa_nodes nfa)]"
  shows "closures_ok cl" "length cl = length (nfa_nodes nfa)"
    "x < length cl \<Longrightarrow> insert x (set (cl ! x)) = eps_reach nfa x"
proof -
  show len: "length cl = length (nfa_nodes nfa)" by (simp add: cl_def)
  have c: "set (cl ! x) = eps_reach nfa x - {x}" if "x < length cl" for x
    using that by (simp add: cl_def epsilonClosure_correct)
  then show "x < length cl \<Longrightarrow> insert x (set (cl ! x)) = eps_reach nfa x" by auto
  show "closures_ok cl"
    unfolding closures_ok_def
  proof (intro allI impI ballI)
    fix x y assume x: "x < length cl" and y: "y \<in> set (cl ! x)"
    then have yr: "y \<in> eps_reach nfa x" using c by auto
    then have "y < length cl" using eps_reach_bound [OF wf _ yr] x len by simp
    moreover have "eps_reach nfa y \<subseteq> eps_reach nfa x" using yr by (rule eps_reach_trans)
    ultimately show "y < length cl \<and> set (cl ! y) \<subseteq> insert x (set (cl ! x))" using c x by auto
  qed
qed

section \<open>Merging with closures\<close>

lemma closed_in_insert:
  assumes "closures_ok cl" "x < length cl" "closed_in cl X"
  shows "closed_in cl (X \<union> insert x (set (cl ! x)))"
  unfolding closed_in_def
proof
  fix y assume "y \<in> X \<union> insert x (set (cl ! x))"
  then consider "y \<in> X" | "y = x" | "y \<in> set (cl ! x)" by blast
  then show "y < length cl \<and> set (cl ! y) \<subseteq> X \<union> insert x (set (cl ! x))"
    using assms unfolding closures_ok_def closed_in_def by cases blast+
qed

lemma close_Cons: "close cl (set (x # xs)) = insert x (set (cl ! x)) \<union> close cl (set xs)"
  by (simp add: close_def)

lemma closure_convert_fold:
  assumes "closures_ok cl" "\<forall>x \<in> set xs. x < length cl" "distinct acc" "closed_in cl (set acc)"
    "r = foldl (\<lambda>result nodeId. hs_add_all (cl ! nodeId) (hs_add nodeId result)) acc xs"
  shows "set r = set acc \<union> close cl (set xs) \<and> distinct r \<and> closed_in cl (set r)"
  using assms(2-5)
proof (induction xs arbitrary: acc)
  case (Cons x xs)
  let ?acc = "hs_add_all (cl ! x) (hs_add x acc)"
  have x: "x < length cl" using Cons.prems by simp
  have s: "set ?acc = set acc \<union> insert x (set (cl ! x))" by auto
  have "closed_in cl (set ?acc)" unfolding s by (rule closed_in_insert [OF assms(1) x Cons.prems(3)])
  then have "set r = set ?acc \<union> close cl (set xs) \<and> distinct r \<and> closed_in cl (set r)"
    using Cons.prems by (intro Cons.IH) auto
  then show ?case unfolding s close_Cons Un_assoc .
qed (simp add: close_def)

text \<open>
  \<open>extend\<close> adds the closure of a node only when the node is new. On a set that is closed already,
  this is the same as adding it always.
\<close>

lemma closure_extend_fold:
  assumes "closures_ok cl" "\<forall>x \<in> set xs. x < length cl" "distinct acc" "closed_in cl (set acc)"
    "r = closure_extend cl acc xs"
  shows "set r = set acc \<union> close cl (set xs) \<and> distinct r \<and> closed_in cl (set r)"
  using assms(2-5)
proof (induction xs arbitrary: acc)
  case (Cons x xs)
  let ?acc = "if x \<in> set acc then acc else hs_add_all (cl ! x) (hs_add x acc)"
  have x: "x < length cl" using Cons.prems by simp
  have s: "set ?acc = set acc \<union> insert x (set (cl ! x))"
    using Cons.prems(3) by (auto simp: closed_in_def)
  have "closed_in cl (set ?acc)" unfolding s by (rule closed_in_insert [OF assms(1) x Cons.prems(3)])
  moreover have "r = closure_extend cl ?acc xs" using Cons.prems(4) by (simp add: closure_extend_def)
  ultimately have "set r = set ?acc \<union> close cl (set xs) \<and> distinct r \<and> closed_in cl (set r)"
    using Cons.prems(1,2) by (intro Cons.IH) auto
  then show ?case unfolding s close_Cons Un_assoc .
qed (simp add: close_def closure_extend_def)

interpretation closure: range_data "closure_convert cl" "closure_extend cl" "node_set_ok cl"
  "\<lambda>ts. closures_ok cl \<and> targets_ok (length cl) ts" set "\<lambda>ts. close cl (set ts)" for cl
proof unfold_locales
  fix x d :: "nat list" assume x: "closures_ok cl \<and> targets_ok (length cl) x"
  have c: "set (closure_convert cl x) = close cl (set x) \<and> distinct (closure_convert cl x) \<and>
      closed_in cl (set (closure_convert cl x))"
    using closure_convert_fold [of cl x "[]" "closure_convert cl x"] x
    by (simp only: closure_convert_def targets_ok_def closed_in_def list.set Un_empty_left distinct.simps) blast
  have ne: "close cl (set x) \<noteq> {}" using x by (cases x) (auto simp: close_def targets_ok_def)
  show "node_set_ok cl (closure_convert cl x)"
    unfolding node_set_ok_def using c ne by (metis list.set(1))
  show "set (closure_convert cl x) = close cl (set x)" using c by blast
  assume d: "node_set_ok cl d"
  have e: "set (closure_extend cl d x) = set d \<union> close cl (set x) \<and> distinct (closure_extend cl d x) \<and>
      closed_in cl (set (closure_extend cl d x))"
    by (rule closure_extend_fold) (use x d in \<open>simp_all add: node_set_ok_def targets_ok_def\<close>)
  have "set (closure_extend cl d x) \<noteq> {}" using ne unfolding conjunct1 [OF e] by blast
  then show "node_set_ok cl (closure_extend cl d x)"
    unfolding node_set_ok_def using e by (metis list.set(1))
  show "set (closure_extend cl d x) = set d \<union> close cl (set x)" using e by blast
qed


section \<open>The invariant of the conversion\<close>

definition step_set :: "NFA \<Rightarrow> nat list list \<Rightarrow> nat set \<Rightarrow> cchar \<Rightarrow> nat set" where
  "step_set nfa cl X c = close cl (\<Union>x \<in> X. data_at set (transitionsForNode nfa x) c)"

definition input_ok :: "NFA \<Rightarrow> nat list list \<Rightarrow> bool" where
  "input_ok nfa cl \<longleftrightarrow> closures_ok cl \<and> length (nfa_actions nfa) \<le> 2 ^ 16 - 1 \<and>
     (\<forall>x < length cl. ok_items (targets_ok (length cl)) (transitionsForNode nfa x))"

definition set_actions :: "NFA \<Rightarrow> nat set \<Rightarrow> u64 set" where
  "set_actions nfa X = (\<Union>x \<in> X. set (actionsOfNode nfa x))"

definition conv_core :: "NFA \<Rightarrow> nat list list \<Rightarrow> DFA \<Rightarrow> UniqueNodeIdSet list \<Rightarrow> bool" where
  "conv_core nfa cl d T \<longleftrightarrow> length (nodes d) = length T \<and>
     length (transitionRanges d) = length (transitionDestinations d) \<and> root d = 0 \<and>
     set (actions d) \<subseteq> set (nfa_actions nfa) \<and>
     (\<forall>i < length T. m_dfaNodeId (T ! i) = i \<and> node_set_ok cl (m_buffer (T ! i)) \<and>
        \<not> isKilled (nodes d ! i) \<and>
        actionsStart (nodes d ! i) + actionsLength (nodes d ! i) \<le> length (actions d) \<and>
        set (node_actions d (nodes d ! i)) = set_actions nfa (set (m_buffer (T ! i)))) \<and>
     (\<forall>i < length T. \<forall>j < length T. set (m_buffer (T ! i)) = set (m_buffer (T ! j)) \<longrightarrow> i = j)"

lemma step_set_eq:
  "(\<Union>ys \<in> set (map (transitionsForNode nfa) xs). data_at (\<lambda>ts. close cl (set ts)) ys c) = step_set nfa cl (set xs) c"
proof -
  have "data_at (\<lambda>ts. close cl (set ts)) ys c = close cl (data_at set ys c)" for ys
    by (simp add: data_at_def close_def split: option.split)
  moreover have "close cl (\<Union>x \<in> X. f x) = (\<Union>x \<in> X. close cl (f x))" for X :: "nat set" and f
    by (auto simp: close_def)
  ultimately show ?thesis by (simp add: step_set_def)
qed

lemma createCombinedTransition_ok:
  assumes "input_ok nfa cl" "node_set_ok cl (m_buffer u)"
  shows "\<exists>rs xs. createCombinedTransition u nfa cl = Some rs \<and> range_list_of rs xs \<and>
    ok_items (node_set_ok cl) xs \<and> (\<forall>c. data_at set xs c = step_set nfa cl (set (m_buffer u)) c)"
proof -
  have "list_all (ok_items (\<lambda>ts. closures_ok cl \<and> targets_ok (length cl) ts)) (map (transitionsForNode nfa) (m_buffer u))"
    using assms by (auto simp: input_ok_def node_set_ok_def closed_in_def ok_items_def list_all_iff)
  from closure.extend_all_meaning [OF range_list_of_Nil ok_items_Nil this]
  show ?thesis unfolding createCombinedTransition_def step_set_eq by simp
qed

lemma foldl_hs_add_all:
  "set (foldl (\<lambda>acc x. hs_add_all (f x) acc) acc xs) = set acc \<union> (\<Union>x \<in> set xs. set (f x))"
  "distinct acc \<Longrightarrow> distinct (foldl (\<lambda>acc x. hs_add_all (f x) acc) acc xs)"
  by (induction xs arbitrary: acc) auto

lemma actionsOfNode_subset: "set (actionsOfNode nfa p) \<subseteq> set (nfa_actions nfa)"
  unfolding actionsOfNode_def Let_def by (rule vec_slice_subset)

lemma set_actions_subset: "set_actions nfa X \<subseteq> set (nfa_actions nfa)"
  using actionsOfNode_subset by (auto simp: set_actions_def)

lemma translate_ok:
  assumes "length (nfa_actions nfa) \<le> 2 ^ 16 - 1"
  shows "\<exists>acts. translate nfa s d = Some
      (d\<lparr>actions := actions d @ acts, nodes := nodes d @ [setActions (length (actions d)) (length acts) DFANode_new]\<rparr>,
       \<lparr>m_buffer = s, m_dfaNodeId = length (nodes d)\<rparr>) \<and>
     set acts = set_actions nfa (set s) \<and> length acts < 2 ^ 16"
proof -
  let ?acts = "foldl (\<lambda>acts x. hs_add_all (actionsOfNode nfa x) acts) [] s"
  have s: "set ?acts = set_actions nfa (set s)" by (simp add: foldl_hs_add_all set_actions_def)
  have "length ?acts = card (set ?acts)" by (simp add: distinct_card foldl_hs_add_all(2))
  also have "\<dots> \<le> card (set (nfa_actions nfa))" unfolding s by (intro card_mono set_actions_subset) simp
  also have "\<dots> \<le> length (nfa_actions nfa)" by (rule card_length)
  finally have "length ?acts \<le> 2 ^ 16 - 1" using assms by simp
  then show ?thesis using s by (intro exI [of _ ?acts]) (simp add: translate_def Let_def)
qed

definition grows :: "Conversion \<Rightarrow> Conversion \<Rightarrow> bool" where
  "grows st st' \<longleftrightarrow> (\<exists>new ns. uniqueNodeIdSetTable st' = uniqueNodeIdSetTable st @ new \<and>
     unprocessedNodes st' = unprocessedNodes st @ new \<and> nodes (conv_dfa st') = nodes (conv_dfa st) @ ns \<and>
     list_all (\<lambda>n. transitionsStart n = 0 \<and> transitionsLength n = 0) ns) \<and>
     prefix (actions (conv_dfa st)) (actions (conv_dfa st')) \<and>
     prefix (transitionRanges (conv_dfa st)) (transitionRanges (conv_dfa st')) \<and>
     prefix (transitionDestinations (conv_dfa st)) (transitionDestinations (conv_dfa st'))"

lemma grows_refl: "grows st st"
  by (simp add: grows_def)

lemma growsE:
  assumes "grows a b"
  obtains new ns where "uniqueNodeIdSetTable b = uniqueNodeIdSetTable a @ new"
    "unprocessedNodes b = unprocessedNodes a @ new" "nodes (conv_dfa b) = nodes (conv_dfa a) @ ns"
    "list_all (\<lambda>n. transitionsStart n = 0 \<and> transitionsLength n = 0) ns"
    "prefix (actions (conv_dfa a)) (actions (conv_dfa b))"
    "prefix (transitionRanges (conv_dfa a)) (transitionRanges (conv_dfa b))"
    "prefix (transitionDestinations (conv_dfa a)) (transitionDestinations (conv_dfa b))"
  using assms unfolding grows_def by (elim conjE exE) (rule that)

lemma growsI:
  assumes "uniqueNodeIdSetTable b = uniqueNodeIdSetTable a @ new"
    "unprocessedNodes b = unprocessedNodes a @ new" "nodes (conv_dfa b) = nodes (conv_dfa a) @ ns"
    "list_all (\<lambda>n. transitionsStart n = 0 \<and> transitionsLength n = 0) ns"
    "prefix (actions (conv_dfa a)) (actions (conv_dfa b))"
    "prefix (transitionRanges (conv_dfa a)) (transitionRanges (conv_dfa b))"
    "prefix (transitionDestinations (conv_dfa a)) (transitionDestinations (conv_dfa b))"
  shows "grows a b"
  unfolding grows_def by (intro conjI exI [of _ new] exI [of _ ns]) (rule assms)+

lemma grows_trans:
  assumes ab: "grows a b" and bc: "grows b c"
  shows "grows a c"
proof -
  obtain n1 m1 where 1: "uniqueNodeIdSetTable b = uniqueNodeIdSetTable a @ n1"
    "unprocessedNodes b = unprocessedNodes a @ n1" "nodes (conv_dfa b) = nodes (conv_dfa a) @ m1"
    "list_all (\<lambda>n. transitionsStart n = 0 \<and> transitionsLength n = 0) m1"
    "prefix (actions (conv_dfa a)) (actions (conv_dfa b))"
    "prefix (transitionRanges (conv_dfa a)) (transitionRanges (conv_dfa b))"
    "prefix (transitionDestinations (conv_dfa a)) (transitionDestinations (conv_dfa b))"
    using ab by (rule growsE)
  obtain n2 m2 where 2: "uniqueNodeIdSetTable c = uniqueNodeIdSetTable b @ n2"
    "unprocessedNodes c = unprocessedNodes b @ n2" "nodes (conv_dfa c) = nodes (conv_dfa b) @ m2"
    "list_all (\<lambda>n. transitionsStart n = 0 \<and> transitionsLength n = 0) m2"
    "prefix (actions (conv_dfa b)) (actions (conv_dfa c))"
    "prefix (transitionRanges (conv_dfa b)) (transitionRanges (conv_dfa c))"
    "prefix (transitionDestinations (conv_dfa b)) (transitionDestinations (conv_dfa c))"
    using bc by (rule growsE)
  show ?thesis
    by (rule growsI [of c a "n1 @ n2" "m1 @ m2"])
      (simp_all add: 1(1-4) 2(1-4) prefix_order.trans [OF 1(5) 2(5)] prefix_order.trans [OF 1(6) 2(6)]
        prefix_order.trans [OF 1(7) 2(7)])
qed

lemma node_actions_append:
  "actionsStart n + actionsLength n \<le> length (actions d) \<Longrightarrow> actions d' = actions d @ ys \<Longrightarrow>
   node_actions d' n = node_actions d n"
  by (auto simp: node_actions_def nth_append)

lemma UniqueNodeIdSet_equal_iff:
  assumes "distinct s" "distinct (m_buffer u)"
  shows "UniqueNodeIdSet_equal s u \<longleftrightarrow> set (m_buffer u) = set s"
proof
  assume "UniqueNodeIdSet_equal s u"
  then have "set (m_buffer u) \<subseteq> set s" "card (set (m_buffer u)) = card (set s)"
    using assms by (auto simp: UniqueNodeIdSet_equal_def list_all_iff distinct_card)
  then show "set (m_buffer u) = set s" by (simp add: card_subset_eq)
next
  assume e: "set (m_buffer u) = set s"
  then have "length (m_buffer u) = length s" using assms by (metis distinct_card)
  then show "UniqueNodeIdSet_equal s u" using e by (auto simp: UniqueNodeIdSet_equal_def list_all_iff)
qed

lemma conv_coreD:
  assumes "conv_core nfa cl d T" "i < length T"
  shows "m_dfaNodeId (T ! i) = i" "node_set_ok cl (m_buffer (T ! i))" "\<not> isKilled (nodes d ! i)"
    "actionsStart (nodes d ! i) + actionsLength (nodes d ! i) \<le> length (actions d)"
    "set (node_actions d (nodes d ! i)) = set_actions nfa (set (m_buffer (T ! i)))"
  using assms by (simp_all add: conv_core_def)

lemma conv_core_new:
  assumes core: "conv_core nfa cl d T" and s: "node_set_ok cl s"
    and fresh: "\<And>i. i < length T \<Longrightarrow> set (m_buffer (T ! i)) \<noteq> set s"
    and acts: "set acts = set_actions nfa (set s)" "length acts < 2 ^ 16"
  shows "conv_core nfa cl
    (d\<lparr>actions := actions d @ acts, nodes := nodes d @ [setActions (length (actions d)) (length acts) DFANode_new]\<rparr>)
    (T @ [\<lparr>m_buffer = s, m_dfaNodeId = length (nodes d)\<rparr>])"
    (is "conv_core nfa cl ?d ?T")
proof -
  let ?n = "setActions (length (actions d)) (length acts) DFANode_new"
  have len: "length (nodes d) = length T" using core by (simp add: conv_core_def)
  have new: "node_actions ?d ?n = acts" "\<not> isKilled ?n"
    using acts(2) by (auto simp: node_actions_def setActions_def isKilled_def DFANode_new_def nth_append intro!: nth_equalityI)
  have all: "m_dfaNodeId (?T ! i) = i \<and> node_set_ok cl (m_buffer (?T ! i)) \<and> \<not> isKilled (nodes ?d ! i) \<and>
      actionsStart (nodes ?d ! i) + actionsLength (nodes ?d ! i) \<le> length (actions ?d) \<and>
      set (node_actions ?d (nodes ?d ! i)) = set_actions nfa (set (m_buffer (?T ! i)))" if "i < length ?T" for i
  proof (cases "i < length T")
    case True
    note cd = conv_coreD [OF core True]
    have "node_actions ?d (nodes d ! i) = node_actions d (nodes d ! i)"
      using cd(4) by (intro node_actions_append) auto
    then show ?thesis using cd True len by (simp add: nth_append)
  next
    case False
    then have "i = length T" using that by simp
    then show ?thesis using new s acts len by (simp add: nth_append) (simp add: setActions_def)
  qed
  have inj: "i = j" if "i < length ?T" "j < length ?T" "set (m_buffer (?T ! i)) = set (m_buffer (?T ! j))" for i j
  proof -
    have "\<forall>i < length T. \<forall>j < length T. set (m_buffer (T ! i)) = set (m_buffer (T ! j)) \<longrightarrow> i = j"
      using core by (simp add: conv_core_def)
    then show ?thesis using that fresh by (cases "i < length T"; cases "j < length T") (auto simp: nth_append less_Suc_eq)
  qed
  have rest: "length (nodes ?d) = length ?T" "length (transitionRanges ?d) = length (transitionDestinations ?d)" "root ?d = 0"
    "set (actions ?d) \<subseteq> set (nfa_actions nfa)"
    using core acts set_actions_subset by (auto simp: conv_core_def)
  show ?thesis
    unfolding conv_core_def using rest all inj by blast
qed

lemma getOrCreateDFANode_ok:
  assumes inp: "length (nfa_actions nfa) \<le> 2 ^ 16 - 1"
    and core: "conv_core nfa cl (conv_dfa st) (uniqueNodeIdSetTable st)" and s: "node_set_ok cl s"
  shows "\<exists>j st'. getOrCreateDFANode nfa s st = Some (j, st') \<and>
    conv_core nfa cl (conv_dfa st') (uniqueNodeIdSetTable st') \<and> grows st st' \<and>
    j < length (uniqueNodeIdSetTable st') \<and> set (m_buffer (uniqueNodeIdSetTable st' ! j)) = set s \<and>
    transitionRanges (conv_dfa st') = transitionRanges (conv_dfa st) \<and>
    transitionDestinations (conv_dfa st') = transitionDestinations (conv_dfa st)"
proof (cases "find (UniqueNodeIdSet_equal s) (uniqueNodeIdSetTable st)")
  case (Some u)
  then obtain i where i: "i < length (uniqueNodeIdSetTable st)" "u = uniqueNodeIdSetTable st ! i"
    "UniqueNodeIdSet_equal s u"
    by (auto simp: find_Some_iff)
  note cd = conv_coreD [OF core i(1)]
  have "set (m_buffer u) = set s"
    using i cd(2) s by (simp add: node_set_ok_def UniqueNodeIdSet_equal_iff)
  then show ?thesis
    using Some i cd(1) core grows_refl by (simp add: getOrCreateDFANode_def)
next
  case None
  let ?T = "uniqueNodeIdSetTable st" and ?d = "conv_dfa st"
  have fresh: "set (m_buffer (?T ! i)) \<noteq> set s" if "i < length ?T" for i
  proof -
    have "\<not> UniqueNodeIdSet_equal s (?T ! i)" using None that by (auto simp: find_None_iff)
    then show ?thesis using conv_coreD(2) [OF core that] s by (simp add: node_set_ok_def UniqueNodeIdSet_equal_iff)
  qed
  obtain acts where acts: "translate nfa s ?d = Some
      (?d\<lparr>actions := actions ?d @ acts, nodes := nodes ?d @ [setActions (length (actions ?d)) (length acts) DFANode_new]\<rparr>,
       \<lparr>m_buffer = s, m_dfaNodeId = length (nodes ?d)\<rparr>)"
    "set acts = set_actions nfa (set s)" "length acts < 2 ^ 16"
    using translate_ok [OF inp] by blast
  note core' = conv_core_new [OF core s fresh acts(2,3)]
  let ?u = "\<lparr>m_buffer = s, m_dfaNodeId = length (nodes ?d)\<rparr>"
  let ?d' = "?d\<lparr>actions := actions ?d @ acts, nodes := nodes ?d @ [setActions (length (actions ?d)) (length acts) DFANode_new]\<rparr>"
  let ?st = "st\<lparr>conv_dfa := ?d', uniqueNodeIdSetTable := ?T @ [?u], unprocessedNodes := unprocessedNodes st @ [?u]\<rparr>"
  have g: "getOrCreateDFANode nfa s st = Some (length (nodes ?d), ?st)"
    using None acts(1) by (simp add: getOrCreateDFANode_def)
  have "grows st ?st"
    unfolding grows_def by (simp add: setActions_def DFANode_new_def)
  moreover have "length (nodes ?d) = length ?T" using core by (simp add: conv_core_def)
  ultimately show ?thesis using g core' by simp
qed


definition crange :: "'d mrange \<Rightarrow> char_range" where
  "crange m = \<lparr>cr_first = mr_first m, cr_last = mr_last m\<rparr>"

definition targets_of :: "UniqueNodeIdSet list \<Rightarrow> nat list mrange list \<Rightarrow> nat list \<Rightarrow> bool" where
  "targets_of T ms ts \<longleftrightarrow> list_all2 (\<lambda>m t. t < length T \<and> set (m_buffer (T ! t)) = set (mr_data m)) ms ts"

lemma add_dfa_transitions_ok:
  assumes "length (nfa_actions nfa) \<le> 2 ^ 16 - 1"
    "conv_core nfa cl (conv_dfa st) (uniqueNodeIdSetTable st)" "\<forall>m \<in> set ms. node_set_ok cl (mr_data m)"
  shows "\<exists>st' ts. add_dfa_transitions nfa ms st = Some st' \<and>
    conv_core nfa cl (conv_dfa st') (uniqueNodeIdSetTable st') \<and> grows st st' \<and>
    transitionRanges (conv_dfa st') = transitionRanges (conv_dfa st) @ map crange ms \<and>
    transitionDestinations (conv_dfa st') = transitionDestinations (conv_dfa st) @ ts \<and>
    targets_of (uniqueNodeIdSetTable st') ms ts"
  using assms(2,3)
proof (induction ms arbitrary: st)
  case Nil
  then show ?case using grows_refl by (simp add: targets_of_def)
next
  case (Cons m ms)
  obtain j st1 where 1: "getOrCreateDFANode nfa (mr_data m) st = Some (j, st1)"
    "conv_core nfa cl (conv_dfa st1) (uniqueNodeIdSetTable st1)" "grows st st1"
    "j < length (uniqueNodeIdSetTable st1)" "set (m_buffer (uniqueNodeIdSetTable st1 ! j)) = set (mr_data m)"
    "transitionRanges (conv_dfa st1) = transitionRanges (conv_dfa st)"
    "transitionDestinations (conv_dfa st1) = transitionDestinations (conv_dfa st)"
    using getOrCreateDFANode_ok [OF assms(1) Cons.prems(1), of "mr_data m"] Cons.prems(2) by auto
  let ?d = "(conv_dfa st1)\<lparr>transitionRanges := transitionRanges (conv_dfa st1) @ [crange m],
      transitionDestinations := transitionDestinations (conv_dfa st1) @ [j]\<rparr>"
  let ?st = "st1\<lparr>conv_dfa := ?d\<rparr>"
  have core: "conv_core nfa cl (conv_dfa ?st) (uniqueNodeIdSetTable ?st)"
    using 1(2) by (simp add: conv_core_def node_actions_def)
  have g1: "grows st1 ?st" unfolding grows_def by simp
  obtain st' ts where 2: "add_dfa_transitions nfa ms ?st = Some st'"
    "conv_core nfa cl (conv_dfa st') (uniqueNodeIdSetTable st')" "grows ?st st'"
    "transitionRanges (conv_dfa st') = transitionRanges (conv_dfa ?st) @ map crange ms"
    "transitionDestinations (conv_dfa st') = transitionDestinations (conv_dfa ?st) @ ts"
    "targets_of (uniqueNodeIdSetTable st') ms ts"
    using Cons.IH [OF core] Cons.prems(2) by auto
  obtain new where new: "uniqueNodeIdSetTable st' = uniqueNodeIdSetTable ?st @ new"
    using 2(3) by (rule growsE)
  have "add_dfa_transitions nfa (m # ms) st = Some st'"
    using 1(1) 2(1) by (simp add: crange_def)
  moreover have "grows st st'" by (rule grows_trans [OF 1(3) grows_trans [OF g1 2(3)]])
  moreover have "targets_of (uniqueNodeIdSetTable st') (m # ms) (j # ts)"
    using 2(6) 1(4,5) new by (simp add: targets_of_def nth_append)
  ultimately show ?case using 2(2,4,5) 1(6,7) by (intro exI [of _ st'] exI [of _ "j # ts"]) simp
qed

section \<open>Finished nodes\<close>

definition done_node :: "NFA \<Rightarrow> nat list list \<Rightarrow> DFA \<Rightarrow> UniqueNodeIdSet list \<Rightarrow> nat \<Rightarrow> bool" where
  "done_node nfa cl d T i \<longleftrightarrow>
     transitionsStart (nodes d ! i) + transitionsLength (nodes d ! i) \<le> length (transitionRanges d) \<and>
     ranges_wf 0 (transitions d (nodes d ! i)) \<and>
     (\<forall>(r, t) \<in> set (transitions d (nodes d ! i)). t < length T) \<and>
     (\<forall>c. case delta d i c of
        None \<Rightarrow> step_set nfa cl (set (m_buffer (T ! i))) c = {}
      | Some j \<Rightarrow> step_set nfa cl (set (m_buffer (T ! i))) c = set (m_buffer (T ! j)))"

definition conv_inv :: "NFA \<Rightarrow> nat list list \<Rightarrow> Conversion \<Rightarrow> bool" where
  "conv_inv nfa cl st \<longleftrightarrow>
     (let d = conv_dfa st; T = uniqueNodeIdSetTable st; ids = map m_dfaNodeId (unprocessedNodes st) in
      conv_core nfa cl d T \<and> distinct ids \<and>
      (\<forall>u \<in> set (unprocessedNodes st). m_dfaNodeId u < length T \<and> T ! m_dfaNodeId u = u) \<and>
      (\<forall>i < length T. if i \<in> set ids then transitionsStart (nodes d ! i) = 0 \<and> transitionsLength (nodes d ! i) = 0
         else done_node nfa cl d T i))"

lemma transitions_prefix:
  assumes "transitionsStart n + transitionsLength n \<le> length (transitionRanges d)"
    "transitionsStart n + transitionsLength n \<le> length (transitionDestinations d)"
    "prefix (transitionRanges d) (transitionRanges d')" "prefix (transitionDestinations d) (transitionDestinations d')"
  shows "transitions d' n = transitions d n"
  using assms by (auto simp: transitions_def prefix_def nth_append)

lemma done_node_mono:
  assumes "done_node nfa cl d T i" "i < length T" "nodes d' ! i = nodes d ! i" "T' = T @ new"
    "prefix (transitionRanges d) (transitionRanges d')" "prefix (transitionDestinations d) (transitionDestinations d')"
    "length (transitionRanges d) = length (transitionDestinations d)"
  shows "done_node nfa cl d' T' i"
proof -
  have tr: "transitions d' (nodes d' ! i) = transitions d (nodes d ! i)"
    using assms by (auto simp: done_node_def intro!: transitions_prefix)
  have de: "delta d' i c = delta d i c" for c by (simp add: delta_def tr)
  have nth: "T' ! j = T ! j" if "j < length T" for j using that assms(4) by (simp add: nth_append)
  have "delta d i c = Some j \<Longrightarrow> j < length T" for c j
    using assms(1) lookup_range_SomeD [of "transitions d (nodes d ! i)" c j] by (fastforce simp: done_node_def delta_def)
  then have "\<forall>c. case delta d' i c of
        None \<Rightarrow> step_set nfa cl (set (m_buffer (T' ! i))) c = {}
      | Some j \<Rightarrow> step_set nfa cl (set (m_buffer (T' ! i))) c = set (m_buffer (T' ! j))"
    using assms(1,2) nth unfolding done_node_def de by (metis (mono_tags, lifting) option.case_eq_if option.collapse)
  moreover have "length (transitionRanges d) \<le> length (transitionRanges d')"
    using assms(5) by (rule prefix_length_le)
  ultimately show ?thesis
    using assms(1,3,4) unfolding done_node_def tr by (fastforce)
qed

lemma rl_wf_length: "rl_wf lo xs \<Longrightarrow> lo \<le> 128 \<Longrightarrow> int (length xs) \<le> 128 - lo"
  by (induction lo xs rule: rl_wf.induct) auto

lemma ranges_wf_of_items: "rl_wf lo (map item_of ms) \<Longrightarrow> length ts = length ms \<Longrightarrow> ranges_wf lo (zip (map crange ms) ts)"
proof (induction ms arbitrary: lo ts)
  case (Cons m ms)
  then show ?case by (cases ts) (auto simp: item_of_def crange_def)
qed simp

lemma lookup_zip_items:
  "list_all2 P ms ts \<Longrightarrow>
   rel_option (\<lambda>d t. \<exists>m \<in> set ms. mr_data m = d \<and> P m t) (rl_lookup (map item_of ms) c) (lookup_range (zip (map crange ms) ts) c)"
proof (induction ms ts rule: list_all2_induct)
  case (Cons m ms t ts)
  show ?case
  proof (cases "mr_first m \<le> c \<and> c \<le> mr_last m")
    case True
    then show ?thesis using Cons by (auto simp: item_of_def crange_def in_range_def)
  next
    case False
    then have "rl_lookup (map item_of (m # ms)) c = rl_lookup (map item_of ms) c"
      "lookup_range (zip (map crange (m # ms)) (t # ts)) c = lookup_range (zip (map crange ms) ts) c"
      by (auto simp: item_of_def crange_def in_range_def)
    then show ?thesis using Cons.IH by (auto elim: option.rel_mono_strong)
  qed
qed simp


lemma conv_core_bound:
  assumes "conv_core nfa cl d T"
  shows "length T \<le> 2 ^ length cl"
proof -
  let ?f = "\<lambda>i. set (m_buffer (T ! i))"
  have "inj_on ?f {..<length T}" using assms by (auto simp: conv_core_def inj_on_def)
  then have "length T = card (?f ` {..<length T})" by (simp add: card_image)
  also have "?f ` {..<length T} \<subseteq> Pow {..<length cl}"
    using conv_coreD(2) [OF assms] by (auto simp: node_set_ok_def closed_in_def)
  then have "card (?f ` {..<length T}) \<le> card (Pow {..<length cl})" by (intro card_mono) auto
  finally show ?thesis by (simp add: card_Pow)
qed

lemma conv_core_setTransitions:
  assumes "conv_core nfa cl d T" "k < length T"
  shows "conv_core nfa cl (d\<lparr>nodes := (nodes d)[k := setTransitions a b (nodes d ! k)]\<rparr>) T"
proof -
  have len: "length (nodes d) = length T" using assms(1) by (simp add: conv_core_def)
  have same: "actionsStart ((nodes d)[k := setTransitions a b (nodes d ! k)] ! i) = actionsStart (nodes d ! i)"
    "actionsLength ((nodes d)[k := setTransitions a b (nodes d ! k)] ! i) = actionsLength (nodes d ! i)"
    "isKilled ((nodes d)[k := setTransitions a b (nodes d ! k)] ! i) = isKilled (nodes d ! i)" for i
    using assms(2) len by (auto simp: nth_list_update setTransitions_def isKilled_def)
  show ?thesis
    using assms(1) unfolding conv_core_def by (simp add: same node_actions_def)
qed

lemma done_node_new:
  assumes ms: "ok_items (node_set_ok cl) (map item_of ms)"
    and st: "\<And>c. data_at set (map item_of ms) c = step_set nfa cl (set (m_buffer (T ! k))) c"
    and ts: "targets_of T ms ts"
    and tr: "transitionRanges d = pre @ map crange ms" "transitionDestinations d = pre' @ ts" "length pre' = length pre"
    and n: "transitionsStart (nodes d ! k) = length pre" "transitionsLength (nodes d ! k) = length ms"
  shows "done_node nfa cl d T k"
proof -
  have len: "length ts = length ms" using ts by (auto simp: targets_of_def dest: list_all2_lengthD)
  have z: "transitions d (nodes d ! k) = zip (map crange ms) ts"
    using n tr len by (intro nth_equalityI) (auto simp: transitions_def nth_append)
  have wf: "ranges_wf 0 (zip (map crange ms) ts)"
    using ms len by (simp add: ok_items_def ranges_wf_of_items)
  have bound: "\<forall>(r, t) \<in> set (zip (map crange ms) ts). t < length T"
  proof safe
    fix r t assume "(r, t) \<in> set (zip (map crange ms) ts)"
    then have "t \<in> set ts" by (rule set_zip_rightD)
    then show "t < length T" using list_all2_mem2 [OF ts [unfolded targets_of_def]] by blast
  qed
  have "case delta d k c of
        None \<Rightarrow> step_set nfa cl (set (m_buffer (T ! k))) c = {}
      | Some j \<Rightarrow> step_set nfa cl (set (m_buffer (T ! k))) c = set (m_buffer (T ! j))" for c
    using lookup_zip_items [OF ts [unfolded targets_of_def], of c] st [of c]
    unfolding delta_def z data_at_def
    by (cases "rl_lookup (map item_of ms) c"; cases "lookup_range (zip (map crange ms) ts) c") auto
  then show ?thesis
    unfolding done_node_def z using n tr wf bound by simp
qed

lemma convert_node_ok:
  assumes inp: "input_ok nfa cl" and inv: "conv_inv nfa cl st" and ne: "unprocessedNodes st \<noteq> []"
  shows "\<exists>st'. convert_node nfa cl st = Some st' \<and> conv_inv nfa cl st' \<and>
    prefix (uniqueNodeIdSetTable st) (uniqueNodeIdSetTable st') \<and>
    (2 ^ length cl - length (uniqueNodeIdSetTable st') < 2 ^ length cl - length (uniqueNodeIdSetTable st) \<or>
     2 ^ length cl - length (uniqueNodeIdSetTable st') = 2 ^ length cl - length (uniqueNodeIdSetTable st) \<and>
     length (unprocessedNodes st') < length (unprocessedNodes st))"
proof -
  let ?d = "conv_dfa st" and ?T = "uniqueNodeIdSetTable st" and ?S = "unprocessedNodes st"
  let ?u = "last ?S" and ?k = "m_dfaNodeId (last ?S)"
  have core: "conv_core nfa cl ?d ?T" and di: "distinct (map m_dfaNodeId ?S)"
    and us: "\<forall>u \<in> set ?S. m_dfaNodeId u < length ?T \<and> ?T ! m_dfaNodeId u = u"
    and nod: "\<forall>i < length ?T. if i \<in> set (map m_dfaNodeId ?S) then transitionsStart (nodes ?d ! i) = 0 \<and> transitionsLength (nodes ?d ! i) = 0
         else done_node nfa cl ?d ?T i"
    using inv by (simp_all add: conv_inv_def Let_def)
  have k: "?k < length ?T" "?T ! ?k = ?u" using us ne by auto
  have S: "?S = butlast ?S @ [?u]" using ne by simp
  have kb: "?k \<notin> set (map m_dfaNodeId (butlast ?S))"
    using di by (subst (asm) S) simp
  obtain rs xs where c: "createCombinedTransition ?u nfa cl = Some rs" "range_list_of rs xs" "ok_items (node_set_ok cl) xs"
    "\<forall>c. data_at set xs c = step_set nfa cl (set (m_buffer ?u)) c"
    using createCombinedTransition_ok [OF inp, of ?u] conv_coreD(2) [OF core k(1)] k(2) by auto
  obtain ms where ms: "iterate_ranges rs = Some ms" "map item_of ms = xs" using iterate_ranges_items [OF c(2)] by blast
  have okm: "\<forall>m \<in> set ms. node_set_ok cl (mr_data m)"
    using c(3) unfolding ms(2) [symmetric] by (auto simp: ok_items_def list_all_iff item_of_def)
  let ?st1 = "st\<lparr>unprocessedNodes := butlast ?S\<rparr>"
  have core1: "conv_core nfa cl (conv_dfa ?st1) (uniqueNodeIdSetTable ?st1)" using core by simp
  have la: "length (nfa_actions nfa) \<le> 2 ^ 16 - 1" using inp unfolding input_ok_def by blast
  obtain st2 ts where a: "add_dfa_transitions nfa ms ?st1 = Some st2"
    "conv_core nfa cl (conv_dfa st2) (uniqueNodeIdSetTable st2)" "grows ?st1 st2"
    "transitionRanges (conv_dfa st2) = transitionRanges (conv_dfa ?st1) @ map crange ms"
    "transitionDestinations (conv_dfa st2) = transitionDestinations (conv_dfa ?st1) @ ts"
    "targets_of (uniqueNodeIdSetTable st2) ms ts"
    using add_dfa_transitions_ok [OF la core1 okm] by blast
  obtain new ns where g: "uniqueNodeIdSetTable st2 = uniqueNodeIdSetTable ?st1 @ new"
    "unprocessedNodes st2 = unprocessedNodes ?st1 @ new" "nodes (conv_dfa st2) = nodes (conv_dfa ?st1) @ ns"
    "list_all (\<lambda>n. transitionsStart n = 0 \<and> transitionsLength n = 0) ns"
    using a(3) by (rule growsE)
  let ?T2 = "uniqueNodeIdSetTable st2" and ?d2 = "conv_dfa st2"
  have len2: "length (nodes ?d2) = length ?T2" "length (nodes ?d) = length ?T"
    using a(2) core by (simp_all add: conv_core_def)
  have k2: "?k < length ?T2" using k(1) g(1) by simp
  have lm: "length ms \<le> 128" using c(3) rl_wf_length [of 0 xs] ms(2) by (auto simp: ok_items_def)
  let ?len = "length (transitionRanges ?d2) - length (transitionRanges ?d)"
  have len: "?len = length ms" using a(4) by simp
  define d3 where "d3 = ?d2\<lparr>nodes := (nodes ?d2)[?k := setTransitions (length (transitionRanges ?d)) ?len (nodes ?d2 ! ?k)]\<rparr>"
  define st3 where "st3 = st2\<lparr>conv_dfa := d3\<rparr>"
  have conv: "convert_node nfa cl st = Some st3"
    unfolding convert_node_def Let_def c(1) ms(1) bind.simps a(1) st3_def d3_def by simp
  have core3: "conv_core nfa cl d3 ?T2" unfolding d3_def by (rule conv_core_setTransitions [OF a(2) k2])
  have newid: "m_dfaNodeId (new ! j) = length ?T + j" if "j < length new" for j
    using conv_coreD(1) [OF a(2), of "length ?T + j"] that g(1) by (simp add: nth_append)
  have mapnew: "map m_dfaNodeId new = [length ?T ..< length ?T2]"
    by (rule nth_equalityI) (use newid g(1) in simp_all)
  have ids: "set (map m_dfaNodeId (unprocessedNodes st2)) =
      set (map m_dfaNodeId (butlast ?S)) \<union> {length ?T ..< length ?T2}"
    unfolding g(2) map_append set_append mapnew by simp
  have old: "m_dfaNodeId u < length ?T \<and> ?T ! m_dfaNodeId u = u" if "u \<in> set (butlast ?S)" for u
    using us in_set_butlastD [OF that] by blast
  have dist: "distinct (map m_dfaNodeId (unprocessedNodes st2))"
  proof -
    have "distinct (map m_dfaNodeId (butlast ?S))" using di by (simp add: distinct_butlast map_butlast)
    moreover have "set (map m_dfaNodeId (butlast ?S)) \<inter> {length ?T ..< length ?T2} = {}"
      using old by fastforce
    ultimately show ?thesis unfolding g(2) map_append distinct_append mapnew by simp
  qed
  have us3: "m_dfaNodeId u < length ?T2 \<and> ?T2 ! m_dfaNodeId u = u" if "u \<in> set (unprocessedNodes st2)" for u
  proof -
    have "u \<in> set (butlast ?S) \<or> (\<exists>j < length new. u = new ! j)" using that g(2) by (auto simp: in_set_conv_nth)
    then show ?thesis using old [of u] newid g(1) by (auto simp: nth_append)
  qed
  have nth3: "nodes d3 ! i = nodes ?d2 ! i" if "i \<noteq> ?k" for i using that by (simp add: d3_def)
  have nodes3: "if i \<in> set (map m_dfaNodeId (unprocessedNodes st2)) then transitionsStart (nodes d3 ! i) = 0 \<and> transitionsLength (nodes d3 ! i) = 0
         else done_node nfa cl d3 ?T2 i" if i: "i < length ?T2" for i
  proof (cases "i = ?k")
    case True
    have "?k \<notin> set (map m_dfaNodeId (unprocessedNodes st2))" unfolding ids using kb k(1) by simp
    moreover have "done_node nfa cl d3 ?T2 ?k"
    proof (rule done_node_new)
      show "ok_items (node_set_ok cl) (map item_of ms)" using c(3) ms(2) by simp
      show "targets_of ?T2 ms ts" by (rule a(6))
      show "transitionRanges d3 = transitionRanges ?d @ map crange ms"
        "transitionDestinations d3 = transitionDestinations ?d @ ts" using a(4,5) by (simp_all add: d3_def)
      show "length (transitionDestinations ?d) = length (transitionRanges ?d)" using core by (simp add: conv_core_def)
      show "transitionsStart (nodes d3 ! ?k) = length (transitionRanges ?d)" "transitionsLength (nodes d3 ! ?k) = length ms"
        using k2 len2(1) lm len by (simp_all add: d3_def setTransitions_def)
      show "data_at set (map item_of ms) c = step_set nfa cl (set (m_buffer (?T2 ! ?k))) c" for c
        using \<open>\<forall>c. data_at set xs c = _ c\<close> ms(2) k g(1) by (simp add: nth_append)
    qed
    ultimately show ?thesis using True by simp
  next
    case False
    show ?thesis
    proof (cases "i < length ?T")
      case True
      have n2: "nodes d3 ! i = nodes ?d ! i" using nth3 [OF False] g(3) True len2(2) by (simp add: nth_append)
      have "i \<in> set (map m_dfaNodeId (unprocessedNodes st2)) \<longleftrightarrow> i \<in> set (map m_dfaNodeId ?S)"
      proof -
        have "set (map m_dfaNodeId ?S) = insert ?k (set (map m_dfaNodeId (butlast ?S)))" by (subst S) simp
        then show ?thesis unfolding ids using True False by simp
      qed
      moreover have "done_node nfa cl ?d ?T i \<Longrightarrow> done_node nfa cl d3 ?T2 i"
        by (rule done_node_mono [OF _ True n2 g(1) [simplified]])
          (use a(4,5) core in \<open>simp_all add: d3_def conv_core_def\<close>)
      ultimately show ?thesis using nod True n2 by (auto split: if_splits)
    next
      case new: False
      have "nodes d3 ! i = ns ! (i - length ?T)" using nth3 [OF False] g(3) new len2(2) by (simp add: nth_append)
      moreover have "i - length ?T < length ns" using i new len2 g(3) by simp
      ultimately show ?thesis unfolding ids using i new g(4) by (simp add: list_all_length)
    qed
  qed
  have inv3: "conv_inv nfa cl st3"
    unfolding conv_inv_def Let_def st3_def using core3 dist us3 nodes3 by simp
  have "length ?T2 \<le> 2 ^ length cl" by (rule conv_core_bound [OF a(2)])
  moreover have "length (unprocessedNodes st3) < length ?S" if "new = []"
    using that ne g(2) by (simp add: st3_def)
  moreover have "length ?T2 = length ?T + length new" using g(1) by simp
  ultimately have "2 ^ length cl - length ?T2 < 2 ^ length cl - length ?T \<or>
     2 ^ length cl - length ?T2 = 2 ^ length cl - length ?T \<and> length (unprocessedNodes st3) < length ?S"
  proof (cases "new = []")
    case False
    then have "length ?T < length ?T2" "length ?T < 2 ^ length cl"
      using \<open>length ?T2 = length ?T + length new\<close> \<open>length ?T2 \<le> 2 ^ length cl\<close>
      by (simp, metis add_leE length_greater_0_conv less_add_same_cancel1 order_less_le_trans)
    then show ?thesis by (simp add: diff_less_mono2)
  qed simp
  then show ?thesis using conv inv3 g(1) by (auto simp: st3_def)
qed


lemma convert_loop_ok:
  assumes "input_ok nfa cl" "conv_inv nfa cl st"
  shows "\<exists>st'. convert_loop nfa cl st = Some st' \<and> conv_inv nfa cl st' \<and> unprocessedNodes st' = [] \<and>
    prefix (uniqueNodeIdSetTable st) (uniqueNodeIdSetTable st')"
  using assms(2)
proof (induction st rule: wf_induct [OF wf_measures [of "[\<lambda>st. 2 ^ length cl - length (uniqueNodeIdSetTable st),
    \<lambda>st. length (unprocessedNodes st)]"]])
  case (1 st)
  show ?case
  proof (cases "unprocessedNodes st = []")
    case True
    then have "convert_loop nfa cl st = Some st" by (subst convert_loop.simps) simp
    then show ?thesis using 1(2) True by blast
  next
    case False
    obtain st1 where st1: "convert_node nfa cl st = Some st1" "conv_inv nfa cl st1"
      "prefix (uniqueNodeIdSetTable st) (uniqueNodeIdSetTable st1)"
      "2 ^ length cl - length (uniqueNodeIdSetTable st1) < 2 ^ length cl - length (uniqueNodeIdSetTable st) \<or>
       2 ^ length cl - length (uniqueNodeIdSetTable st1) = 2 ^ length cl - length (uniqueNodeIdSetTable st) \<and>
       length (unprocessedNodes st1) < length (unprocessedNodes st)"
      using convert_node_ok [OF assms(1) 1(2) False] by blast
    have m: "(st1, st) \<in> measures [\<lambda>st. 2 ^ length cl - length (uniqueNodeIdSetTable st), \<lambda>st. length (unprocessedNodes st)]"
      unfolding in_measures using st1(4) by blast
    obtain st' where st': "convert_loop nfa cl st1 = Some st'" "conv_inv nfa cl st'" "unprocessedNodes st' = []"
      "prefix (uniqueNodeIdSetTable st1) (uniqueNodeIdSetTable st')"
      using 1(1) [rule_format, OF m st1(2)] by blast
    have "convert_loop nfa cl st = convert_loop nfa cl st1" using False st1(1) by (subst convert_loop.simps) simp
    then show ?thesis using st' prefix_order.trans [OF st1(3) st'(4)] by simp
  qed
qed

section \<open>The language of the NFA\<close>

lemma gpath_Nil_iff:
  assumes wf: "nfa_wf nfa" and p: "p < length (nfa_nodes nfa)"
  shows "gpath (nfa_edges nfa) p [] q \<longleftrightarrow> q \<in> eps_reach nfa p"
proof
  assume "gpath (nfa_edges nfa) p [] q"
  then show "q \<in> eps_reach nfa p"
  proof (induction p "[] :: cchar list" q rule: gpath.induct)
    case (gpath_eps p q r)
    then have "(p, q) \<in> eps_rel nfa" by (auto simp: nfa_edges_def node_edges_def eps_rel_def)
    then show ?case using gpath_eps by (auto simp: eps_reach_def intro: converse_rtrancl_into_rtrancl)
  qed simp
next
  assume "q \<in> eps_reach nfa p"
  then have "(p, q) \<in> (eps_rel nfa)\<^sup>*" by (simp add: eps_reach_def)
  then show "gpath (nfa_edges nfa) p [] q"
  proof (induction rule: rtrancl_induct)
    case (step y z)
    have "y < length (nfa_nodes nfa)" using eps_reach_bound [OF wf p, of y] step(1) by (simp add: eps_reach_def)
    then have "(y, None, z) \<in> nfa_edges nfa" using step(2) by (auto simp: nfa_edges_def node_edges_def eps_rel_def)
    then show ?case using step.IH gpath_snoc_eps by blast
  qed (rule gpath_refl)
qed

lemma gpath_snoc_iff:
  "gpath E p (w @ [c]) q \<longleftrightarrow> (\<exists>r s. gpath E p w r \<and> (r, Some c, s) \<in> E \<and> gpath E s [] q)"
proof
  assume "gpath E p (w @ [c]) q"
  then show "\<exists>r s. gpath E p w r \<and> (r, Some c, s) \<in> E \<and> gpath E s [] q"
  proof (induction p "w @ [c]" q arbitrary: w rule: gpath.induct)
    case (gpath_eps p q r)
    then show ?case by (blast intro: gpath.gpath_eps)
  next
    case (gpath_chr p c' q w' r)
    show ?case
    proof (cases w)
      case Nil
      then show ?thesis using gpath_chr by (auto intro: gpath_refl)
    next
      case (Cons a v)
      then have "w' = v @ [c]" "a = c'" using gpath_chr by auto
      then show ?thesis using gpath_chr(3) [of v] gpath_chr(1) Cons by (blast intro: gpath.gpath_chr)
    qed
  qed simp
next
  assume "\<exists>r s. gpath E p w r \<and> (r, Some c, s) \<in> E \<and> gpath E s [] q"
  then obtain r s where "gpath E p w r" "(r, Some c, s) \<in> E" "gpath E s [] q" by blast
  then have "gpath E p (w @ [c]) s" by (blast intro: gpath_snoc_chr)
  then show "gpath E p (w @ [c]) q" using gpath_append [of E p "w @ [c]" s "[]" q] \<open>gpath E s [] q\<close> by simp
qed

lemma gpath_bound:
  "gpath (nfa_edges nfa) p w q \<Longrightarrow> nfa_wf nfa \<Longrightarrow> p < length (nfa_nodes nfa) \<Longrightarrow> q < length (nfa_nodes nfa)"
  by (induction rule: gpath.induct) (auto dest: nfa_edges_bound)

definition reach_set :: "NFA \<Rightarrow> cchar list \<Rightarrow> nat set" where
  "reach_set nfa w = {q. gpath (nfa_edges nfa) 0 w q}"

lemma reach_set_Nil:
  assumes "nfa_wf nfa" "nfa_nodes nfa \<noteq> []"
  shows "reach_set nfa [] = eps_reach nfa 0"
  using gpath_Nil_iff [OF assms(1), of 0] assms(2) by (auto simp: reach_set_def)

lemma reach_set_snoc:
  assumes wf: "nfa_wf nfa" and ne: "nfa_nodes nfa \<noteq> []"
    and cl: "\<And>x. x < length (nfa_nodes nfa) \<Longrightarrow> insert x (set (cl ! x)) = eps_reach nfa x"
  shows "reach_set nfa (w @ [c]) = step_set nfa cl (reach_set nfa w) c"
proof -
  have lt: "r < length (nfa_nodes nfa)" if "gpath (nfa_edges nfa) 0 w r" for r
    using gpath_bound [OF that wf] ne by simp
  have e: "(r, Some c, s) \<in> nfa_edges nfa \<longleftrightarrow> s \<in> data_at set (transitionsForNode nfa r) c" if "r < length (nfa_nodes nfa)" for r s
    using that by (auto simp: nfa_edges_def node_edges_def)
  have "q \<in> reach_set nfa (w @ [c]) \<longleftrightarrow>
      (\<exists>r s. gpath (nfa_edges nfa) 0 w r \<and> s \<in> data_at set (transitionsForNode nfa r) c \<and> q \<in> insert s (set (cl ! s)))" for q
  proof -
    have "q \<in> reach_set nfa (w @ [c]) \<longleftrightarrow>
      (\<exists>r s. gpath (nfa_edges nfa) 0 w r \<and> (r, Some c, s) \<in> nfa_edges nfa \<and> gpath (nfa_edges nfa) s [] q)"
      by (simp add: reach_set_def gpath_snoc_iff)
    moreover have "gpath (nfa_edges nfa) s [] q \<longleftrightarrow> q \<in> insert s (set (cl ! s))" if "(r, Some c, s) \<in> nfa_edges nfa" for r s
      using nfa_edges_bound [OF wf that] gpath_Nil_iff [OF wf] cl by blast
    ultimately show ?thesis using lt e by blast
  qed
  then show ?thesis unfolding step_set_def close_def by (auto simp: reach_set_def)
qed

section \<open>Correctness\<close>

lemma cleared_views:
  "transitionsForNode (nfa\<lparr>epsilonTransitionsTargets := []\<rparr>) = transitionsForNode nfa"
  "actionsOfNode (nfa\<lparr>epsilonTransitionsTargets := []\<rparr>) = actionsOfNode nfa"
  by (auto simp: transitionsForNode_def actionsOfNode_def range_item_def [abs_def] IterableConstTargets_def Let_def fun_eq_iff)

lemma conversion_run:
  assumes fin: "\<And>i. i < length T \<Longrightarrow> done_node nfa cl d T i" and core: "conv_core nfa cl d T"
    and T0: "0 < length T" "set (m_buffer (T ! 0)) = S []"
    and step: "\<And>w c. S (w @ [c]) = step_set nfa cl (S w) c"
  shows "case dfa_run d 0 w of None \<Rightarrow> S w = {} | Some i \<Rightarrow> i < length T \<and> S w = set (m_buffer (T ! i))"
proof (induction w rule: rev_induct)
  case (snoc c w)
  show ?case
  proof (cases "dfa_run d 0 w")
    case None
    then show ?thesis using snoc step by (simp add: dfa_run_snoc step_set_def close_def)
  next
    case (Some i)
    then have i: "i < length T" "S w = set (m_buffer (T ! i))" using snoc by simp_all
    have dn: "case delta d i c of None \<Rightarrow> step_set nfa cl (set (m_buffer (T ! i))) c = {}
      | Some j \<Rightarrow> step_set nfa cl (set (m_buffer (T ! i))) c = set (m_buffer (T ! j))"
      and tg: "\<forall>(r, t) \<in> set (transitions d (nodes d ! i)). t < length T"
      using fin [OF i(1)] unfolding done_node_def by blast+
    have "j < length T" if "delta d i c = Some j" for j
      using tg lookup_range_SomeD that unfolding delta_def by fastforce
    then show ?thesis using Some dn i step by (auto simp: dfa_run_snoc split: option.splits)
  qed
qed (use T0 in simp)

theorem convert_correct:
  assumes wf: "nfa_wf nfa" and ne: "nfa_nodes nfa \<noteq> []" and acts: "length (nfa_actions nfa) \<le> 2 ^ 16 - 1"
  shows "\<exists>d. NFAToDFA_convert nfa = Some d \<and> (\<forall>cs. dfa_matches d cs = nfa_matches nfa cs) \<and>
    (length (nodes d) < u32_max \<longrightarrow> dfa_wf d) \<and> list_all (\<lambda>n. \<not> isKilled n) (nodes d) \<and>
    set (actions d) \<subseteq> set (nfa_actions nfa)"
proof -
  let ?n = "length (nfa_nodes nfa)"
  define cl where "cl = map (epsilonClosureExcludingSelf nfa) [0..<?n]"
  let ?nfa = "nfa\<lparr>epsilonTransitionsTargets := []\<rparr>"
  have cl: "closures_ok cl" "length cl = ?n" "\<And>x. x < ?n \<Longrightarrow> insert x (set (cl ! x)) = eps_reach nfa x"
    using resolve_ok [OF wf] by (simp_all add: cl_def)
  have inp: "input_ok ?nfa cl"
    using cl acts nfa_wf_node [OF wf] by (auto simp: input_ok_def cleared_views node_ok_def Let_def)
  let ?init = "extendSetWithClosure cl 0 [0]"
  have init: "set ?init = eps_reach nfa 0" "distinct ?init" "?init \<noteq> []"
    using cl(3) [of 0] ne by (auto simp: extendSetWithClosure_def Let_def simp flip: set_empty)
  have n0: "0 < ?n" using ne by simp
  have "closed_in cl (eps_reach nfa 0)"
    unfolding closed_in_def
  proof
    fix x assume x: "x \<in> eps_reach nfa 0"
    have xn: "x < ?n" by (rule eps_reach_bound [OF wf n0 x])
    have "set (cl ! x) \<subseteq> eps_reach nfa x" using cl(3) [OF xn] by (rule subst) blast
    then show "x < length cl \<and> set (cl ! x) \<subseteq> eps_reach nfa 0"
      using xn cl(2) subset_trans [OF _ eps_reach_trans [OF x]] by simp
  qed
  then have okinit: "node_set_ok cl ?init" using init by (simp add: node_set_ok_def)
  have la: "length (nfa_actions ?nfa) \<le> 2 ^ 16 - 1" using acts by simp
  obtain as where as: "translate ?nfa ?init DFA_new = Some
      (DFA_new\<lparr>actions := actions DFA_new @ as, nodes := nodes DFA_new @ [setActions (length (actions DFA_new)) (length as) DFANode_new]\<rparr>,
       \<lparr>m_buffer = ?init, m_dfaNodeId = length (nodes DFA_new)\<rparr>)"
     "set as = set_actions ?nfa (set ?init)" "length as < 2 ^ 16"
    using translate_ok [OF la] by blast
  define d0 where "d0 = DFA_new\<lparr>actions := actions DFA_new @ as, nodes := nodes DFA_new @ [setActions (length (actions DFA_new)) (length as) DFANode_new]\<rparr>"
  define u0 where "u0 = \<lparr>m_buffer = ?init, m_dfaNodeId = length (nodes DFA_new)\<rparr>"
  define st0 where "st0 = \<lparr>conv_dfa = d0, uniqueNodeIdSetTable = [u0], unprocessedNodes = [u0]\<rparr>"
  have "conv_core ?nfa cl DFA_new []" by (simp add: conv_core_def DFA_new_def)
  then have "conv_core ?nfa cl d0 ([] @ [u0])"
    unfolding d0_def u0_def by (rule conv_core_new) (use okinit as in simp_all)
  then have inv0: "conv_inv ?nfa cl st0"
    unfolding conv_inv_def Let_def st0_def
    by (simp add: u0_def DFA_new_def) (simp add: d0_def DFA_new_def setActions_def DFANode_new_def)
  obtain st where st: "convert_loop ?nfa cl st0 = Some st" "conv_inv ?nfa cl st" "unprocessedNodes st = []"
    "prefix (uniqueNodeIdSetTable st0) (uniqueNodeIdSetTable st)"
    using convert_loop_ok [OF inp inv0] by blast
  let ?d = "conv_dfa st" and ?T = "uniqueNodeIdSetTable st"
  have res: "NFAToDFA_convert nfa = Some ?d"
    using ne as(1) st(1) unfolding NFAToDFA_convert_def NFA_root_def resolveEpsilonClosures_def
    by (simp add: cl_def [symmetric] d0_def [symmetric] u0_def [symmetric] st0_def [symmetric])
  have core: "conv_core ?nfa cl ?d ?T" and fin: "\<And>i. i < length ?T \<Longrightarrow> done_node ?nfa cl ?d ?T i"
    using st(2,3) by (simp_all add: conv_inv_def Let_def)
  have root: "root ?d = 0" and len: "length (nodes ?d) = length ?T" using core by (simp_all add: conv_core_def)
  have T0: "0 < length ?T" "?T ! 0 = u0" using st(4) by (auto simp: prefix_def st0_def)
  have S0: "set (m_buffer (?T ! 0)) = reach_set nfa []"
    using T0 init reach_set_Nil [OF wf ne] by (simp add: u0_def)
  have step: "reach_set nfa (w @ [c]) = step_set ?nfa cl (reach_set nfa w) c" for w c
    using reach_set_snoc [OF wf ne cl(3)] by (simp add: step_set_def cleared_views)
  note run = conversion_run [OF fin core T0(1) S0 step]
  have act: "actions_at ?d i = {a. \<exists>q \<in> set (m_buffer (?T ! i)). (q, a) \<in> nfa_acts nfa}" if "i < length ?T" for i
  proof -
    have "\<forall>q \<in> set (m_buffer (?T ! i)). q < ?n"
      using conv_coreD(2) [OF core that] unfolding node_set_ok_def closed_in_def cl(2) by blast
    then show ?thesis
      unfolding actions_at_def conv_coreD(5) [OF core that] set_actions_def cleared_views nfa_acts_def by blast
  qed
  have "dfa_matches ?d cs = nfa_matches nfa cs" for cs
  proof -
    have "(\<exists>i. dfa_run ?d 0 w = Some i \<and> a \<in> actions_at ?d i) \<longleftrightarrow> (\<exists>q \<in> reach_set nfa w. (q, a) \<in> nfa_acts nfa)" for w a
      using run [of w] act by (auto split: option.splits)
    then show ?thesis unfolding dfa_matches_run nfa_matches_def root reach_set_def by blast
  qed
  moreover have live: "\<not> isKilled (nodes ?d ! i)" if "i < length ?T" for i by (rule conv_coreD(3) [OF core that])
  moreover have "node_wf ?d (nodes ?d ! i)" if i: "i < length ?T" for i
    using fin [OF i] conv_coreD(4) [OF core i] core len live
    by (fastforce simp: node_wf_def done_node_def conv_core_def live_def list_all_iff)
  ultimately show ?thesis
    using res core len T0(1) root by (auto simp: dfa_wf_def live_def list_all_length conv_core_def)
qed


section \<open>The hash of a set of nodes\<close>

text \<open>
  \<open>NodeIdSetToUniqueNodeIdSetSource\<close> hashes a set by the sum of its members, with
  \<open>WTF::intHash\<close>. The table finds a set only if equal sets have equal hashes, in whatever order
  their members are enumerated.
\<close>

definition intHash :: "32 word \<Rightarrow> 32 word" where
  "intHash key =
     (let key = key + NOT (push_bit 15 key);
          key = key XOR drop_bit 10 key;
          key = key + push_bit 3 key;
          key = key XOR drop_bit 6 key;
          key = key + NOT (push_bit 11 key)
      in key XOR drop_bit 16 key)"

definition NodeIdSet_hash :: "nat list \<Rightarrow> 32 word" where
  "NodeIdSet_hash nodeIdSet = intHash (foldl (\<lambda>h nodeId. h + of_nat nodeId) 4207445155 nodeIdSet)"

lemma foldl_plus_sum: "distinct xs \<Longrightarrow> foldl (\<lambda>h x. h + f x) (a :: 'a :: comm_monoid_add) xs = a + sum f (set xs)"
  by (induction xs arbitrary: a) (auto simp: add.assoc)

text \<open>
  C8. Two enumerations of the same set of NFA nodes, which the table's equality identifies, have
  the same hash.
\<close>

theorem equal_sets_hash_equal:
  assumes "distinct s" "distinct (m_buffer u)" "UniqueNodeIdSet_equal s u"
  shows "NodeIdSet_hash (m_buffer u) = NodeIdSet_hash s"
  using assms UniqueNodeIdSet_equal_iff [OF assms(1,2)] by (simp add: NodeIdSet_hash_def foldl_plus_sum)

theorem equal_sets_hash_equal_witness:
  "UniqueNodeIdSet_equal [3, 1, 2] \<lparr>m_buffer = [1, 2, 3], m_dfaNodeId = 0\<rparr> \<and>
   NodeIdSet_hash [1, 2, 3] = NodeIdSet_hash [3, 1, 2]"
  using equal_sets_hash_equal [of "[3, 1, 2]" "\<lparr>m_buffer = [1, 2, 3], m_dfaNodeId = 0\<rparr>"]
  by (simp add: UniqueNodeIdSet_equal_def)

section \<open>The subset construction\<close>

text \<open>
  C7. On every well-formed NFA whose actions fit a DFA node, the conversion terminates, fails no
  release assertion, and the DFA reports for every input exactly the actions that the NFA
  reports: those of the nodes some path reaches on a prefix of the input.
\<close>

theorem convert_matches:
  assumes "nfa_wf nfa" "nfa_nodes nfa \<noteq> []" "length (nfa_actions nfa) \<le> 65535"
  shows "\<exists>d. NFAToDFA_convert nfa = Some d \<and> (\<forall>cs. dfa_matches d cs = nfa_matches nfa cs)"
proof -
  have "length (nfa_actions nfa) \<le> 2 ^ 16 - 1" using assms(3) by simp
  from convert_correct [OF assms(1,2) this] show ?thesis by blast
qed

text \<open>An NFA for \<open>a(b|c)*\<close> with a loop by an epsilon transition.\<close>

definition example_nfa :: NFA where
  "example_nfa = \<lparr>nfa_nodes =
     [\<lparr>rangesStart = 0, rangesEnd = 1, epsilonTransitionTargetsStart = 0, epsilonTransitionTargetsEnd = 0,
       actionStart = 0, actionEnd = 0\<rparr>,
      \<lparr>rangesStart = 1, rangesEnd = 2, epsilonTransitionTargetsStart = 0, epsilonTransitionTargetsEnd = 0,
       actionStart = 0, actionEnd = 1\<rparr>,
      \<lparr>rangesStart = 2, rangesEnd = 2, epsilonTransitionTargetsStart = 0, epsilonTransitionTargetsEnd = 1,
       actionStart = 1, actionEnd = 2\<rparr>],
     nfa_transitions = [\<lparr>targetStart = 0, targetEnd = 1, ir_first = 97, ir_last = 97\<rparr>,
       \<lparr>targetStart = 1, targetEnd = 2, ir_first = 98, ir_last = 99\<rparr>],
     targets = [1, 2], epsilonTransitionsTargets = [1], nfa_actions = [7, 8]\<rparr>"

theorem convert_matches_witness:
  "nfa_wf example_nfa \<and> nfa_nodes example_nfa \<noteq> [] \<and> length (nfa_actions example_nfa) \<le> 65535 \<and>
   (\<exists>d. NFAToDFA_convert example_nfa = Some d \<and> (\<forall>cs. dfa_matches d cs = nfa_matches example_nfa cs))"
proof -
  have h: "nfa_wf example_nfa" "nfa_nodes example_nfa \<noteq> []" "length (nfa_actions example_nfa) \<le> 65535"
    by code_simp+
  show ?thesis using convert_matches [OF h] h by blast
qed

end
