(* ===== verification/Dfa_Merger.thy ===== *)
theory Dfa_Merger
  imports Nfa_To_Dfa "HOL-Library.Monad_Syntax"
begin

text \<open>
  \<open>DFAMerger\<close> of \<open>DFACombiner.cpp\<close>: the product of two DFAs. A node of the product is a signature, the
  indices of a node of each DFA in the halves of a 64-bit word, where the largest index stands for a DFA
  whose run has ended. The ranges of the two nodes are merged in a \<open>MutableRangeList\<close> of signatures. The
  theorem says that merging returns and that the product matches what the two DFAs match.
\<close>

section \<open>Signatures\<close>

datatype WhichDFA = A | B

definition setHalfSignature :: "WhichDFA \<Rightarrow> u64 \<Rightarrow> nat \<Rightarrow> u64" where
  "setHalfSignature whichDFA signature value =
     (let shiftAmount = (if whichDFA = A then 32 else 0);
          mask = push_bit (32 - shiftAmount) 0xffffffff
      in (signature AND mask) OR push_bit shiftAmount (word_of_nat value))"

definition TargetConverter_extend :: "WhichDFA \<Rightarrow> u64 \<Rightarrow> nat \<Rightarrow> u64" where
  "TargetConverter_extend whichDFA destination target = setHalfSignature whichDFA destination target"

definition TargetConverter_convert :: "WhichDFA \<Rightarrow> nat \<Rightarrow> u64" where
  "TargetConverter_convert whichDFA target = TargetConverter_extend whichDFA 0xffffffffffffffff target"

definition invalidNodeIndex :: nat where
  "invalidNodeIndex = 0xffffffff"

definition signatureForIndices :: "nat \<Rightarrow> nat \<Rightarrow> u64" where
  "signatureForIndices aIndex bIndex = push_bit 32 (word_of_nat aIndex) OR word_of_nat bIndex"

definition extractIndexA :: "u64 \<Rightarrow> nat" where
  "extractIndexA signature = unat (drop_bit 32 signature)"

definition extractIndexB :: "u64 \<Rightarrow> nat" where
  "extractIndexB signature = unat signature mod 2 ^ 32"

section \<open>Merging\<close>

record DFAMerger =
  m_output :: DFA
  m_nodeMapping :: "u64 \<rightharpoonup> nat"
  m_unprocessedNodes :: "u64 list"

definition DFAMerger_new :: DFAMerger where
  "DFAMerger_new = \<lparr>m_output = DFA_new, m_nodeMapping = Map.empty, m_unprocessedNodes = []\<rparr>"

definition combined_actions :: "DFA \<Rightarrow> DFA \<Rightarrow> u64 \<Rightarrow> u64 list" where
  "combined_actions a b signature =
     (let indexA = extractIndexA signature; indexB = extractIndexB signature;
          acts = (if indexA \<noteq> invalidNodeIndex then hs_add_all (node_actions a (nodes a ! indexA)) [] else [])
      in if indexB \<noteq> invalidNodeIndex then hs_add_all (node_actions b (nodes b ! indexB)) acts else acts)"

definition getOrCreateCombinedNode :: "DFA \<Rightarrow> DFA \<Rightarrow> u64 \<Rightarrow> DFAMerger \<Rightarrow> nat \<times> DFAMerger" where
  "getOrCreateCombinedNode a b newNodeSignature st =
     (case m_nodeMapping st newNodeSignature of
        Some index \<Rightarrow> (index, st)
      | None \<Rightarrow>
          let out = m_output st;
              newNodeIndex = length (nodes out);
              acts = combined_actions a b newNodeSignature;
              start = length (actions out);
              out = out\<lparr>actions := actions out @ acts,
                        nodes := nodes out @ [setActions start (length acts) DFANode_new]\<rparr>
          in (newNodeIndex,
              st\<lparr>m_output := out, m_nodeMapping := (m_nodeMapping st)(newNodeSignature \<mapsto> newNodeIndex),
                 m_unprocessedNodes := m_unprocessedNodes st @ [newNodeSignature]\<rparr>))"

definition transition_items :: "DFA \<Rightarrow> nat \<Rightarrow> nat item list" where
  "transition_items d index = map (\<lambda>(r, t). (cr_first r, cr_last r, t)) (transitions d (nodes d ! index))"

definition combinedTransitions :: "DFA \<Rightarrow> DFA \<Rightarrow> u64 \<Rightarrow> u64 mrange list option" where
  "combinedTransitions a b unprocessedNode =
     do {
       let indexA = extractIndexA unprocessedNode;
       ranges \<leftarrow> (if indexA \<noteq> invalidNodeIndex
                   then extend_ranges (TargetConverter_convert A) (TargetConverter_extend A) [] (transition_items a indexA)
                   else Some []);
       let indexB = extractIndexB unprocessedNode;
       if indexB \<noteq> invalidNodeIndex
       then extend_ranges (TargetConverter_convert B) (TargetConverter_extend B) ranges (transition_items b indexB)
       else Some ranges
     }"

fun add_combined_transitions :: "DFA \<Rightarrow> DFA \<Rightarrow> u64 mrange list \<Rightarrow> DFAMerger \<Rightarrow> DFAMerger" where
  "add_combined_transitions a b [] st = st"
| "add_combined_transitions a b (r # ranges) st =
     (case getOrCreateCombinedNode a b (mr_data r) st of (targetNodeId, st) \<Rightarrow>
        add_combined_transitions a b ranges
          (st\<lparr>m_output := (m_output st)
             \<lparr>transitionRanges := transitionRanges (m_output st) @ [\<lparr>cr_first = mr_first r, cr_last = mr_last r\<rparr>],
              transitionDestinations := transitionDestinations (m_output st) @ [targetNodeId]\<rparr>\<rparr>))"

definition merge_node :: "DFA \<Rightarrow> DFA \<Rightarrow> DFAMerger \<Rightarrow> DFAMerger option" where
  "merge_node a b st =
     do {
       let unprocessedNode = last (m_unprocessedNodes st);
       let st = st\<lparr>m_unprocessedNodes := butlast (m_unprocessedNodes st)\<rparr>;
       rangeVector \<leftarrow> combinedTransitions a b unprocessedNode;
       ranges \<leftarrow> iterate_ranges rangeVector;
       let start = length (transitionRanges (m_output st));
       let st = add_combined_transitions a b ranges st;
       let out = m_output st;
       let len = length (transitionRanges out) - start;
       sourceNodeId \<leftarrow> m_nodeMapping st unprocessedNode;
       Some (st\<lparr>m_output := out\<lparr>nodes := (nodes out)[sourceNodeId :=
         setTransitions start len (nodes out ! sourceNodeId)]\<rparr>\<rparr>)
     }"

partial_function (option) merge_loop :: "DFA \<Rightarrow> DFA \<Rightarrow> DFAMerger \<Rightarrow> DFAMerger option" where
  "merge_loop a b st =
     (if m_unprocessedNodes st = [] then Some st
      else Option.bind (merge_node a b st) (merge_loop a b))"

declare merge_loop.simps [code]

definition DFAMerger_merge :: "DFA \<Rightarrow> DFA \<Rightarrow> DFA option" where
  "DFAMerger_merge a b =
     do {
       st \<leftarrow> merge_loop a b
         (snd (getOrCreateCombinedNode a b (signatureForIndices (root a) (root b)) DFAMerger_new));
       Some (m_output st)
     }"

section \<open>The halves of a signature\<close>

lemma full_mask: "(0xffffffff :: u64) = mask 32"
  by (simp add: mask_eq_exp_minus_1)

lemma all_ones: "(0xffffffffffffffff :: u64) = mask 64"
  by (simp add: mask_eq_exp_minus_1)

lemma bit_small: "v < 2 ^ 32 \<Longrightarrow> bit (v :: nat) n \<Longrightarrow> n < 32"
  using bit_take_bit_iff [of 32 v n] by (simp add: take_bit_nat_eq_self)

lemma drop_half:
  assumes "v < 2 ^ 32"
  shows "drop_bit 32 (push_bit 32 (word_of_nat v :: u64) OR (s AND mask 32)) = word_of_nat v"
    and "take_bit 32 (push_bit 32 (word_of_nat v :: u64) OR (s AND mask 32)) = take_bit 32 s"
    and "drop_bit 32 ((t AND push_bit 32 (mask 32)) OR word_of_nat v) = drop_bit 32 (t :: u64)"
    and "take_bit 32 ((t AND push_bit 32 (mask 32)) OR (word_of_nat v :: u64)) = word_of_nat v"
proof -
  note b = bit_small [OF assms]
  show "drop_bit 32 (push_bit 32 (word_of_nat v :: u64) OR (s AND mask 32)) = word_of_nat v"
    by (rule bit_word_eqI) (auto simp: bit_simps dest: b)
  show "take_bit 32 (push_bit 32 (word_of_nat v :: u64) OR (s AND mask 32)) = take_bit 32 s"
    by (rule bit_word_eqI) (auto simp: bit_simps dest: b)
  show "drop_bit 32 ((t AND push_bit 32 (mask 32)) OR word_of_nat v) = drop_bit 32 (t :: u64)"
    by (rule bit_word_eqI) (auto simp: bit_simps dest: b bit_imp_le_length)
  show "take_bit 32 ((t AND push_bit 32 (mask 32)) OR (word_of_nat v :: u64)) = word_of_nat v"
    by (rule bit_word_eqI) (auto simp: bit_simps dest: b)
qed

lemma extractIndexB_take: "extractIndexB s = unat (take_bit 32 s)"
  unfolding extractIndexB_def unsigned_take_bit_eq take_bit_nat_def ..

lemma unat_small: "v < 2 ^ 32 \<Longrightarrow> unat (word_of_nat v :: u64) = v"
  by (simp add: unat_of_nat take_bit_nat_eq_self)

lemma extract_setHalf:
  assumes "v < 2 ^ 32"
  shows "extractIndexA (setHalfSignature A s v) = v" "extractIndexB (setHalfSignature A s v) = extractIndexB s"
    and "extractIndexA (setHalfSignature B s v) = extractIndexA s" "extractIndexB (setHalfSignature B s v) = v"
  using drop_half [OF assms] unat_small [OF assms]
  by (simp_all add: setHalfSignature_def extractIndexA_def extractIndexB_take full_mask or.commute del: push_bit_mask_eq)

lemma extract_ones: "extractIndexA 0xffffffffffffffff = invalidNodeIndex" "extractIndexB 0xffffffffffffffff = invalidNodeIndex"
  by (simp_all add: extractIndexA_def extractIndexB_def invalidNodeIndex_def)

lemma extract_signature:
  assumes "v < 2 ^ 32" "w < 2 ^ 32"
  shows "extractIndexA (signatureForIndices v w) = v" "extractIndexB (signatureForIndices v w) = w"
proof -
  have "word_of_nat w AND mask 32 = (word_of_nat w :: u64)"
    by (rule bit_word_eqI) (auto simp: bit_simps dest: bit_small [OF assms(2)])
  then show "extractIndexA (signatureForIndices v w) = v" "extractIndexB (signatureForIndices v w) = w"
    using drop_half(1,2) [OF assms(1), of "word_of_nat w"] unat_small [OF assms(1)] unat_small [OF assms(2)]
    by (simp_all add: signatureForIndices_def extractIndexA_def extractIndexB_take flip: take_bit_eq_mask)
qed

section \<open>The transitions of a signature\<close>

definition step_index :: "DFA \<Rightarrow> nat \<Rightarrow> cchar \<Rightarrow> nat" where
  "step_index d i c = (if i = invalidNodeIndex then invalidNodeIndex
     else case delta d i c of None \<Rightarrow> invalidNodeIndex | Some q \<Rightarrow> q)"

definition advances :: "DFA \<Rightarrow> DFA \<Rightarrow> u64 \<Rightarrow> cchar \<Rightarrow> u64 \<Rightarrow> bool" where
  "advances a b s c s' \<longleftrightarrow> extractIndexA s' = step_index a (extractIndexA s) c \<and>
     extractIndexB s' = step_index b (extractIndexB s) c"

definition ends :: "DFA \<Rightarrow> DFA \<Rightarrow> u64 \<Rightarrow> cchar \<Rightarrow> bool" where
  "ends a b s c \<longleftrightarrow> step_index a (extractIndexA s) c = invalidNodeIndex \<and>
     step_index b (extractIndexB s) c = invalidNodeIndex"

definition index_ok :: "DFA \<Rightarrow> nat \<Rightarrow> bool" where
  "index_ok d i \<longleftrightarrow> i = invalidNodeIndex \<or> live d i"

definition sig_ok :: "DFA \<Rightarrow> DFA \<Rightarrow> u64 \<Rightarrow> bool" where
  "sig_ok a b s \<longleftrightarrow> index_ok a (extractIndexA s) \<and> index_ok b (extractIndexB s)"

definition index_actions :: "DFA \<Rightarrow> nat \<Rightarrow> u64 set" where
  "index_actions d i = (if i = invalidNodeIndex then {} else actions_at d i)"

lemma live_index: "dfa_wf d \<Longrightarrow> live d q \<Longrightarrow> q < invalidNodeIndex"
  by (auto simp: dfa_wf_def live_def u32_max_def invalidNodeIndex_def)

lemma index_bound: "dfa_wf d \<Longrightarrow> live d q \<Longrightarrow> q < 2 ^ 32"
  using live_index [of d q] by (simp add: invalidNodeIndex_def)

lemma step_index_ok: "dfa_wf d \<Longrightarrow> index_ok d i \<Longrightarrow> index_ok d (step_index d i c)"
  by (auto simp: step_index_def index_ok_def dest: delta_live split: option.split)

lemma advances_ok: "dfa_wf a \<Longrightarrow> dfa_wf b \<Longrightarrow> sig_ok a b s \<Longrightarrow> advances a b s c s' \<Longrightarrow> sig_ok a b s'"
  by (simp add: sig_ok_def advances_def step_index_ok)

lemma rl_wf_items:
  "ranges_wf lo trs \<Longrightarrow> rl_wf lo (map (\<lambda>(r, t). (cr_first r, cr_last r, t)) trs)"
  by (induction lo trs rule: ranges_wf.induct) auto

lemma rl_lookup_items:
  "rl_lookup (map (\<lambda>(r, t). (cr_first r, cr_last r, t)) trs) c = lookup_range trs c"
  by (induction trs) (auto simp: in_range_def)

lemma rl_lookup_first: "rl_wf lo xs \<Longrightarrow> (f, l, d) \<in> set xs \<Longrightarrow> lo \<le> f \<and> rl_lookup xs f = Some d"
proof (induction lo xs rule: rl_wf.induct)
  case (2 lo f' l' d' xs)
  then show ?case by fastforce
qed simp

text \<open>The items that one half contributes.\<close>

definition half_items :: "DFA \<Rightarrow> nat \<Rightarrow> nat item list" where
  "half_items d i = (if i \<noteq> invalidNodeIndex then transition_items d i else [])"

lemma half_items_ok:
  assumes "dfa_wf d" "index_ok d i"
  shows "rl_wf 0 (half_items d i)"
    and "rl_lookup (half_items d i) c = (if step_index d i c = invalidNodeIndex then None else Some (step_index d i c))"
proof -
  have l: "live d i" if "i \<noteq> invalidNodeIndex" using assms that by (simp add: index_ok_def)
  show "rl_wf 0 (half_items d i)"
    using dfa_wf_node [OF assms(1) l] by (auto simp: half_items_def transition_items_def node_wf_def intro: rl_wf_items)
  show "rl_lookup (half_items d i) c = (if step_index d i c = invalidNodeIndex then None else Some (step_index d i c))"
  proof (cases "i = invalidNodeIndex")
    case False
    have "q < invalidNodeIndex" if "delta d i c = Some q" for q
      using live_index [OF assms(1) delta_live [OF assms(1) l [OF False] that]] .
    then show ?thesis using False
      by (auto simp: half_items_def transition_items_def step_index_def rl_lookup_items delta_def split: option.split)
  qed (simp add: half_items_def step_index_def)
qed

lemma combinedTransitions_ok:
  assumes wf: "dfa_wf a" "dfa_wf b" and s: "sig_ok a b s"
  shows "\<exists>rs xs. combinedTransitions a b s = Some rs \<and> range_list_of rs xs \<and> rl_wf 0 xs \<and>
    (\<forall>c. case rl_lookup xs c of None \<Rightarrow> ends a b s c | Some s' \<Rightarrow> advances a b s c s')"
proof -
  let ?ia = "extractIndexA s" and ?ib = "extractIndexB s"
  let ?cA = "TargetConverter_convert A" and ?eA = "TargetConverter_extend A"
  let ?cB = "TargetConverter_convert B" and ?eB = "TargetConverter_extend B"
  have iA: "index_ok a ?ia" and iB: "index_ok b ?ib" using s by (simp_all add: sig_ok_def)
  note hA = half_items_ok [OF wf(1) iA] and hB = half_items_ok [OF wf(2) iB]
  obtain rs1 where 1: "extend_ranges ?cA ?eA [] (half_items a ?ia) = Some rs1"
    "range_list_of rs1 (merge_ranges ?cA ?eA [] (half_items a ?ia))"
    using extend_refines [OF range_list_of_Nil _ hA(1), of ?cA ?eA] by auto
  let ?xs1 = "merge_ranges ?cA ?eA [] (half_items a ?ia)"
  have wf1: "rl_wf 0 ?xs1" using hA(1) by (simp add: rl_wf_convert)
  obtain rs2 where 2: "extend_ranges ?cB ?eB rs1 (half_items b ?ib) = Some rs2"
    "range_list_of rs2 (merge_ranges ?cB ?eB ?xs1 (half_items b ?ib))"
    using extend_refines [OF 1(2) wf1 hB(1), of ?cB ?eB] by auto
  let ?xs2 = "merge_ranges ?cB ?eB ?xs1 (half_items b ?ib)"
  have nil: "extend_ranges cv ex rs [] = Some rs" for cv :: "nat \<Rightarrow> u64" and ex rs by (simp add: extend_ranges_def)
  have c: "combinedTransitions a b s = Some rs2"
    using 1(1) 2(1) by (auto simp: combinedTransitions_def Let_def half_items_def nil split: if_splits)
  have wf2: "rl_wf 0 ?xs2" using wf1 hB(1) by (rule rl_wf_merge_ranges)
  have small: "step_index d i ch < 2 ^ 32" if "dfa_wf d" "index_ok d i" for d i ch
    using step_index_ok [OF that, of ch] index_bound [OF that(1)] by (auto simp: index_ok_def invalidNodeIndex_def)
  have "case rl_lookup ?xs2 ch of None \<Rightarrow> ends a b s ch | Some s' \<Rightarrow> advances a b s ch s'" for ch
  proof -
    let ?da = "step_index a ?ia ch" and ?db = "step_index b ?ib ch"
    have "rl_lookup ?xs1 ch = (if ?da = invalidNodeIndex then None else Some (?cA ?da))"
      using hA(2) [of ch] by (simp add: rl_lookup_convert)
    then have l: "rl_lookup ?xs2 ch = merge_data ?cB ?eB (if ?da = invalidNodeIndex then None else Some (?cA ?da))
        (if ?db = invalidNodeIndex then None else Some ?db)"
      using lookup_merge_ranges [OF wf1 hB(1), of ?cB ?eB ch] hB(2) [of ch] by simp
    show ?thesis unfolding l
      using extract_setHalf [OF small [OF wf(1) iA]] extract_setHalf [OF small [OF wf(2) iB]]
      by (auto simp: ends_def advances_def TargetConverter_convert_def TargetConverter_extend_def extract_ones)
  qed
  then show ?thesis using c 2(2) wf2 by blast
qed

section \<open>The invariant\<close>

text \<open>\<open>K\<close> lists the signatures in the order in which their nodes were made.\<close>

definition merge_core :: "DFA \<Rightarrow> DFA \<Rightarrow> u64 list \<Rightarrow> DFAMerger \<Rightarrow> bool" where
  "merge_core a b K st \<longleftrightarrow>
     (let d = m_output st in
      length (nodes d) = length K \<and> distinct K \<and>
      (\<forall>s i. m_nodeMapping st s = Some i \<longleftrightarrow> i < length K \<and> K ! i = s) \<and>
      list_all (sig_ok a b) K \<and> length (transitionRanges d) = length (transitionDestinations d) \<and>
      set (actions d) \<subseteq> set (actions a) \<union> set (actions b) \<and> root d = 0 \<and>
      (\<forall>i < length K. \<not> isKilled (nodes d ! i) \<and>
         actionsStart (nodes d ! i) + actionsLength (nodes d ! i) \<le> length (actions d) \<and>
         actions_at d i = index_actions a (extractIndexA (K ! i)) \<union> index_actions b (extractIndexB (K ! i))))"

definition merger_grows :: "u64 list \<Rightarrow> DFAMerger \<Rightarrow> DFAMerger \<Rightarrow> bool" where
  "merger_grows new st st' \<longleftrightarrow>
     m_unprocessedNodes st' = m_unprocessedNodes st @ new \<and>
     (\<exists>ns. nodes (m_output st') = nodes (m_output st) @ ns \<and>
        list_all (\<lambda>n. transitionsStart n = 0 \<and> transitionsLength n = 0) ns) \<and>
     prefix (transitionRanges (m_output st)) (transitionRanges (m_output st')) \<and>
     prefix (transitionDestinations (m_output st)) (transitionDestinations (m_output st'))"

lemma merger_grows_refl: "merger_grows [] st st"
  by (auto simp: merger_grows_def)

lemma merger_grows_trans: "merger_grows n1 st1 st2 \<Longrightarrow> merger_grows n2 st2 st3 \<Longrightarrow> merger_grows (n1 @ n2) st1 st3"
  by (fastforce simp: merger_grows_def intro: prefix_order.trans)

lemma actions_at_subset: "dfa_wf d \<Longrightarrow> live d q \<Longrightarrow> actions_at d q \<subseteq> set (actions d)"
  using dfa_wf_node [of d q] by (auto simp: actions_at_def node_actions_def node_wf_def)

lemma set_combined_actions:
  "set (combined_actions a b s) = index_actions a (extractIndexA s) \<union> index_actions b (extractIndexB s)"
  by (auto simp: combined_actions_def Let_def index_actions_def actions_at_def)

lemma index_actions_subset: "dfa_wf d \<Longrightarrow> index_ok d i \<Longrightarrow> index_actions d i \<subseteq> set (actions d)"
  using actions_at_subset [of d i] by (auto simp: index_actions_def index_ok_def)

lemma combined_actions_ok:
  assumes "dfa_wf a" "dfa_wf b" "sig_ok a b s" "card (set (actions a) \<union> set (actions b)) < 2 ^ 16"
  shows "set (combined_actions a b s) \<subseteq> set (actions a) \<union> set (actions b)" "length (combined_actions a b s) < 2 ^ 16"
proof -
  show sub: "set (combined_actions a b s) \<subseteq> set (actions a) \<union> set (actions b)"
    using assms(1-3) index_actions_subset unfolding set_combined_actions by (fastforce simp: sig_ok_def)
  have "distinct (combined_actions a b s)" by (simp add: combined_actions_def Let_def)
  then have "length (combined_actions a b s) = card (set (combined_actions a b s))" by (simp add: distinct_card)
  also have "\<dots> \<le> card (set (actions a) \<union> set (actions b))" using sub by (intro card_mono) auto
  finally show "length (combined_actions a b s) < 2 ^ 16" using assms(4) by simp
qed

lemma getOrCreateCombinedNode_ok:
  assumes wf: "dfa_wf a" "dfa_wf b" "card (set (actions a) \<union> set (actions b)) < 2 ^ 16"
    and core: "merge_core a b K st" and s: "sig_ok a b s"
    and g: "getOrCreateCombinedNode a b s st = (j, st')"
  shows "\<exists>new. merge_core a b (K @ new) st' \<and> merger_grows new st st' \<and> j < length (K @ new) \<and> (K @ new) ! j = s \<and>
    transitionRanges (m_output st') = transitionRanges (m_output st) \<and>
    transitionDestinations (m_output st') = transitionDestinations (m_output st)"
proof (cases "m_nodeMapping st s")
  case (Some i)
  then have "j = i" "st' = st" using g by (auto simp: getOrCreateCombinedNode_def)
  moreover have "i < length K" "K ! i = s" using core Some by (auto simp: merge_core_def Let_def)
  ultimately show ?thesis using core merger_grows_refl by (intro exI [of _ "[]"]) simp
next
  case None
  let ?d = "m_output st" and ?acts = "combined_actions a b s"
  let ?n = "setActions (length (actions ?d)) (length ?acts) DFANode_new"
  let ?d' = "?d\<lparr>actions := actions ?d @ ?acts, nodes := nodes ?d @ [?n]\<rparr>"
  have st': "st' = st\<lparr>m_output := ?d', m_nodeMapping := (m_nodeMapping st)(s \<mapsto> length (nodes ?d)),
      m_unprocessedNodes := m_unprocessedNodes st @ [s]\<rparr>" and j: "j = length (nodes ?d)"
    using g None by (auto simp: getOrCreateCombinedNode_def Let_def)
  note ca = combined_actions_ok [OF wf(1,2) s wf(3)]
  have len: "length (nodes ?d) = length K" and map: "\<And>s i. m_nodeMapping st s = Some i \<longleftrightarrow> i < length K \<and> K ! i = s"
    and nod: "\<And>i. i < length K \<Longrightarrow> \<not> isKilled (nodes ?d ! i) \<and>
         actionsStart (nodes ?d ! i) + actionsLength (nodes ?d ! i) \<le> length (actions ?d) \<and>
         actions_at ?d i = index_actions a (extractIndexA (K ! i)) \<union> index_actions b (extractIndexB (K ! i))"
    and other: "distinct K" "list_all (sig_ok a b) K" "length (transitionRanges ?d) = length (transitionDestinations ?d)"
      "set (actions ?d) \<subseteq> set (actions a) \<union> set (actions b)" "root ?d = 0"
    using core by (simp_all add: merge_core_def Let_def)
  have fresh: "s \<notin> set K" using map [of s] None by (auto simp: in_set_conv_nth)
  have al: "actionsLength ?n = length ?acts" "actionsStart ?n = length (actions ?d)" "\<not> isKilled ?n"
    using ca(2) by (simp_all add: setActions_def DFANode_new_def isKilled_def)
  have new_node: "node_actions ?d' ?n = ?acts"
    unfolding node_actions_def al by (rule nth_equalityI) (simp_all add: nth_append)
  have "\<not> isKilled (nodes ?d' ! i) \<and> actionsStart (nodes ?d' ! i) + actionsLength (nodes ?d' ! i) \<le> length (actions ?d') \<and>
      actions_at ?d' i = index_actions a (extractIndexA ((K @ [s]) ! i)) \<union> index_actions b (extractIndexB ((K @ [s]) ! i))"
    if i: "i < length (K @ [s])" for i
  proof (cases "i < length K")
    case True
    then have n: "nodes ?d' ! i = nodes ?d ! i" using len by (simp add: nth_append)
    have "node_actions ?d' (nodes ?d ! i) = node_actions ?d (nodes ?d ! i)"
      by (rule node_actions_append) (use nod [OF True] in auto)
    then have "actions_at ?d' i = actions_at ?d i" by (simp only: actions_at_def n)
    then show ?thesis using nod [OF True] n True by (simp add: nth_append)
  next
    case False
    then have e: "i = length K" using i by simp
    then have n: "nodes ?d' ! i = ?n" using len by (simp add: nth_append)
    have "actions_at ?d' i = set ?acts" unfolding actions_at_def n new_node ..
    moreover have "actionsStart ?n + actionsLength ?n \<le> length (actions ?d')" unfolding al by simp
    ultimately show ?thesis using al(3) e unfolding n set_combined_actions by (simp add: nth_append)
  qed
  moreover have "((m_nodeMapping st)(s \<mapsto> length K)) s' = Some i \<longleftrightarrow> i < length (K @ [s]) \<and> (K @ [s]) ! i = s'" for s' i
    using map [of s' i] fresh by (auto simp: nth_append less_Suc_eq)
  ultimately have "merge_core a b (K @ [s]) st'"
    using other len s fresh ca(1) unfolding merge_core_def Let_def st' by simp
  moreover have "merger_grows [s] st st'"
    by (auto simp: merger_grows_def st' setActions_def DFANode_new_def)
  ultimately show ?thesis using len j st' by (intro exI [of _ "[s]"]) simp
qed

lemma add_combined_transitions_ok:
  assumes wf: "dfa_wf a" "dfa_wf b" "card (set (actions a) \<union> set (actions b)) < 2 ^ 16"
    and "merge_core a b K st" "\<forall>m \<in> set ms. sig_ok a b (mr_data m)"
  shows "\<exists>new ts. merge_core a b (K @ new) (add_combined_transitions a b ms st) \<and>
    merger_grows new st (add_combined_transitions a b ms st) \<and>
    transitionRanges (m_output (add_combined_transitions a b ms st)) = transitionRanges (m_output st) @ map crange ms \<and>
    transitionDestinations (m_output (add_combined_transitions a b ms st)) = transitionDestinations (m_output st) @ ts \<and>
    list_all2 (\<lambda>m t. t < length (K @ new) \<and> (K @ new) ! t = mr_data m) ms ts"
  using assms(4,5)
proof (induction ms arbitrary: K st)
  case Nil
  then show ?case using merger_grows_refl by (intro exI [of _ "[]"]) simp
next
  case (Cons m ms)
  obtain j st1 where g: "getOrCreateCombinedNode a b (mr_data m) st = (j, st1)" by (cases "getOrCreateCombinedNode a b (mr_data m) st")
  obtain n1 where 1: "merge_core a b (K @ n1) st1" "merger_grows n1 st st1" "j < length (K @ n1)" "(K @ n1) ! j = mr_data m"
    "transitionRanges (m_output st1) = transitionRanges (m_output st)"
    "transitionDestinations (m_output st1) = transitionDestinations (m_output st)"
    using getOrCreateCombinedNode_ok [OF wf Cons.prems(1) _ g] Cons.prems(2) by auto
  let ?st = "st1\<lparr>m_output := (m_output st1)\<lparr>transitionRanges := transitionRanges (m_output st1) @ [crange m],
      transitionDestinations := transitionDestinations (m_output st1) @ [j]\<rparr>\<rparr>"
  have core: "merge_core a b (K @ n1) ?st"
    using 1(1) by (simp add: merge_core_def Let_def actions_at_def node_actions_def)
  have g1: "merger_grows [] st1 ?st" by (simp add: merger_grows_def)
  obtain n2 ts where 2: "merge_core a b ((K @ n1) @ n2) (add_combined_transitions a b ms ?st)"
    "merger_grows n2 ?st (add_combined_transitions a b ms ?st)"
    "transitionRanges (m_output (add_combined_transitions a b ms ?st)) = transitionRanges (m_output ?st) @ map crange ms"
    "transitionDestinations (m_output (add_combined_transitions a b ms ?st)) = transitionDestinations (m_output ?st) @ ts"
    "list_all2 (\<lambda>m t. t < length ((K @ n1) @ n2) \<and> ((K @ n1) @ n2) ! t = mr_data m) ms ts"
    using Cons.IH [OF core] Cons.prems(2) by auto
  have e: "add_combined_transitions a b (m # ms) st = add_combined_transitions a b ms ?st"
    using g by (simp add: crange_def)
  have "merger_grows (n1 @ n2) st (add_combined_transitions a b ms ?st)"
    using merger_grows_trans [OF 1(2) merger_grows_trans [OF g1 2(2)]] by simp
  moreover have "((K @ n1) @ n2) ! j = mr_data m" using 1(3,4) by (simp add: nth_append del: append_assoc)
  ultimately show ?case unfolding e using 1(3,5,6) 2
    by (intro exI [of _ "n1 @ n2"] exI [of _ "j # ts"]) simp
qed

definition merged_node :: "DFA \<Rightarrow> DFA \<Rightarrow> DFA \<Rightarrow> u64 list \<Rightarrow> nat \<Rightarrow> bool" where
  "merged_node a b d K i \<longleftrightarrow>
     transitionsStart (nodes d ! i) + transitionsLength (nodes d ! i) \<le> length (transitionRanges d) \<and>
     ranges_wf 0 (transitions d (nodes d ! i)) \<and>
     (\<forall>(r, t) \<in> set (transitions d (nodes d ! i)). t < length K) \<and>
     (\<forall>c. case delta d i c of None \<Rightarrow> ends a b (K ! i) c | Some j \<Rightarrow> advances a b (K ! i) c (K ! j))"

lemma merged_node_target:
  "merged_node a b d K i \<Longrightarrow> delta d i c = Some j \<Longrightarrow> j < length K"
  using lookup_range_SomeD [of "transitions d (nodes d ! i)" c j] by (fastforce simp: merged_node_def delta_def)

lemma merged_node_mono:
  assumes m: "merged_node a b d K i" "i < length K" "nodes d' ! i = nodes d ! i"
    and p: "prefix (transitionRanges d) (transitionRanges d')" "prefix (transitionDestinations d) (transitionDestinations d')"
      "length (transitionRanges d) = length (transitionDestinations d)"
  shows "merged_node a b d' (K @ new) i"
proof -
  have tr: "transitions d' (nodes d' ! i) = transitions d (nodes d ! i)"
    using m p by (auto simp: merged_node_def intro!: transitions_prefix)
  have de: "delta d' i c = delta d i c" for c by (simp add: delta_def tr)
  have "case delta d' i c of None \<Rightarrow> ends a b ((K @ new) ! i) c | Some j \<Rightarrow> advances a b ((K @ new) ! i) c ((K @ new) ! j)" for c
  proof -
    have "case delta d i c of None \<Rightarrow> ends a b (K ! i) c | Some j \<Rightarrow> advances a b (K ! i) c (K ! j)"
      using m(1) by (simp add: merged_node_def)
    then show ?thesis using m(2) merged_node_target [OF m(1), of c] unfolding de
      by (cases "delta d i c") (simp_all add: nth_append)
  qed
  moreover have "length (transitionRanges d) \<le> length (transitionRanges d')" using p(1) by (rule prefix_length_le)
  ultimately show ?thesis using m(1,3) unfolding merged_node_def tr by fastforce
qed

lemma merged_node_new:
  assumes wf: "rl_wf 0 (map item_of ms)"
    and look: "\<And>c. case rl_lookup (map item_of ms) c of None \<Rightarrow> ends a b (K ! k) c | Some s' \<Rightarrow> advances a b (K ! k) c s'"
    and ts: "list_all2 (\<lambda>m t. t < length K \<and> K ! t = mr_data m) ms ts"
    and tr: "transitionRanges d = pre @ map crange ms" "transitionDestinations d = pre' @ ts" "length pre' = length pre"
    and n: "transitionsStart (nodes d ! k) = length pre" "transitionsLength (nodes d ! k) = length ms"
  shows "merged_node a b d K k"
proof -
  have len: "length ts = length ms" using ts by (auto dest: list_all2_lengthD)
  have z: "transitions d (nodes d ! k) = zip (map crange ms) ts"
    using n tr len by (intro nth_equalityI) (auto simp: transitions_def nth_append)
  have "\<forall>(r, t) \<in> set (zip (map crange ms) ts). t < length K"
    using list_all2_mem2 [OF ts] by (auto dest!: set_zip_rightD)
  moreover have "case delta d k c of None \<Rightarrow> ends a b (K ! k) c | Some j \<Rightarrow> advances a b (K ! k) c (K ! j)" for c
    using lookup_zip_items [OF ts, of c] look [of c] unfolding delta_def z
    by (cases "rl_lookup (map item_of ms) c"; cases "lookup_range (zip (map crange ms) ts) c") auto
  ultimately show ?thesis
    unfolding merged_node_def z using n tr ranges_wf_of_items [OF wf len] by simp
qed

definition merge_inv :: "DFA \<Rightarrow> DFA \<Rightarrow> u64 list \<Rightarrow> DFAMerger \<Rightarrow> bool" where
  "merge_inv a b K st \<longleftrightarrow> merge_core a b K st \<and> distinct (m_unprocessedNodes st) \<and>
     set (m_unprocessedNodes st) \<subseteq> set K \<and>
     (\<forall>i < length K. if K ! i \<in> set (m_unprocessedNodes st)
        then transitionsStart (nodes (m_output st) ! i) = 0 \<and> transitionsLength (nodes (m_output st) ! i) = 0
        else merged_node a b (m_output st) K i)"

lemma merge_core_setTransitions:
  assumes "merge_core a b K st"
  shows "merge_core a b K (st\<lparr>m_output := (m_output st)\<lparr>nodes := (nodes (m_output st))[k := setTransitions x y (nodes (m_output st) ! k)]\<rparr>\<rparr>)"
proof -
  let ?ns = "nodes (m_output st)"
  have nth: "?ns[k := setTransitions x y (?ns ! k)] ! i = (if i = k \<and> k < length ?ns then setTransitions x y (?ns ! i) else ?ns ! i)"
    for i by (cases "k < length ?ns") (auto simp: list_update_beyond)
  have same: "actionsStart (?ns[k := setTransitions x y (?ns ! k)] ! i) = actionsStart (?ns ! i)"
    "actionsLength (?ns[k := setTransitions x y (?ns ! k)] ! i) = actionsLength (?ns ! i)"
    "isKilled (?ns[k := setTransitions x y (?ns ! k)] ! i) = isKilled (?ns ! i)" for i
    unfolding nth by (simp_all add: setTransitions_def isKilled_def)
  show ?thesis using assms unfolding merge_core_def Let_def by (simp add: same actions_at_def node_actions_def)
qed

lemma merge_node_ok:
  assumes wf: "dfa_wf a" "dfa_wf b" "card (set (actions a) \<union> set (actions b)) < 2 ^ 16"
    and inv: "merge_inv a b K st" and ne: "m_unprocessedNodes st \<noteq> []"
  shows "\<exists>new st'. merge_node a b st = Some st' \<and> merge_inv a b (K @ new) st' \<and>
    length (m_unprocessedNodes st') + 1 = length (m_unprocessedNodes st) + length new"
proof -
  let ?S = "m_unprocessedNodes st" and ?d = "m_output st"
  let ?u = "last ?S"
  have core: "merge_core a b K st" and S: "distinct ?S" "set ?S \<subseteq> set K"
    and nod: "\<And>i. i < length K \<Longrightarrow> if K ! i \<in> set ?S
        then transitionsStart (nodes ?d ! i) = 0 \<and> transitionsLength (nodes ?d ! i) = 0 else merged_node a b ?d K i"
    using inv by (simp_all add: merge_inv_def)
  have u: "?u \<in> set ?S" and Sb: "?S = butlast ?S @ [?u]" using ne by simp_all
  have "distinct (butlast ?S @ [?u])" "set (butlast ?S @ [?u]) = set ?S" using S(1) Sb by simp_all
  then have bl: "?u \<notin> set (butlast ?S)" "set ?S = insert ?u (set (butlast ?S))" "distinct (butlast ?S)"
    by auto
  obtain k where k: "k < length K" "K ! k = ?u" using u S(2) by (auto simp: in_set_conv_nth subset_iff)
  have sig: "sig_ok a b ?u" using core k by (auto simp: merge_core_def Let_def list_all_length)
  obtain rs xs where c: "combinedTransitions a b ?u = Some rs" "range_list_of rs xs" "rl_wf 0 xs"
    "\<And>c. case rl_lookup xs c of None \<Rightarrow> ends a b ?u c | Some s' \<Rightarrow> advances a b ?u c s'"
    using combinedTransitions_ok [OF wf(1,2) sig] by blast
  obtain ms where ms: "iterate_ranges rs = Some ms" "map item_of ms = xs" using iterate_ranges_items [OF c(2)] by blast
  have okm: "\<forall>m \<in> set ms. sig_ok a b (mr_data m)"
  proof
    fix m assume "m \<in> set ms"
    then have "item_of m \<in> set xs" using ms(2) by auto
    then have "rl_lookup xs (mr_first m) = Some (mr_data m)"
      using rl_lookup_first [OF c(3)] by (auto simp: item_of_def)
    then show "sig_ok a b (mr_data m)" using c(4) [of "mr_first m"] advances_ok [OF wf(1,2) sig] by simp
  qed
  define st1 where "st1 = st\<lparr>m_unprocessedNodes := butlast ?S\<rparr>"
  have core1: "merge_core a b K st1" using core by (simp add: st1_def merge_core_def)
  define st2 where "st2 = add_combined_transitions a b ms st1"
  obtain new ts where 2: "merge_core a b (K @ new) st2" "merger_grows new st1 st2"
    "transitionRanges (m_output st2) = transitionRanges ?d @ map crange ms"
    "transitionDestinations (m_output st2) = transitionDestinations ?d @ ts"
    "list_all2 (\<lambda>m t. t < length (K @ new) \<and> (K @ new) ! t = mr_data m) ms ts"
    using add_combined_transitions_ok [OF wf core1 okm] by (auto simp: st1_def st2_def)
  let ?d2 = "m_output st2" and ?K = "K @ new"
  have len: "length (nodes ?d2) = length ?K" "length (nodes ?d) = length K"
    "length (transitionRanges ?d) = length (transitionDestinations ?d)"
    using 2(1) core by (simp_all add: merge_core_def Let_def)
  have Kk: "?K ! k = ?u" using k by (simp add: nth_append)
  have map: "m_nodeMapping st2 ?u = Some k" using 2(1) k by (simp add: merge_core_def Let_def nth_append)
  obtain ns where ns: "nodes ?d2 = nodes ?d @ ns" "list_all (\<lambda>n. transitionsStart n = 0 \<and> transitionsLength n = 0) ns"
    and un: "m_unprocessedNodes st2 = butlast ?S @ new"
    using 2(2) by (auto simp: merger_grows_def st1_def)
  let ?len = "length (transitionRanges ?d2) - length (transitionRanges ?d)"
  define d3 where "d3 = ?d2\<lparr>nodes := (nodes ?d2)[k := setTransitions (length (transitionRanges ?d)) ?len (nodes ?d2 ! k)]\<rparr>"
  define st3 where "st3 = st2\<lparr>m_output := d3\<rparr>"
  have res: "merge_node a b st = Some st3"
  proof -
    have out: "m_output st1 = ?d" by (simp add: st1_def)
    show ?thesis
      unfolding merge_node_def Let_def st1_def [symmetric] c(1) ms(1) bind.simps st2_def [symmetric] map out
      by (simp add: st3_def d3_def)
  qed
  have core3: "merge_core a b ?K st3"
    unfolding st3_def d3_def by (rule merge_core_setTransitions [OF 2(1)])
  have dist: "distinct ?K" using 2(1) by (simp add: merge_core_def Let_def)
  have lm: "length ms \<le> 128" using rl_wf_length [OF c(3)] ms(2) by auto
  have nodes3: "if ?K ! i \<in> set (m_unprocessedNodes st3)
        then transitionsStart (nodes d3 ! i) = 0 \<and> transitionsLength (nodes d3 ! i) = 0
        else merged_node a b d3 ?K i" if i: "i < length ?K" for i
  proof -
    have mem: "?K ! i \<in> set (m_unprocessedNodes st3) \<longleftrightarrow>
        (if i < length K then K ! i \<in> set (butlast ?S) else True)"
    proof (cases "i < length K")
      case True
      then have "K ! i \<notin> set new" using dist by (meson disjoint_iff distinct_append nth_mem)
      then show ?thesis using True by (simp add: st3_def un nth_append)
    next
      case False
      then have "?K ! i \<in> set new" using i by (simp add: nth_append)
      then show ?thesis using False by (simp add: st3_def un)
    qed
    consider "i = k" | "i \<noteq> k" "i < length K" | "\<not> i < length K" by blast
    then show ?thesis
    proof cases
      case 1
      have "merged_node a b d3 ?K k"
      proof (rule merged_node_new)
        show "rl_wf 0 (map item_of ms)" using c(3) ms(2) by simp
        show "case rl_lookup (map item_of ms) ch of None \<Rightarrow> ends a b (?K ! k) ch | Some s' \<Rightarrow> advances a b (?K ! k) ch s'" for ch
          using c(4) [of ch] unfolding ms(2) Kk .
        show "list_all2 (\<lambda>m t. t < length ?K \<and> ?K ! t = mr_data m) ms ts" by (rule 2(5))
        show "transitionRanges d3 = transitionRanges ?d @ map crange ms"
          "transitionDestinations d3 = transitionDestinations ?d @ ts" using 2(3,4) by (simp_all add: d3_def)
        show "length (transitionDestinations ?d) = length (transitionRanges ?d)" using len(3) by simp
        show "transitionsStart (nodes d3 ! k) = length (transitionRanges ?d)" "transitionsLength (nodes d3 ! k) = length ms"
          using k(1) len(1) lm 2(3) by (simp_all add: d3_def setTransitions_def)
      qed
      then show ?thesis using mem 1 k bl(1) by simp
    next
      case 2
      have n: "nodes d3 ! i = nodes ?d ! i" using 2 ns(1) len(2) by (simp add: d3_def nth_append)
      have "K ! i \<noteq> ?u" using dist k 2 by (metis distinct_append nth_eq_iff_index_eq)
      then have "K ! i \<in> set ?S \<longleftrightarrow> K ! i \<in> set (butlast ?S)" using bl(2) by simp
      moreover have "merged_node a b ?d K i \<Longrightarrow> merged_node a b d3 ?K i"
        by (rule merged_node_mono [OF _ 2(2) n])
          (use \<open>transitionRanges ?d2 = _\<close> \<open>transitionDestinations ?d2 = _\<close> len(3) in \<open>simp_all add: d3_def\<close>)
      ultimately show ?thesis using nod [OF 2(2)] mem 2(2) n by (auto split: if_splits)
    next
      case 3
      then have "nodes d3 ! i = ns ! (i - length K)" using k(1) ns(1) len(2) by (simp add: d3_def nth_append)
      moreover have "i - length K < length ns" using i 3 len ns(1) by simp
      ultimately show ?thesis using mem 3 ns(2) by (simp add: list_all_length)
    qed
  qed
  have "merge_inv a b ?K st3"
  proof -
    have "distinct (m_unprocessedNodes st3)" "set (m_unprocessedNodes st3) \<subseteq> set ?K"
      using dist S(2) bl by (auto simp: st3_def un)
    then show ?thesis using core3 nodes3 by (simp add: merge_inv_def st3_def)
  qed
  moreover have "length (m_unprocessedNodes st3) + 1 = length ?S + length new"
    using ne by (simp add: st3_def un)
  ultimately show ?thesis using res by blast
qed

section \<open>The loop\<close>

lemma merge_core_bound: "merge_core a b K st \<Longrightarrow> length K \<le> card (UNIV :: u64 set)"
  by (auto simp: merge_core_def Let_def simp flip: distinct_card intro: card_mono)

lemma merge_loop_ok:
  assumes wf: "dfa_wf a" "dfa_wf b" "card (set (actions a) \<union> set (actions b)) < 2 ^ 16"
    and "merge_inv a b K st"
  shows "\<exists>new st'. merge_loop a b st = Some st' \<and> merge_inv a b (K @ new) st' \<and> m_unprocessedNodes st' = []"
  using assms(4)
proof (induction "2 * (card (UNIV :: u64 set) - length K) + length (m_unprocessedNodes st)" arbitrary: K st rule: less_induct)
  case less
  show ?case
  proof (cases "m_unprocessedNodes st = []")
    case True
    then have "merge_loop a b st = Some st" by (subst merge_loop.simps) simp
    then show ?thesis using less(2) True by (intro exI [of _ "[]"]) auto
  next
    case False
    obtain new st1 where 1: "merge_node a b st = Some st1" "merge_inv a b (K @ new) st1"
      "length (m_unprocessedNodes st1) + 1 = length (m_unprocessedNodes st) + length new"
      using merge_node_ok [OF wf less(2) False] by blast
    have "merge_core a b (K @ new) st1" using 1(2) unfolding merge_inv_def by (rule conjunct1)
    then have "length (K @ new) \<le> card (UNIV :: u64 set)" by (rule merge_core_bound)
    then have "2 * (card (UNIV :: u64 set) - length (K @ new)) + length (m_unprocessedNodes st1) <
        2 * (card (UNIV :: u64 set) - length K) + length (m_unprocessedNodes st)"
      using 1(3) unfolding length_append by linarith
    from less(1) [OF this 1(2)] obtain new' st' where
      2: "merge_loop a b st1 = Some st'" "merge_inv a b ((K @ new) @ new') st'" "m_unprocessedNodes st' = []" by blast
    have "merge_loop a b st = merge_loop a b st1" using False 1(1) by (subst merge_loop.simps) simp
    then show ?thesis using 2 by (intro exI [of _ "new @ new'"]) auto
  qed
qed

section \<open>Runs of the product\<close>

definition run_index :: "DFA \<Rightarrow> cchar list \<Rightarrow> nat" where
  "run_index d w = (case dfa_run d (root d) w of None \<Rightarrow> invalidNodeIndex | Some q \<Rightarrow> q)"

lemma run_live: "dfa_wf d \<Longrightarrow> dfa_run d (root d) w = Some q \<Longrightarrow> live d q"
proof (induction w arbitrary: q rule: rev_induct)
  case Nil
  then show ?case by (simp add: dfa_wf_def)
next
  case (snoc c w)
  then show ?case by (auto simp: dfa_run_snoc bind_eq_Some_conv intro: delta_live)
qed

lemma run_index_snoc:
  assumes "dfa_wf d"
  shows "run_index d (w @ [c]) = step_index d (run_index d w) c"
proof (cases "dfa_run d (root d) w")
  case None
  then show ?thesis by (simp add: run_index_def step_index_def dfa_run_snoc)
next
  case (Some q)
  have "q < invalidNodeIndex" using live_index [OF assms run_live [OF assms Some]] .
  then show ?thesis using Some by (simp add: run_index_def step_index_def dfa_run_snoc)
qed

lemma matches_union:
  "dfa_matches d cs =
     (\<Union>w \<in> {w. prefix w cs}. case dfa_run d (root d) w of None \<Rightarrow> {} | Some q \<Rightarrow> actions_at d q)"
  unfolding dfa_matches_run by (auto split: option.splits)

lemma matches_index:
  assumes "dfa_wf d"
  shows "dfa_matches d cs = (\<Union>w \<in> {w. prefix w cs}. index_actions d (run_index d w))"
proof -
  have "index_actions d (run_index d w) = (case dfa_run d (root d) w of None \<Rightarrow> {} | Some q \<Rightarrow> actions_at d q)" for w
  proof (cases "dfa_run d (root d) w")
    case (Some q)
    have "q < invalidNodeIndex" using live_index [OF assms run_live [OF assms Some]] .
    then show ?thesis using Some by (simp add: run_index_def index_actions_def)
  qed (simp add: run_index_def index_actions_def)
  then show ?thesis unfolding matches_union by simp
qed

lemma product_run:
  assumes wf: "dfa_wf a" "dfa_wf b" and nod: "\<And>i. i < length K \<Longrightarrow> merged_node a b d K i"
    and K0: "0 < length K" "K ! 0 = signatureForIndices (root a) (root b)" "root d = 0"
  shows "case dfa_run d (root d) w of
      None \<Rightarrow> run_index a w = invalidNodeIndex \<and> run_index b w = invalidNodeIndex
    | Some i \<Rightarrow> i < length K \<and> extractIndexA (K ! i) = run_index a w \<and> extractIndexB (K ! i) = run_index b w"
proof (induction w rule: rev_induct)
  case Nil
  have "live a (root a)" "live b (root b)" using wf by (simp_all add: dfa_wf_def)
  then have "root a < 2 ^ 32" "root b < 2 ^ 32" using wf index_bound by blast+
  then show ?case using K0 extract_signature [of "root a" "root b"] by (simp add: run_index_def)
next
  case (snoc c w)
  show ?case
  proof (cases "dfa_run d (root d) w")
    case None
    then show ?thesis using snoc by (simp add: dfa_run_snoc run_index_snoc [OF wf(1)] run_index_snoc [OF wf(2)] step_index_def)
  next
    case (Some i)
    then have i: "i < length K" "extractIndexA (K ! i) = run_index a w" "extractIndexB (K ! i) = run_index b w"
      using snoc by simp_all
    have m: "case delta d i c of None \<Rightarrow> ends a b (K ! i) c | Some j \<Rightarrow> advances a b (K ! i) c (K ! j)"
      using nod [OF i(1)] by (simp add: merged_node_def)
    show ?thesis
    proof (cases "delta d i c")
      case None
      then show ?thesis using Some m i
        by (simp add: dfa_run_snoc ends_def run_index_snoc [OF wf(1)] run_index_snoc [OF wf(2)])
    next
      case j: (Some j)
      then show ?thesis using Some m i merged_node_target [OF nod [OF i(1)] j]
        by (simp add: dfa_run_snoc advances_def run_index_snoc [OF wf(1)] run_index_snoc [OF wf(2)])
    qed
  qed
qed

lemma merge_correct:
  assumes wf: "dfa_wf a" "dfa_wf b" "card (set (actions a) \<union> set (actions b)) < 2 ^ 16"
  shows "\<exists>d. DFAMerger_merge a b = Some d \<and> (\<forall>cs. dfa_matches d cs = dfa_matches a cs \<union> dfa_matches b cs) \<and>
    (length (nodes d) < u32_max \<longrightarrow> dfa_wf d) \<and> list_all (\<lambda>n. \<not> isKilled n) (nodes d) \<and>
    set (actions d) \<subseteq> set (actions a) \<union> set (actions b)"
proof -
  let ?s = "signatureForIndices (root a) (root b)"
  have l: "live a (root a)" "live b (root b)" using wf by (simp_all add: dfa_wf_def)
  then have e: "extractIndexA ?s = root a" "extractIndexB ?s = root b"
    using wf index_bound by (auto intro: extract_signature)
  have s: "sig_ok a b ?s" using l e by (simp add: sig_ok_def index_ok_def)
  have core0: "merge_core a b [] DFAMerger_new"
    by (simp add: merge_core_def DFAMerger_new_def DFA_new_def Let_def)
  obtain j st where g: "getOrCreateCombinedNode a b ?s DFAMerger_new = (j, st)" by (cases "getOrCreateCombinedNode a b ?s DFAMerger_new")
  obtain new where 1: "merge_core a b ([] @ new) st" "merger_grows new DFAMerger_new st" "j < length ([] @ new)" "([] @ new) ! j = ?s"
    using getOrCreateCombinedNode_ok [OF wf core0 s g] by blast
  have "m_nodeMapping DFAMerger_new ?s = None" by (simp add: DFAMerger_new_def)
  then have un: "m_unprocessedNodes st = [?s]" using g
    by (auto simp: getOrCreateCombinedNode_def DFAMerger_new_def Let_def)
  then have new: "new = [?s]" using 1(2) by (simp add: merger_grows_def DFAMerger_new_def)
  have inv0: "merge_inv a b [?s] st"
  proof -
    have "transitionsStart (nodes (m_output st) ! 0) = 0 \<and> transitionsLength (nodes (m_output st) ! 0) = 0"
      using 1(1,2) new by (auto simp: merger_grows_def merge_core_def DFAMerger_new_def DFA_new_def Let_def list_all_length)
    then show ?thesis using 1(1) new un by (simp add: merge_inv_def)
  qed
  obtain new' st' where 2: "merge_loop a b st = Some st'" "merge_inv a b ([?s] @ new') st'" "m_unprocessedNodes st' = []"
    using merge_loop_ok [OF wf inv0] by blast
  let ?K = "[?s] @ new'" and ?d = "m_output st'"
  have core: "merge_core a b ?K st'" and nod: "\<And>i. i < length ?K \<Longrightarrow> merged_node a b ?d ?K i"
    using 2(2,3) by (simp_all add: merge_inv_def)
  have res: "DFAMerger_merge a b = Some ?d" using 2(1) g by (simp add: DFAMerger_merge_def)
  have c: "length (nodes ?d) = length ?K" "root ?d = 0" "set (actions ?d) \<subseteq> set (actions a) \<union> set (actions b)"
    "length (transitionRanges ?d) = length (transitionDestinations ?d)"
    and acts: "\<And>i. i < length ?K \<Longrightarrow> \<not> isKilled (nodes ?d ! i) \<and>
       actionsStart (nodes ?d ! i) + actionsLength (nodes ?d ! i) \<le> length (actions ?d) \<and>
       actions_at ?d i = index_actions a (extractIndexA (?K ! i)) \<union> index_actions b (extractIndexB (?K ! i))"
    using core by (simp_all add: merge_core_def Let_def)
  have live: "live ?d i \<longleftrightarrow> i < length ?K" for i using c(1) acts [of i] by (auto simp: live_def)
  have alive: "list_all (\<lambda>n. \<not> isKilled n) (nodes ?d)" using c(1) acts by (auto simp: list_all_length)
  have "dfa_wf ?d" if "length (nodes ?d) < u32_max"
  proof -
    have "node_wf ?d (nodes ?d ! i)" if "i < length ?K" for i
      using nod [OF that] acts [OF that] c(4) by (auto simp: merged_node_def node_wf_def list_all_iff live)
    then show ?thesis using that c(1,2) live [of 0] unfolding dfa_wf_def list_all_length by auto
  qed
  moreover have "dfa_matches ?d cs = dfa_matches a cs \<union> dfa_matches b cs" for cs
  proof -
    have "(case dfa_run ?d (root ?d) w of None \<Rightarrow> {} | Some i \<Rightarrow> actions_at ?d i) =
        index_actions a (run_index a w) \<union> index_actions b (run_index b w)" for w
    proof (cases "dfa_run ?d (root ?d) w")
      case None
      then show ?thesis using product_run [OF wf(1,2) nod, of w] c(2) by (simp add: index_actions_def)
    next
      case (Some i)
      then have "i < length ?K" "extractIndexA (?K ! i) = run_index a w" "extractIndexB (?K ! i) = run_index b w"
        using product_run [OF wf(1,2) nod, of w] c(2) by simp_all
      then show ?thesis using Some acts [of i] by simp
    qed
    then have "dfa_matches ?d cs = (\<Union>w \<in> {w. prefix w cs}. index_actions a (run_index a w) \<union> index_actions b (run_index b w))"
      unfolding matches_union by simp
    then show ?thesis unfolding matches_index [OF wf(1)] matches_index [OF wf(2)] by blast
  qed
  ultimately show ?thesis using res alive c(3) by blast
qed

section \<open>The property\<close>

text \<open>
  C28: merging two DFAs returns, and the merged DFA matches on every URL exactly the actions that one of the
  two matches, as long as the two have fewer than \<open>2 ^ 16\<close> different actions, which is the width of the
  length of a node's actions. Its nodes are well formed and none is killed, so that it can be minimised, merged again or compiled.
\<close>

theorem merge_matches:
  assumes "dfa_wf a" "dfa_wf b" "card (set (actions a) \<union> set (actions b)) < 2 ^ 16"
  shows "\<exists>d. DFAMerger_merge a b = Some d \<and> (\<forall>cs. dfa_matches d cs = dfa_matches a cs \<union> dfa_matches b cs) \<and>
    (length (nodes d) < u32_max \<longrightarrow> dfa_wf d) \<and> list_all (\<lambda>n. \<not> isKilled n) (nodes d) \<and>
    set (actions d) \<subseteq> set (actions a) \<union> set (actions b)"
  using assms by (rule merge_correct)

definition one_character_dfa :: "cchar \<Rightarrow> u64 \<Rightarrow> DFA" where
  "one_character_dfa c act =
     \<lparr>nodes = [setTransitions 0 1 DFANode_new, setActions 0 1 DFANode_new], actions = [act],
      transitionRanges = [\<lparr>cr_first = c, cr_last = c\<rparr>], transitionDestinations = [1], root = 0\<rparr>"

lemma one_character_dfa_wf: "0 \<le> c \<Longrightarrow> c \<le> 127 \<Longrightarrow> dfa_wf (one_character_dfa c act)"
  by (simp add: dfa_wf_def one_character_dfa_def live_def node_wf_def transitions_def setTransitions_def
      setActions_def DFANode_new_def isKilled_def u32_max_def)

lemma one_character_dfa_matches: "dfa_matches (one_character_dfa c act) [c] = {act}"
  by (simp add: dfa_matches_def one_character_dfa_def delta_def transitions_def setTransitions_def in_range_def
      setActions_def DFANode_new_def actions_at_def node_actions_def)

theorem merge_matches_witness:
  "\<exists>d. DFAMerger_merge (one_character_dfa 97 1) (one_character_dfa 97 2) = Some d \<and> dfa_matches d [97] = {1, 2}"
proof -
  have "card (set (actions (one_character_dfa 97 1)) \<union> set (actions (one_character_dfa 97 2))) < 2 ^ 16"
    by (simp add: one_character_dfa_def)
  from merge_matches [OF one_character_dfa_wf one_character_dfa_wf this]
  obtain d where "DFAMerger_merge (one_character_dfa 97 1) (one_character_dfa 97 2) = Some d"
    "\<forall>cs. dfa_matches d cs = dfa_matches (one_character_dfa 97 1) cs \<union> dfa_matches (one_character_dfa 97 2) cs" by auto
  then show ?thesis by (auto simp: one_character_dfa_matches)
qed

end
