(* ===== verification/Partition_Refinement.thy ===== *)
theory Partition_Refinement
  imports Prelude
begin

text \<open>
  The class \<open>Partition\<close> of \<open>DFAMinimizer.cpp\<close>: a partition of \<open>0 .. n - 1\<close> whose sets are segments of one
  vector. Marking moves an element to the front of its segment; refining splits every segment that is
  marked in part, giving the smaller half a new index. The lemmas say what the two operations do to the equivalence that the partition stands for.
\<close>

section \<open>Definitions\<close>

record SetDescriptor =
  sd_start :: nat
  sd_size :: nat
  markedCount :: nat

definition indexAfterMarkedElements :: "SetDescriptor \<Rightarrow> nat" where
  "indexAfterMarkedElements s = sd_start s + markedCount s"

definition sd_end :: "SetDescriptor \<Rightarrow> nat" where
  "sd_end s = sd_start s + sd_size s"

record Partition =
  m_sets :: "SetDescriptor list"
  m_partitionedElements :: "nat list"
  m_elementPositionInPartitionedNodes :: "nat list"
  m_elementToSetMap :: "nat list"
  m_setsMarkedInCurrentGeneration :: "nat list"

definition Partition_new :: Partition where
  "Partition_new = \<lparr>m_sets = [], m_partitionedElements = [], m_elementPositionInPartitionedNodes = [],
     m_elementToSetMap = [], m_setsMarkedInCurrentGeneration = []\<rparr>"

definition Partition_initialize :: "nat \<Rightarrow> Partition \<Rightarrow> Partition" where
  "Partition_initialize n p =
     (if n = 0 then p
      else p\<lparr>m_partitionedElements := [0 ..< n], m_elementPositionInPartitionedNodes := [0 ..< n],
             m_elementToSetMap := replicate n 0,
             m_sets := m_sets p @ [\<lparr>sd_start = 0, sd_size = n, markedCount = 0\<rparr>]\<rparr>)"

text \<open>The elements of a vector that is resized are not initialized; the model takes 0.\<close>

definition reserveUninitializedCapacity :: "nat \<Rightarrow> Partition \<Rightarrow> Partition" where
  "reserveUninitializedCapacity elementCount p =
     p\<lparr>m_partitionedElements := replicate elementCount 0,
       m_elementPositionInPartitionedNodes := replicate elementCount 0,
       m_elementToSetMap := replicate elementCount 0\<rparr>"

definition addSetUnchecked :: "nat \<Rightarrow> nat \<Rightarrow> Partition \<Rightarrow> Partition" where
  "addSetUnchecked start setSize p = p\<lparr>m_sets := m_sets p @ [\<lparr>sd_start = start, sd_size = setSize, markedCount = 0\<rparr>]\<rparr>"

definition setElementUnchecked :: "nat \<Rightarrow> nat \<Rightarrow> nat \<Rightarrow> Partition \<Rightarrow> Partition" where
  "setElementUnchecked elementIndex positionInPartition setIndex p =
     p\<lparr>m_partitionedElements := (m_partitionedElements p)[positionInPartition := elementIndex],
       m_elementPositionInPartitionedNodes :=
         (m_elementPositionInPartitionedNodes p)[elementIndex := positionInPartition],
       m_elementToSetMap := (m_elementToSetMap p)[elementIndex := setIndex]\<rparr>"

definition startOffsetOfSet :: "Partition \<Rightarrow> nat \<Rightarrow> nat" where
  "startOffsetOfSet p setIndex = sd_start (m_sets p ! setIndex)"

definition markElementInCurrentGeneration :: "nat \<Rightarrow> Partition \<Rightarrow> Partition" where
  "markElementInCurrentGeneration elementIndex p =
     (let setIndex = m_elementToSetMap p ! elementIndex;
          setDescriptor = m_sets p ! setIndex;
          elementPositionInPartition = m_elementPositionInPartitionedNodes p ! elementIndex;
          firstUnmarkedElementPositionInPartition = indexAfterMarkedElements setDescriptor;
          firstUnmarkedElement = m_partitionedElements p ! firstUnmarkedElementPositionInPartition;
          elements = (m_partitionedElements p)[firstUnmarkedElementPositionInPartition := elementIndex];
          elements = elements[elementPositionInPartition := firstUnmarkedElement];
          positions = (m_elementPositionInPartitionedNodes p)[elementIndex := firstUnmarkedElementPositionInPartition];
          positions = positions[firstUnmarkedElement := elementPositionInPartition]
      in p\<lparr>m_partitionedElements := elements, m_elementPositionInPartitionedNodes := positions,
           m_setsMarkedInCurrentGeneration :=
             (if markedCount setDescriptor = 0 then m_setsMarkedInCurrentGeneration p @ [setIndex]
              else m_setsMarkedInCurrentGeneration p),
           m_sets := (m_sets p)[setIndex := setDescriptor\<lparr>markedCount := markedCount setDescriptor + 1\<rparr>]\<rparr>)"

text \<open>The body of the loop of \<open>refineGeneration\<close>, with the index of the new set where there is one.\<close>

definition refine_set :: "nat \<Rightarrow> Partition \<Rightarrow> Partition \<times> nat option" where
  "refine_set setIndex p =
     (let setDescriptor = m_sets p ! setIndex in
      if markedCount setDescriptor = sd_size setDescriptor
      then (p\<lparr>m_sets := (m_sets p)[setIndex := setDescriptor\<lparr>markedCount := 0\<rparr>]\<rparr>, None)
      else
        let newSetIsMarkedSet = (u32 (markedCount setDescriptor * 2) \<le> sd_size setDescriptor);
            newSet = (if newSetIsMarkedSet
                      then \<lparr>sd_start = sd_start setDescriptor, sd_size = markedCount setDescriptor, markedCount = 0\<rparr>
                      else \<lparr>sd_start = sd_start setDescriptor + markedCount setDescriptor,
                            sd_size = sd_size setDescriptor - markedCount setDescriptor, markedCount = 0\<rparr>);
            setDescriptor = (if newSetIsMarkedSet
                             then setDescriptor\<lparr>sd_start := sd_start setDescriptor + markedCount setDescriptor\<rparr>
                             else setDescriptor);
            setDescriptor = setDescriptor\<lparr>sd_size := sd_size setDescriptor - sd_size newSet, markedCount := 0\<rparr>;
            newSetIndex = length (m_sets p);
            elementToSet = foldl (\<lambda>m i. m[m_partitionedElements p ! i := newSetIndex]) (m_elementToSetMap p)
                             [sd_start newSet ..< sd_end newSet]
        in (p\<lparr>m_sets := (m_sets p)[setIndex := setDescriptor] @ [newSet], m_elementToSetMap := elementToSet\<rparr>,
            Some newSetIndex))"

fun refine_marked :: "(nat \<Rightarrow> Partition \<Rightarrow> 'x \<Rightarrow> 'x) \<Rightarrow> nat list \<Rightarrow> Partition \<times> 'x \<Rightarrow> Partition \<times> 'x" where
  "refine_marked function [] (p, x) = (p, x)"
| "refine_marked function (setIndex # sets) (p, x) =
     (case refine_set setIndex p of
        (p, None) \<Rightarrow> refine_marked function sets (p, x)
      | (p, Some newSetIndex) \<Rightarrow> refine_marked function sets (p, function newSetIndex p x))"

definition refineGeneration :: "(nat \<Rightarrow> Partition \<Rightarrow> 'x \<Rightarrow> 'x) \<Rightarrow> Partition \<times> 'x \<Rightarrow> Partition \<times> 'x" where
  "refineGeneration function st =
     (case refine_marked function (m_setsMarkedInCurrentGeneration (fst st)) st of
        (p, x) \<Rightarrow> (p\<lparr>m_setsMarkedInCurrentGeneration := []\<rparr>, x))"

definition iterateSet :: "nat \<Rightarrow> Partition \<Rightarrow> nat list" where
  "iterateSet setIndex p =
     map ((!) (m_partitionedElements p)) [sd_start (m_sets p ! setIndex) ..< sd_end (m_sets p ! setIndex)]"

definition Partition_setIndex :: "nat \<Rightarrow> Partition \<Rightarrow> nat" where
  "Partition_setIndex elementIndex p = m_elementToSetMap p ! elementIndex"

definition firstElementInSet :: "nat \<Rightarrow> Partition \<Rightarrow> nat" where
  "firstElementInSet setIndex p = m_partitionedElements p ! sd_start (m_sets p ! setIndex)"

definition Partition_size :: "Partition \<Rightarrow> nat" where
  "Partition_size p = length (m_sets p)"

section \<open>Well-formed partitions\<close>

abbreviation "cls p e \<equiv> m_elementToSetMap p ! e"

abbreviation "seg p k \<equiv> m_sets p ! k"

text \<open>The elements lie where their positions say, and a set is the segment its descriptor names.\<close>

definition part_wf :: "nat \<Rightarrow> Partition \<Rightarrow> bool" where
  "part_wf n p \<longleftrightarrow>
     length (m_partitionedElements p) = n \<and> length (m_elementPositionInPartitionedNodes p) = n \<and>
     length (m_elementToSetMap p) = n \<and>
     (\<forall>e < n. m_elementPositionInPartitionedNodes p ! e < n \<and>
        m_partitionedElements p ! (m_elementPositionInPartitionedNodes p ! e) = e) \<and>
     (\<forall>i < n. m_partitionedElements p ! i < n \<and>
        m_elementPositionInPartitionedNodes p ! (m_partitionedElements p ! i) = i) \<and>
     (\<forall>e < n. cls p e < length (m_sets p)) \<and>
     (\<forall>k < length (m_sets p). sd_end (seg p k) \<le> n \<and> 0 < sd_size (seg p k) \<and> markedCount (seg p k) \<le> sd_size (seg p k)) \<and>
     (\<forall>e < n. \<forall>k < length (m_sets p). cls p e = k \<longleftrightarrow>
        sd_start (seg p k) \<le> m_elementPositionInPartitionedNodes p ! e \<and>
        m_elementPositionInPartitionedNodes p ! e < sd_end (seg p k))"

definition marked :: "nat \<Rightarrow> Partition \<Rightarrow> nat set" where
  "marked n p = {e. e < n \<and> m_elementPositionInPartitionedNodes p ! e < indexAfterMarkedElements (seg p (cls p e))}"

definition marks_ok :: "nat list \<Rightarrow> Partition \<Rightarrow> bool" where
  "marks_ok ks p \<longleftrightarrow> distinct ks \<and> (\<forall>k. k \<in> set ks \<longleftrightarrow> k < length (m_sets p) \<and> 0 < markedCount (seg p k))"

text \<open>A partition between two generations.\<close>

definition part_ok :: "nat \<Rightarrow> Partition \<Rightarrow> bool" where
  "part_ok n p \<longleftrightarrow> part_wf n p \<and> marks_ok (m_setsMarkedInCurrentGeneration p) p"

definition class_of :: "nat \<Rightarrow> Partition \<Rightarrow> nat \<Rightarrow> nat set" where
  "class_of n p k = {e. e < n \<and> cls p e = k}"

lemma part_wfD:
  assumes "part_wf n p"
  shows "length (m_partitionedElements p) = n" "length (m_elementPositionInPartitionedNodes p) = n"
    "length (m_elementToSetMap p) = n"
    "e < n \<Longrightarrow> m_elementPositionInPartitionedNodes p ! e < n"
    "e < n \<Longrightarrow> m_partitionedElements p ! (m_elementPositionInPartitionedNodes p ! e) = e"
    "i < n \<Longrightarrow> m_partitionedElements p ! i < n"
    "i < n \<Longrightarrow> m_elementPositionInPartitionedNodes p ! (m_partitionedElements p ! i) = i"
    "e < n \<Longrightarrow> cls p e < length (m_sets p)"
    "k < length (m_sets p) \<Longrightarrow> sd_end (seg p k) \<le> n"
    "k < length (m_sets p) \<Longrightarrow> 0 < sd_size (seg p k)"
    "k < length (m_sets p) \<Longrightarrow> markedCount (seg p k) \<le> sd_size (seg p k)"
    "e < n \<Longrightarrow> k < length (m_sets p) \<Longrightarrow> cls p e = k \<longleftrightarrow>
        sd_start (seg p k) \<le> m_elementPositionInPartitionedNodes p ! e \<and>
        m_elementPositionInPartitionedNodes p ! e < sd_end (seg p k)"
  using assms by (simp_all add: part_wf_def)

lemma set_segment:
  assumes wf: "part_wf n p" and k: "k < length (m_sets p)" and sub: "sd_start (seg p k) \<le> i" "j \<le> sd_end (seg p k)"
  shows "(!) (m_partitionedElements p) ` {i ..< j} =
    {e. e < n \<and> i \<le> m_elementPositionInPartitionedNodes p ! e \<and> m_elementPositionInPartitionedNodes p ! e < j}" (is "?l = ?r")
proof
  note w = part_wfD [OF wf]
  show "?l \<subseteq> ?r" using w(6,7) w(9) [OF k] sub by fastforce
  show "?r \<subseteq> ?l"
  proof
    fix e assume "e \<in> ?r"
    then show "e \<in> ?l" using w(5) [of e] by (intro image_eqI [of _ _ "m_elementPositionInPartitionedNodes p ! e"]) auto
  qed
qed

lemma class_segment:
  assumes "part_wf n p" "k < length (m_sets p)"
  shows "class_of n p k = (!) (m_partitionedElements p) ` {sd_start (seg p k) ..< sd_end (seg p k)}"
  using set_segment [OF assms, of "sd_start (seg p k)" "sd_end (seg p k)"] part_wfD(12) [OF assms(1) _ assms(2)]
  by (auto simp: class_of_def)

lemma set_iterateSet: "part_wf n p \<Longrightarrow> k < length (m_sets p) \<Longrightarrow> set (iterateSet k p) = class_of n p k"
  by (simp add: iterateSet_def class_segment)

lemma inj_elements: "part_wf n p \<Longrightarrow> inj_on ((!) (m_partitionedElements p)) {..<n}"
  by (rule inj_onI) (metis lessThan_iff part_wfD(7))

lemma distinct_iterateSet: "part_wf n p \<Longrightarrow> k < length (m_sets p) \<Longrightarrow> distinct (iterateSet k p)"
  using inj_elements [of n p] part_wfD(9) [of n p k]
  by (auto simp: iterateSet_def distinct_map intro!: inj_on_subset [where A = "{..<n}"])

lemma class_nonempty: "part_wf n p \<Longrightarrow> k < length (m_sets p) \<Longrightarrow> class_of n p k \<noteq> {}"
  using part_wfD(10) [of n p k] by (auto simp: class_segment sd_end_def)

lemma firstElement_class:
  assumes "part_wf n p" "k < length (m_sets p)"
  shows "firstElementInSet k p \<in> class_of n p k"
  using part_wfD(10) [OF assms] unfolding class_segment [OF assms] by (auto simp: firstElementInSet_def sd_end_def)

lemma marked_class:
  assumes "part_wf n p" "k < length (m_sets p)"
  shows "marked n p \<inter> class_of n p k = (!) (m_partitionedElements p) ` {sd_start (seg p k) ..< indexAfterMarkedElements (seg p k)}"
proof -
  have b: "indexAfterMarkedElements (seg p k) \<le> sd_end (seg p k)"
    using part_wfD(11) [OF assms] by (simp add: indexAfterMarkedElements_def sd_end_def)
  have "e \<in> marked n p \<inter> class_of n p k \<longleftrightarrow> e < n \<and> sd_start (seg p k) \<le> m_elementPositionInPartitionedNodes p ! e \<and>
      m_elementPositionInPartitionedNodes p ! e < indexAfterMarkedElements (seg p k)" for e
    using part_wfD(12) [OF assms(1) _ assms(2), of e] b by (auto simp: marked_def class_of_def)
  then show ?thesis unfolding set_segment [OF assms order_refl b] by blast
qed

section \<open>Marking\<close>

lemma mark_part_wf:
  assumes wf: "part_wf n p" and e: "e < n" "e \<notin> marked n p"
  defines "p' \<equiv> markElementInCurrentGeneration e p"
  shows "part_wf n p'" "marked n p' = insert e (marked n p)" "m_elementToSetMap p' = m_elementToSetMap p"
    "length (m_sets p') = length (m_sets p)"
proof -
  note w = part_wfD [OF wf]
  let ?pe = "m_partitionedElements p" and ?pos = "m_elementPositionInPartitionedNodes p"
  let ?k = "cls p e" let ?S = "seg p ?k"
  let ?i = "?pos ! e" and ?j = "indexAfterMarkedElements ?S"
  let ?f = "?pe ! ?j"
  let ?pe' = "m_partitionedElements p'" and ?pos' = "m_elementPositionInPartitionedNodes p'"
  have k: "?k < length (m_sets p)" using w(8) e by blast
  have seg: "sd_start ?S \<le> ?i" "?i < sd_end ?S" using w(12) [OF e(1) k] by auto
  have ij: "?j \<le> ?i" using e by (simp add: marked_def)
  have jn: "?j < n" "sd_start ?S \<le> ?j" "?j < sd_end ?S"
    using ij seg w(9) [OF k] by (auto simp: indexAfterMarkedElements_def)
  have f: "?f < n" "?pos ! ?f = ?j" using w(6,7) jn by auto
  have kf: "cls p ?f = ?k" using w(12) [OF f(1) k] f(2) jn by simp
  have pe': "?pe' = ?pe[?j := e, ?i := ?f]" and pos': "?pos' = ?pos[e := ?j, ?f := ?i]"
    and map': "m_elementToSetMap p' = m_elementToSetMap p"
    and sets': "m_sets p' = (m_sets p)[?k := ?S\<lparr>markedCount := markedCount ?S + 1\<rparr>]"
    by (simp_all add: p'_def markElementInCurrentGeneration_def Let_def)
  have in': "?i < n" using w(4) e by blast
  have P: "?pos' ! x = (if x = ?f then ?i else if x = e then ?j else ?pos ! x)" if "x < n" for x
    using that f(1) e(1) w(2) by (auto simp: pos' nth_list_update)
  have Q: "?pe' ! y = (if y = ?i then ?f else if y = ?j then e else ?pe ! y)" if "y < n" for y
    using that jn in' w(1) by (auto simp: pe' nth_list_update)
  have ef: "e = ?f \<longleftrightarrow> ?i = ?j" using w(5) [OF e(1)] f(2) by metis
  show map: "m_elementToSetMap p' = m_elementToSetMap p" by (rule map')
  show len: "length (m_sets p') = length (m_sets p)" by (simp add: sets')
  have S': "sd_start (seg p' k) = sd_start (seg p k)" "sd_size (seg p' k) = sd_size (seg p k)"
    "sd_end (seg p' k) = sd_end (seg p k)"
    "markedCount (seg p' k) = markedCount (seg p k) + (if k = ?k then 1 else 0)" for k
    using \<open>?k < length (m_sets p)\<close> by (auto simp: sets' nth_list_update sd_end_def)
  show "part_wf n p'"
    unfolding part_wf_def
  proof (intro conjI allI impI)
    show "length ?pe' = n" "length ?pos' = n" "length (m_elementToSetMap p') = n"
      using w(1-3) by (simp_all add: pe' pos' map')
    fix x assume x: "x < n"
    show "?pos' ! x < n" using P [OF x] jn in' w(4) [OF x] by auto
    show "?pe' ! (?pos' ! x) = x"
    proof -
      have "?pos ! x \<noteq> ?i" if "x \<noteq> e" using w(5) [OF x] w(5) [OF e(1)] that by metis
      moreover have "?pos ! x \<noteq> ?j" if "x \<noteq> ?f" using w(5) [OF x] that by metis
      ultimately show ?thesis using P [OF x] Q [of "?pos' ! x"] ef jn in' w(4,5) [OF x] by auto
    qed
    show "?pe' ! x < n" using Q [OF x] f e w(6) [OF x] by auto
    show "?pos' ! (?pe' ! x) = x"
    proof -
      have "?pe ! x \<noteq> e" if "x \<noteq> ?i" using w(7) [OF x] that by metis
      moreover have "?pe ! x \<noteq> ?f" if "x \<noteq> ?j" using w(7) [OF x] f(2) that by metis
      ultimately show ?thesis using Q [OF x] P [of "?pe' ! x"] ef f e w(6,7) [OF x] by auto
    qed
    show "cls p' x < length (m_sets p')" using w(8) [OF x] by (simp add: map' len)
    fix k' assume k': "k' < length (m_sets p')"
    then have k'': "k' < length (m_sets p)" by (simp add: len)
    show "cls p' x = k' \<longleftrightarrow> sd_start (seg p' k') \<le> ?pos' ! x \<and> ?pos' ! x < sd_end (seg p' k')"
      using w(12) [OF x k''] w(12) [OF e(1) k''] w(12) [OF f(1) k''] P [OF x] f(2) kf by (auto simp: map' S')
  next
    fix k' assume "k' < length (m_sets p')"
    then have k'': "k' < length (m_sets p)" by (simp add: len)
    show "sd_end (seg p' k') \<le> n" "0 < sd_size (seg p' k')" using w(9,10) [OF k''] by (simp_all add: S')
    have "markedCount ?S < sd_size ?S" using jn(3) by (simp add: indexAfterMarkedElements_def sd_end_def)
    then show "markedCount (seg p' k') \<le> sd_size (seg p' k')" using w(11) [OF k''] by (auto simp: S')
  qed
  have "x \<in> marked n p' \<longleftrightarrow> x = e \<or> x \<in> marked n p" for x
  proof (cases "x < n")
    case True
    have "?pos ! x \<noteq> ?j" if "x \<noteq> ?f" using w(5) [OF True] that by metis
    then show ?thesis using True P [OF True] ef ij e(2) f kf
      by (auto simp: marked_def map' S' indexAfterMarkedElements_def)
  qed (use e in \<open>auto simp: marked_def\<close>)
  then show "marked n p' = insert e (marked n p)" by blast
qed

lemma mark_marks_ok:
  assumes wf: "part_wf n p" and m: "marks_ok (m_setsMarkedInCurrentGeneration p) p" and e: "e < n"
  shows "marks_ok (m_setsMarkedInCurrentGeneration (markElementInCurrentGeneration e p)) (markElementInCurrentGeneration e p)"
proof -
  let ?k = "cls p e"
  have k: "?k < length (m_sets p)" using part_wfD(8) [OF wf e] .
  have "k \<in> set (m_setsMarkedInCurrentGeneration p) \<longleftrightarrow> k < length (m_sets p) \<and> 0 < markedCount (seg p k)" for k
    using m by (simp add: marks_ok_def)
  then show ?thesis using m k
    by (auto simp: marks_ok_def markElementInCurrentGeneration_def Let_def nth_list_update)
qed

lemma mark_ok:
  assumes "part_ok n p" "e < n" "e \<notin> marked n p"
  shows "part_ok n (markElementInCurrentGeneration e p)"
    "marked n (markElementInCurrentGeneration e p) = insert e (marked n p)"
    "m_elementToSetMap (markElementInCurrentGeneration e p) = m_elementToSetMap p"
    "length (m_sets (markElementInCurrentGeneration e p)) = length (m_sets p)"
  using mark_part_wf [of n p e] mark_marks_ok [of n p e] assms by (auto simp: part_ok_def)

lemma mark_all:
  assumes "part_ok n p" "distinct es" "set es \<subseteq> {..<n}" "set es \<inter> marked n p = {}"
  shows "part_ok n (foldl (\<lambda>p e. markElementInCurrentGeneration e p) p es) \<and>
    marked n (foldl (\<lambda>p e. markElementInCurrentGeneration e p) p es) = set es \<union> marked n p \<and>
    m_elementToSetMap (foldl (\<lambda>p e. markElementInCurrentGeneration e p) p es) = m_elementToSetMap p \<and>
    length (m_sets (foldl (\<lambda>p e. markElementInCurrentGeneration e p) p es)) = length (m_sets p)"
  using assms
proof (induction es arbitrary: p)
  case (Cons e es)
  have e: "e < n" "e \<notin> marked n p" using Cons.prems by auto
  note 1 = mark_ok [OF Cons.prems(1) e]
  have "set es \<inter> marked n (markElementInCurrentGeneration e p) = {}" using Cons.prems 1(2) by auto
  then show ?case using Cons.IH [OF 1(1)] Cons.prems 1 by auto
qed simp

section \<open>Refining\<close>

lemma foldl_assign_nth:
  "\<lbrakk>e < length m; \<forall>i \<in> set is. f i < length m\<rbrakk> \<Longrightarrow>
   foldl (\<lambda>m i. m[f i := v]) m is ! e = (if e \<in> f ` set is then v else m ! e)"
  by (induction "is" arbitrary: m) (auto simp: nth_list_update)

lemma foldl_assign_length: "length (foldl (\<lambda>m i. m[f i := v]) m is) = length m"
  by (induction "is" arbitrary: m) auto

lemma descriptor_update:
  "s\<lparr>sd_start := x, sd_size := y, markedCount := z\<rparr> = \<lparr>sd_start = x, sd_size = y, markedCount = z\<rparr>"
  "s\<lparr>sd_size := y, markedCount := z\<rparr> = \<lparr>sd_start = sd_start s, sd_size = y, markedCount = z\<rparr>"
  for s :: SetDescriptor
  by (cases s; simp)+

text \<open>
  What splitting one set does: the elements \<open>X\<close> of the set, either its marked elements or the others, get a
  new class; a set whose elements are all marked stays as it is.
\<close>

lemma refine_set_wf:
  assumes wf: "part_wf n p" and k: "k < length (m_sets p)" "0 < markedCount (seg p k)"
    and r: "refine_set k p = (p', new)"
  shows "part_wf n p' \<and> marked n p' = marked n p - class_of n p k \<and>
    m_partitionedElements p' = m_partitionedElements p \<and>
    (\<forall>j < length (m_sets p). markedCount (seg p' j) = (if j = k then 0 else markedCount (seg p j))) \<and>
    m_setsMarkedInCurrentGeneration p' = m_setsMarkedInCurrentGeneration p \<and>
    (case new of
       None \<Rightarrow> class_of n p k \<subseteq> marked n p \<and> m_elementToSetMap p' = m_elementToSetMap p \<and>
         length (m_sets p') = length (m_sets p)
     | Some N \<Rightarrow> N = length (m_sets p) \<and> length (m_sets p') = Suc N \<and> markedCount (seg p' N) = 0 \<and>
         (\<exists>X. X \<subset> class_of n p k \<and> X \<noteq> {} \<and> (X = marked n p \<inter> class_of n p k \<or> X = class_of n p k - marked n p) \<and>
            (\<forall>e < n. cls p' e = (if e \<in> X then N else cls p e))))"
proof -
  note w = part_wfD [OF wf]
  let ?pe = "m_partitionedElements p" and ?pos = "m_elementPositionInPartitionedNodes p"
  let ?S = "seg p k" let ?mc = "markedCount ?S" and ?a = "sd_start ?S" and ?b = "sd_end ?S"
  let ?j = "?a + ?mc"
  have in_k: "e \<in> class_of n p k \<longleftrightarrow> ?a \<le> ?pos ! e \<and> ?pos ! e < ?b" if "e < n" for e
    using w(12) [OF that k(1)] that by (auto simp: class_of_def)
  have in_m: "e \<in> marked n p \<longleftrightarrow> ?pos ! e < ?j" if "e \<in> class_of n p k" for e
    using that by (auto simp: marked_def class_of_def indexAfterMarkedElements_def)
  have other: "?pos ! e < sd_start (seg p k') \<or> sd_end (seg p k') \<le> ?pos ! e"
    if "e \<in> class_of n p k" "k' < length (m_sets p)" "k' \<noteq> k" for e k'
    using w(12) [of e k'] that by (auto simp: class_of_def)
  have mcb: "?mc \<le> sd_size ?S" using w(11) [OF k(1)] .
  show ?thesis
  proof (cases "?mc = sd_size ?S")
    case True
    then have p': "p' = p\<lparr>m_sets := (m_sets p)[k := ?S\<lparr>markedCount := 0\<rparr>]\<rparr>" "new = None"
      using r by (simp_all add: refine_set_def)
    have all: "class_of n p k \<subseteq> marked n p"
    proof
      fix e assume e: "e \<in> class_of n p k"
      then have "e < n" by (simp add: class_of_def)
      then show "e \<in> marked n p" using in_k [of e] in_m [OF e] e True by (simp add: sd_end_def)
    qed
    have S': "sd_start (seg p' j) = sd_start (seg p j)" "sd_size (seg p' j) = sd_size (seg p j)"
      "sd_end (seg p' j) = sd_end (seg p j)" "markedCount (seg p' j) = (if j = k then 0 else markedCount (seg p j))" for j
      using k(1) by (auto simp: p' nth_list_update sd_end_def)
    have "part_wf n p'" using wf k(1) unfolding part_wf_def S' by (simp add: p')
    moreover have "marked n p' = marked n p - class_of n p k"
    proof -
      have "e \<in> marked n p' \<longleftrightarrow> e \<in> marked n p \<and> e \<notin> class_of n p k" if e: "e < n" for e
      proof -
        have "cls p' e = cls p e" "m_elementPositionInPartitionedNodes p' = ?pos" by (simp_all add: p')
        then show ?thesis using in_k [OF e] e
          by (cases "e \<in> class_of n p k") (auto simp: marked_def indexAfterMarkedElements_def S' class_of_def)
      qed
      moreover have "marked n p' \<subseteq> {..<n}" "marked n p \<subseteq> {..<n}" by (auto simp: marked_def)
      ultimately show ?thesis by blast
    qed
    ultimately show ?thesis using all S'(4) by (simp add: p')
  next
    case False
    define small where "small = (u32 (?mc * 2) \<le> sd_size ?S)"
    define na where "na = (if small then ?a else ?j)"
    define nb where "nb = (if small then ?j else ?b)"
    define oa where "oa = (if small then ?j else ?a)"
    define ob where "ob = (if small then ?b else ?j)"
    let ?N = "length (m_sets p)"
    let ?new = "\<lparr>sd_start = na, sd_size = nb - na, markedCount = 0\<rparr>"
    let ?old = "\<lparr>sd_start = oa, sd_size = ob - oa, markedCount = 0\<rparr>"
    have lt: "?mc < sd_size ?S" using mcb False by simp
    have ord: "?a < ?j" "?j < ?b" using lt k(2) by (simp_all add: sd_end_def)
    have sets': "m_sets p' = (m_sets p)[k := ?old] @ [?new]"
      and map': "m_elementToSetMap p' = foldl (\<lambda>m i. m[?pe ! i := ?N]) (m_elementToSetMap p) [na ..< nb]"
      and same: "?pe = m_partitionedElements p'" "?pos = m_elementPositionInPartitionedNodes p'"
        "m_setsMarkedInCurrentGeneration p' = m_setsMarkedInCurrentGeneration p" and new: "new = Some ?N"
      using r False mcb
      by (auto simp: refine_set_def Let_def small_def na_def nb_def oa_def ob_def sd_end_def descriptor_update)
    define X where "X = {e \<in> class_of n p k. na \<le> ?pos ! e \<and> ?pos ! e < nb}"
    have Xn: "X = (!) ?pe ` {na ..< nb}"
      using set_segment [OF wf k(1), of na nb] ord in_k by (auto simp: X_def na_def nb_def class_of_def)
    have Xcase: "X = (if small then marked n p \<inter> class_of n p k else class_of n p k - marked n p)"
      using in_k in_m by (auto simp: X_def na_def nb_def class_of_def)
    have nab: "na < nb" "nb \<le> n" using ord w(9) [OF k(1)] by (auto simp: na_def nb_def)
    have cls': "cls p' e = (if e \<in> X then ?N else cls p e)" if "e < n" for e
      unfolding map' Xn using that w(3,6) nab(2) by (subst foldl_assign_nth) auto
    have X1: "X \<subseteq> class_of n p k" by (auto simp: X_def)
    have X2: "X \<noteq> {}" using Xn nab(1) by auto
    have X3: "X \<noteq> class_of n p k"
    proof
      assume X: "X = class_of n p k"
      let ?e = "?pe ! oa"
      have oa: "oa < n" "?a \<le> oa" "oa < ?b" "\<not> (na \<le> oa \<and> oa < nb)"
        using ord w(9) [OF k(1)] by (auto simp: oa_def na_def nb_def)
      then have "?e \<in> class_of n p k" using in_k [of ?e] w(6,7) [of oa] by simp
      then have "?e \<in> X" using X by simp
      then show False using w(7) [OF oa(1)] oa(4) by (simp add: X_def)
    qed
    have len': "length (m_sets p') = Suc ?N" by (simp add: sets')
    have segN: "seg p' ?N = ?new" by (simp add: sets' nth_append)
    have segk: "seg p' k = ?old" using k(1) by (simp add: sets' nth_append)
    have sego: "seg p' j = seg p j" if "j < ?N" "j \<noteq> k" for j using that by (simp add: sets' nth_append)
    have mc': "markedCount (seg p' j) = (if j = k then 0 else markedCount (seg p j))" if "j < ?N" for j
      using that segk sego by auto
    have ends: "sd_end ?new = nb" "sd_end ?old = ob" using ord by (auto simp: sd_end_def na_def nb_def oa_def ob_def)
    have inX: "e \<in> X \<longleftrightarrow> na \<le> ?pos ! e \<and> ?pos ! e < nb" if "e < n" for e
      using in_k [OF that] ord by (auto simp: X_def na_def nb_def)
    have inO: "e \<in> class_of n p k - X \<longleftrightarrow> oa \<le> ?pos ! e \<and> ?pos ! e < ob" if "e < n" for e
      using in_k [OF that] inX [OF that] ord by (auto simp: na_def nb_def oa_def ob_def)
    have "part_wf n p'"
      unfolding part_wf_def same [symmetric]
    proof (intro conjI allI impI)
      show "length ?pe = n" "length ?pos = n" "length (m_elementToSetMap p') = n"
        using w(1-3) by (simp_all add: map' foldl_assign_length)
      fix e assume e: "e < n"
      show "?pos ! e < n" "?pe ! (?pos ! e) = e" "?pe ! e < n" "?pos ! (?pe ! e) = e" using w(4-7) [OF e] by auto
      show "cls p' e < length (m_sets p')" using cls' [OF e] w(8) [OF e] by (simp add: len')
      fix j assume "j < length (m_sets p')"
      then consider "j = ?N" | "j = k" | "j < ?N" "j \<noteq> k" by (auto simp: len' less_Suc_eq)
      then show "cls p' e = j \<longleftrightarrow> sd_start (seg p' j) \<le> ?pos ! e \<and> ?pos ! e < sd_end (seg p' j)"
      proof cases
        case 1
        then show ?thesis using cls' [OF e] inX [OF e] w(8) [OF e] segN ends by simp
      next
        case 2
        have "cls p' e = k \<longleftrightarrow> e \<in> class_of n p k - X" using cls' [OF e] k(1) e by (auto simp: class_of_def)
        then show ?thesis using inO [OF e] 2 segk ends by simp
      next
        case 3
        show ?thesis
        proof (cases "e \<in> X")
          case True
          then show ?thesis using cls' [OF e] 3 other [of e j] sego [OF 3] X1 by auto
        next
          case False
          then show ?thesis using cls' [OF e] w(12) [OF e 3(1)] sego [OF 3] by simp
        qed
      qed
    next
      fix j assume "j < length (m_sets p')"
      then consider "j = ?N" | "j = k" | "j < ?N" "j \<noteq> k" by (auto simp: len' less_Suc_eq)
      then have "sd_end (seg p' j) \<le> n \<and> 0 < sd_size (seg p' j) \<and> markedCount (seg p' j) \<le> sd_size (seg p' j)"
      proof cases
        case 1
        then show ?thesis using segN ends nab by simp
      next
        case 2
        then show ?thesis using segk ends ord w(9) [OF k(1)] by (auto simp: oa_def ob_def)
      next
        case 3
        then show ?thesis using sego w(9-11) by simp
      qed
      then show "sd_end (seg p' j) \<le> n" "0 < sd_size (seg p' j)" "markedCount (seg p' j) \<le> sd_size (seg p' j)" by auto
    qed
    moreover have "marked n p' = marked n p - class_of n p k"
    proof -
      have "e \<in> marked n p' \<longleftrightarrow> e \<in> marked n p \<and> e \<notin> class_of n p k" if e: "e < n" for e
      proof (cases "e \<in> class_of n p k")
        case True
        have "e \<notin> marked n p'"
        proof (cases "e \<in> X")
          case True
          then show ?thesis using cls' [OF e] inX [OF e] segN by (simp add: marked_def indexAfterMarkedElements_def flip: same)
        next
          case nX: False
          have "cls p' e = k" using cls' [OF e] nX True by (simp add: class_of_def)
          moreover have "oa \<le> ?pos ! e" using inO [OF e] True nX by simp
          ultimately show ?thesis using segk by (simp add: marked_def indexAfterMarkedElements_def flip: same)
        qed
        then show ?thesis using True by simp
      next
        case False
        then have "cls p' e = cls p e" "cls p e \<noteq> k" using cls' [OF e] X1 e by (auto simp: class_of_def)
        then show ?thesis using False sego w(8) [OF e] by (simp add: marked_def flip: same)
      qed
      moreover have "marked n p' \<subseteq> {..<n}" "marked n p \<subseteq> {..<n}" by (auto simp: marked_def)
      ultimately show ?thesis by blast
    qed
    moreover have "X \<subset> class_of n p k" using X1 X3 by blast
    moreover have "X = marked n p \<inter> class_of n p k \<or> X = class_of n p k - marked n p" using Xcase by (auto split: if_splits)
    ultimately show ?thesis using new len' segN mc' cls' X2 same by auto
  qed
qed

text \<open>
  A whole generation: two elements stay together when they were together and are both marked or both not. An
  element keeps its class or gets a new one. The callback keeps whatever every split lets it keep.
\<close>

definition refines :: "nat \<Rightarrow> nat set \<Rightarrow> Partition \<Rightarrow> Partition \<Rightarrow> bool" where
  "refines n M p p' \<longleftrightarrow> length (m_sets p) \<le> length (m_sets p') \<and>
     (\<forall>e < n. cls p' e = cls p e \<or> length (m_sets p) \<le> cls p' e) \<and>
     (\<forall>e < n. \<forall>f < n. cls p' e = cls p' f \<longleftrightarrow> cls p e = cls p f \<and> (e \<in> M \<longleftrightarrow> f \<in> M))"

lemma refine_set_step:
  assumes wf: "part_wf n p" and m: "marks_ok (k # ks) p" and r: "refine_set k p = (p', new)"
  shows "part_wf n p'" "marks_ok ks p'" "marked n p' = marked n p - class_of n p k"
    "refines n (marked n p \<inter> class_of n p k) p p'"
proof -
  have k: "k < length (m_sets p)" "0 < markedCount (seg p k)" using m by (auto simp: marks_ok_def)
  note s = refine_set_wf [OF wf k r]
  show wf': "part_wf n p'" and mk': "marked n p' = marked n p - class_of n p k" using s by auto
  show "marks_ok ks p'"
  proof -
    have mc: "markedCount (seg p' j) = (if j = k then 0 else markedCount (seg p j))" if "j < length (m_sets p)" for j
      using s that by simp
    have ks: "distinct ks" "k \<notin> set ks" "j = k \<or> j \<in> set ks \<longleftrightarrow> j < length (m_sets p) \<and> 0 < markedCount (seg p j)" for j
      using m by (auto simp: marks_ok_def)
    have old: "j \<in> set ks \<longleftrightarrow> 0 < markedCount (seg p' j)" if "j < length (m_sets p)" for j
      using mc [OF that] ks(2) ks(3) [of j] that by auto
    have small: "j < length (m_sets p)" if "j \<in> set ks" for j using ks(3) [of j] that by simp
    have "length (m_sets p') = length (m_sets p) \<or>
        length (m_sets p') = Suc (length (m_sets p)) \<and> markedCount (seg p' (length (m_sets p))) = 0"
      using s by (cases new) auto
    then have "j \<in> set ks \<longleftrightarrow> j < length (m_sets p') \<and> 0 < markedCount (seg p' j)" for j
      using old [of j] small [of j] by (cases "j < length (m_sets p)") (auto simp: less_Suc_eq)
    then show ?thesis using ks(1) by (simp add: marks_ok_def)
  qed
  show "refines n (marked n p \<inter> class_of n p k) p p'"
  proof (cases new)
    case None
    then show ?thesis using s by (auto simp: refines_def class_of_def)
  next
    case (Some N)
    then obtain X where N: "N = length (m_sets p)" "length (m_sets p') = Suc N" and X: "X \<subset> class_of n p k"
      "X = marked n p \<inter> class_of n p k \<or> X = class_of n p k - marked n p"
      "\<forall>e < n. cls p' e = (if e \<in> X then N else cls p e)" using s by auto
    let ?M = "marked n p \<inter> class_of n p k"
    have new: "cls p e \<noteq> N" if "e < n" for e using part_wfD(8) [OF wf that] N(1) by simp
    have cls': "cls p' e = (if e \<in> X then N else cls p e)" if "e < n" for e using X(3) that by blast
    have same: "cls p' e = cls p' f \<longleftrightarrow> cls p e = cls p f \<and> (e \<in> ?M \<longleftrightarrow> f \<in> ?M)" if e: "e < n" and f: "f < n" for e f
    proof -
      have Xk: "g \<in> X \<Longrightarrow> cls p g = k" for g using X(1) by (auto simp: class_of_def)
      have "(e \<in> ?M \<longleftrightarrow> f \<in> ?M) \<longleftrightarrow> (e \<in> X \<longleftrightarrow> f \<in> X)" if "cls p e = cls p f"
        using X(2) e f that by (auto simp: class_of_def)
      moreover have "cls p' e = cls p' f \<longleftrightarrow> cls p e = cls p f \<and> (e \<in> X \<longleftrightarrow> f \<in> X)"
        using cls' [OF e] cls' [OF f] new [OF e] new [OF f] Xk [of e] Xk [of f] by (cases "e \<in> X"; cases "f \<in> X") auto
      ultimately show ?thesis by blast
    qed
    have "cls p' e = cls p e \<or> length (m_sets p) \<le> cls p' e" if "e < n" for e
      using cls' [OF that] N(1) by simp
    then show ?thesis using N same by (simp add: refines_def)
  qed
qed

lemma refine_marked_ok:
  assumes "part_wf n p" "marks_ok ks p" "I p x"
    and step: "\<And>p p1 k N X x. \<lbrakk>part_wf n p; part_wf n p1; I p x; N = length (m_sets p); length (m_sets p1) = Suc N;
      X \<subset> class_of n p k; X \<noteq> {}; \<forall>e < n. cls p1 e = (if e \<in> X then N else cls p e)\<rbrakk> \<Longrightarrow> I p1 (f N p1 x)"
    and same: "\<And>p p1 x. \<lbrakk>I p x; m_elementToSetMap p1 = m_elementToSetMap p; length (m_sets p1) = length (m_sets p)\<rbrakk> \<Longrightarrow> I p1 x"
    and "refine_marked f ks (p, x) = (p', x')"
  shows "part_wf n p' \<and> marks_ok [] p' \<and> refines n (marked n p) p p' \<and> I p' x'"
  using assms(1-3,6)
proof (induction ks arbitrary: p x)
  case Nil
  have "marked n p = {}"
  proof -
    have "markedCount (seg p (cls p e)) = 0" if "e < n" for e
      using Nil.prems(2) part_wfD(8) [OF Nil.prems(1) that] by (auto simp: marks_ok_def)
    then show ?thesis using part_wfD(8,12) [OF Nil.prems(1)]
      by (fastforce simp: marked_def indexAfterMarkedElements_def)
  qed
  then show ?case using Nil by (simp add: refines_def)
next
  case (Cons k ks)
  obtain p1 new where r: "refine_set k p = (p1, new)" by (cases "refine_set k p")
  note s = refine_set_step [OF Cons.prems(1,2) r]
  have k: "k < length (m_sets p)" "0 < markedCount (seg p k)" using Cons.prems(2) by (auto simp: marks_ok_def)
  note sw = refine_set_wf [OF Cons.prems(1) k r]
  define x1 where "x1 = (case new of None \<Rightarrow> x | Some N \<Rightarrow> f N p1 x)"
  have I1: "I p1 x1"
  proof (cases new)
    case None
    then show ?thesis using same [OF Cons.prems(3), of p1] sw by (simp add: x1_def)
  next
    case (Some N)
    then obtain X where N: "N = length (m_sets p)" "length (m_sets p1) = Suc N" and X: "X \<subset> class_of n p k" "X \<noteq> {}"
      "\<forall>e < n. cls p1 e = (if e \<in> X then N else cls p e)" using sw by auto
    show ?thesis using step [OF Cons.prems(1) s(1) Cons.prems(3) N X] Some by (simp add: x1_def)
  qed
  have "refine_marked f ks (p1, x1) = (p', x')"
    using Cons.prems(4) r by (simp add: x1_def split: option.splits)
  from Cons.IH [OF s(1,2) I1 this]
  have IH: "part_wf n p'" "marks_ok [] p'" "refines n (marked n p1) p1 p'" "I p' x'" by auto
  have "refines n (marked n p) p p'"
  proof -
    have "cls p' e = cls p e \<or> length (m_sets p) \<le> cls p' e" if "e < n" for e
      using s(4) IH(3) that by (fastforce simp: refines_def)
    moreover have "cls p' e = cls p' g \<longleftrightarrow> cls p e = cls p g \<and> (e \<in> marked n p \<longleftrightarrow> g \<in> marked n p)"
      if "e < n" "g < n" for e g
    proof -
      have "cls p' e = cls p' g \<longleftrightarrow> cls p1 e = cls p1 g \<and> (e \<in> marked n p1 \<longleftrightarrow> g \<in> marked n p1)"
        using IH(3) that by (simp add: refines_def)
      moreover have "cls p1 e = cls p1 g \<longleftrightarrow> cls p e = cls p g \<and>
          (e \<in> marked n p \<inter> class_of n p k \<longleftrightarrow> g \<in> marked n p \<inter> class_of n p k)"
        using s(4) that by (simp add: refines_def)
      ultimately show ?thesis using that unfolding s(3) by (auto simp: class_of_def)
    qed
    moreover have "length (m_sets p) \<le> length (m_sets p')" using s(4) IH(3) by (auto simp: refines_def)
    ultimately show ?thesis by (simp add: refines_def)
  qed
  then show ?case using IH by blast
qed

lemma refineGeneration_ok:
  assumes "part_ok n p" "I p x"
    and step: "\<And>p p1 k N X x. \<lbrakk>part_wf n p; part_wf n p1; I p x; N = length (m_sets p); length (m_sets p1) = Suc N;
      X \<subset> class_of n p k; X \<noteq> {}; \<forall>e < n. cls p1 e = (if e \<in> X then N else cls p e)\<rbrakk> \<Longrightarrow> I p1 (f N p1 x)"
    and same: "\<And>p p1 x. \<lbrakk>I p x; m_elementToSetMap p1 = m_elementToSetMap p; length (m_sets p1) = length (m_sets p)\<rbrakk> \<Longrightarrow> I p1 x"
    and g: "refineGeneration f (p, x) = (p', x')"
  shows "part_ok n p' \<and> marked n p' = {} \<and> refines n (marked n p) p p' \<and> I p' x'"
proof -
  obtain p1 where p1: "refine_marked f (m_setsMarkedInCurrentGeneration p) (p, x) = (p1, x')"
    "p' = p1\<lparr>m_setsMarkedInCurrentGeneration := []\<rparr>"
    using g by (auto simp: refineGeneration_def split: prod.splits)
  have "part_wf n p" "marks_ok (m_setsMarkedInCurrentGeneration p) p" using assms(1) by (simp_all add: part_ok_def)
  note ok = this
  have "part_wf n p1 \<and> marks_ok [] p1 \<and> refines n (marked n p) p p1 \<and> I p1 x'"
    by (rule refine_marked_ok [where I = I and f = f, OF ok assms(2) _ _ p1(1)]) (fact step, fact same)
  then have 1: "part_wf n p1" "marks_ok [] p1" "refines n (marked n p) p p1" "I p1 x'" by auto
  have "markedCount (seg p1 (cls p1 e)) = 0" if "e < n" for e
    using 1(2) part_wfD(8) [OF 1(1) that] by (auto simp: marks_ok_def)
  then have "marked n p1 = {}" using part_wfD(8,12) [OF 1(1)]
    by (fastforce simp: marked_def indexAfterMarkedElements_def)
  moreover have "I p' x'" by (rule same [OF 1(4)]) (simp_all add: p1)
  ultimately show ?thesis using 1 by (simp add: p1 part_ok_def part_wf_def marks_ok_def marked_def refines_def)
qed

section \<open>One generation\<close>

lemma initialize_ok:
  assumes "0 < n"
  shows "part_ok n (Partition_initialize n Partition_new)" "marked n (Partition_initialize n Partition_new) = {}"
  using assms
  by (simp_all add: part_ok_def part_wf_def marks_ok_def marked_def Partition_initialize_def Partition_new_def
      sd_end_def indexAfterMarkedElements_def nth_Cons')

text \<open>
  C29: marking some elements of a partition and refining it splits every set into its marked and its unmarked
  elements and moves nothing else: afterwards two elements are in one set exactly when they were in one set and
  are both marked or both not. The partition is again well formed and nothing is left marked.
\<close>

theorem refine_splits_marked:
  assumes "part_ok n p" "marked n p = {}" "distinct es" "set es \<subseteq> {..<n}"
    and "refineGeneration (\<lambda>newSetIndex p x. x)
      (foldl (\<lambda>p e. markElementInCurrentGeneration e p) p es, ()) = (p', ())"
  shows "part_ok n p' \<and> marked n p' = {} \<and>
    (\<forall>e f. e < n \<longrightarrow> f < n \<longrightarrow> (Partition_setIndex e p' = Partition_setIndex f p' \<longleftrightarrow>
       Partition_setIndex e p = Partition_setIndex f p \<and> (e \<in> set es \<longleftrightarrow> f \<in> set es)))"
proof -
  let ?q = "foldl (\<lambda>p e. markElementInCurrentGeneration e p) p es"
  have m: "part_ok n ?q" "marked n ?q = set es" "m_elementToSetMap ?q = m_elementToSetMap p"
    using mark_all [of n p es] assms(1-4) by auto
  have "part_ok n p' \<and> marked n p' = {} \<and> refines n (marked n ?q) ?q p' \<and> True"
    by (rule refineGeneration_ok [where I = "\<lambda>_ _. True", OF m(1) _ _ _ assms(5)]) simp_all
  then show ?thesis by (simp add: refines_def m Partition_setIndex_def)
qed

theorem refine_splits_marked_witness:
  "case refineGeneration (\<lambda>newSetIndex p x. x)
      (foldl (\<lambda>p e. markElementInCurrentGeneration e p) (Partition_initialize 3 Partition_new) [1], ()) of (p, u) \<Rightarrow>
     Partition_setIndex 0 p = Partition_setIndex 2 p \<and> Partition_setIndex 0 p \<noteq> Partition_setIndex 1 p"
proof -
  let ?p = "Partition_initialize 3 Partition_new"
  obtain p' where p': "refineGeneration (\<lambda>newSetIndex p x. x)
      (foldl (\<lambda>p e. markElementInCurrentGeneration e p) ?p [1], ()) = (p', ())" by (metis old.unit.exhaust surj_pair)
  have "Partition_setIndex e ?p = 0" if "e < 3" for e
    using that by (simp add: Partition_setIndex_def Partition_initialize_def)
  then show ?thesis using refine_splits_marked [of 3 ?p "[1]" p'] initialize_ok [of 3] p' by simp
qed

end
