(* ===== verification/Bit_Count.thy ===== *)
theory Bit_Count
  imports Prelude
begin

text \<open>
  \<open>WTF::bitCount\<close> of \<open>StdLibExtras.h\<close>, which counts bits by adding neighbouring fields in parallel,
  and that it counts the bits set. The proof works on the hexadecimal digits of the word.
\<close>

definition bitCount32 :: "32 word \<Rightarrow> nat" where
  "bitCount32 bits =
     (let bits1 = bits - (drop_bit 1 bits AND 0x55555555);
          bits2 = (bits1 AND 0x33333333) + (drop_bit 2 bits1 AND 0x33333333)
      in unat (drop_bit 24 (((bits2 + drop_bit 4 bits2) AND 0xF0F0F0F) * 0x1010101)))"

definition bitCount64 :: "u64 \<Rightarrow> nat" where
  "bitCount64 bits = bitCount32 (ucast bits) + bitCount32 (ucast (drop_bit 32 bits))"

lemma bit_digit:
  assumes "k < (16 :: nat)"
  shows "bit (k + 16 * z) n = (if n < 4 then bit k n else bit z (n - 4))"
proof (cases "n < 4")
  case True
  have "odd ((k + 16 * z) div 2 ^ n) = odd (k div 2 ^ n)" if "16 = 2 ^ n * (2 * m)" for m :: nat
  proof -
    have "(k + 2 ^ n * (2 * m * z)) div 2 ^ n = k div 2 ^ n + 2 * m * z" by simp
    moreover have "16 * z = 2 ^ n * (2 * m * z)" unfolding that by (simp only: mult.assoc)
    ultimately show ?thesis by (simp only:) simp
  qed
  note this [of 8] this [of 4] this [of 2] this [of 1]
  moreover have "n = 0 \<or> n = 1 \<or> n = 2 \<or> n = 3" using True by linarith
  ultimately show ?thesis using True by (elim disjE) (simp_all add: bit_iff_odd)
next
  case False
  have "(k + 16 * z) div 2 ^ n = (k + 16 * z) div (16 * 2 ^ (n - 4))"
    using False power_add [of "2 :: nat" 4 "n - 4"] by simp
  also have "\<dots> = z div 2 ^ (n - 4)" using assms by (simp add: div_mult2_eq)
  finally show ?thesis using False by (simp add: bit_iff_odd)
qed

lemma and_digit: "a < 16 \<Longrightarrow> a AND m < (16 :: nat)"
proof -
  assume "a < 16"
  then have a: "take_bit 4 a = a" by (simp add: take_bit_nat_eq_self)
  then have "take_bit 4 (a AND m) = a AND take_bit 4 m" by (simp add: take_bit_and)
  moreover have "a AND take_bit 4 m = a AND m"
    using a by (metis and.assoc and.commute take_bit_eq_mask)
  ultimately show ?thesis using take_bit_nat_less_exp [of 4 "a AND m"] by simp
qed

lemma and_split:
  assumes "a < 16" "m < (16 :: nat)"
  shows "(a + 16 * x) AND (m + 16 * M) = (a AND m) + 16 * (x AND M)"
  by (intro bit_eqI) (simp add: bit_and_iff bit_digit and_digit assms)

text \<open>Numbers as lists of hexadecimal digits, the least significant first.\<close>

definition hex :: "nat list \<Rightarrow> nat" where
  "hex ds = foldr (\<lambda>d x. d + 16 * x) ds 0"

lemma hex_simps [simp]: "hex [] = 0" "hex (d # ds) = d + 16 * hex ds"
  by (simp_all add: hex_def)

lemma hex_digits: "x < 16 ^ n \<Longrightarrow> \<exists>ds. length ds = n \<and> (\<forall>d \<in> set ds. d < 16) \<and> x = hex ds"
proof (induction n arbitrary: x)
  case (Suc n)
  then have "x div 16 < 16 ^ n" by (simp add: less_mult_imp_div_less mult.commute)
  then obtain ds where "length ds = n" "\<forall>d \<in> set ds. d < 16" "x div 16 = hex ds" using Suc.IH by blast
  then show ?case by (intro exI [of _ "x mod 16 # ds"]) (simp flip: \<open>x div 16 = hex ds\<close>)
qed simp

lemma hex_and:
  "length xs = length ys \<Longrightarrow> \<forall>d \<in> set xs. d < 16 \<Longrightarrow> \<forall>d \<in> set ys. d < 16 \<Longrightarrow>
   hex xs AND hex ys = hex (map2 (AND) xs ys)"
  by (induction xs ys rule: list_induct2) (simp_all add: and_split)

lemma hex_add: "hex (map f ds) + hex (map g ds) = hex (map (\<lambda>d. f d + g d) ds)"
  by (induction ds) simp_all

lemma hex_diff: "\<forall>d \<in> set ds. f d \<le> d \<Longrightarrow> hex ds - hex (map f ds) = hex (map (\<lambda>d. d - f d) ds)"
proof -
  assume "\<forall>d \<in> set ds. f d \<le> d"
  then have "hex ds = hex (map f ds) + hex (map (\<lambda>d. d - f d) ds) \<and> hex (map f ds) \<le> hex ds"
    by (induction ds) auto
  then show ?thesis by simp
qed

text \<open>A shift brings in bits of the next digit, which the mask drops.\<close>

lemma shift_digit:
  "\<forall>d \<in> set [0..<16]. \<forall>e \<in> set [0..<2]. (d div 2 + 8 * e) AND 5 = d div 2 AND (5 :: nat)"
  "\<forall>d \<in> set [0..<16]. \<forall>e \<in> set [0..<4]. (d div 4 + 4 * e) AND 3 = d div 4 AND (3 :: nat)"
  by code_simp+

lemma hex_shift1:
  "\<forall>d \<in> set ds. d < 16 \<Longrightarrow> hex ds div 2 AND hex (map (\<lambda>_. 5) ds) = hex (map (\<lambda>d. d div 2 AND 5) ds)"
proof (induction ds)
  case (Cons d ds)
  let ?x = "hex ds"
  have d: "d < 16" using Cons.prems by simp
  have "(d + 16 * ?x) div 2 = (d div 2 + 8 * (?x mod 2)) + 16 * (?x div 2)"
    using div_mult_mod_eq [of ?x 2] div_mult_self1 [of 2 d "8 * ?x"] by linarith
  moreover have "d div 2 + 8 * (?x mod 2) < 16" using d by linarith
  moreover have "(d div 2 + 8 * (?x mod 2)) AND 5 = d div 2 AND 5"
    using Cons.prems shift_digit(1) by simp
  ultimately show ?case using Cons by (simp add: and_split)
qed simp

lemma hex_shift2:
  "\<forall>d \<in> set ds. d < 16 \<Longrightarrow> hex ds div 4 AND hex (map (\<lambda>_. 3) ds) = hex (map (\<lambda>d. d div 4 AND 3) ds)"
proof (induction ds)
  case (Cons d ds)
  let ?x = "hex ds"
  have d: "d < 16" using Cons.prems by simp
  have "(d + 16 * ?x) div 4 = (d div 4 + 4 * (?x mod 4)) + 16 * (?x div 4)"
    using div_mult_mod_eq [of ?x 4] div_mult_self1 [of 4 d "4 * ?x"] by linarith
  moreover have "d div 4 + 4 * (?x mod 4) < 16" using d by linarith
  moreover have "(d div 4 + 4 * (?x mod 4)) AND 3 = d div 4 AND 3"
    using Cons.prems shift_digit(2) by simp
  ultimately show ?case using Cons by (simp add: and_split)
qed simp

lemma hex_mask: "\<forall>d \<in> set ds. d < 16 \<Longrightarrow> hex ds AND hex (map (\<lambda>_. 3) ds) = hex (map (\<lambda>d. d AND 3) ds)"
  by (induction ds) (simp_all add: and_split)

definition digit_pairs :: "nat \<Rightarrow> nat" where
  "digit_pairs d = d - (d div 2 AND 5)"

definition digit_count :: "nat \<Rightarrow> nat" where
  "digit_count d = length (filter (bit d) [0..<4])"

lemma digit_steps:
  "\<forall>d \<in> set [0..<16]. d div 2 AND 5 \<le> d"
  "\<forall>d \<in> set [0..<16]. (digit_pairs d AND 3) + (digit_pairs d div 4 AND 3) = digit_count d"
  "\<forall>d \<in> set [0..<16]. digit_count d \<le> 4"
  by code_simp+

lemma hex_popcount:
  "\<forall>d \<in> set ds. d < 16 \<Longrightarrow> length (filter (bit (hex ds)) [0..<4 * length ds]) = sum_list (map digit_count ds)"
proof (induction ds)
  case (Cons d ds)
  have "[0..<4 * length (d # ds)] = [0..<4] @ map (\<lambda>i. i + 4) [0..<4 * length ds]"
    using upt_add_eq_append [of 0 4 "4 * length ds"] map_add_upt [of 4 "4 * length ds"] by (simp add: add.commute)
  then have "length (filter (bit (hex (d # ds))) [0..<4 * length (d # ds)]) =
      length (filter (bit (hex (d # ds))) [0..<4]) +
      length (filter (\<lambda>i. bit (hex (d # ds)) (i + 4)) [0..<4 * length ds])"
    by (simp add: filter_map o_def del: hex_simps)
  moreover have "filter (bit (hex (d # ds))) [0..<4] = filter (bit d) [0..<4]"
    using Cons.prems by (intro filter_cong) (simp_all add: bit_digit)
  moreover have "filter (\<lambda>i. bit (hex (d # ds)) (i + 4)) [0..<4 * length ds] = filter (bit (hex ds)) [0..<4 * length ds]"
    using Cons.prems by (intro filter_cong) (simp_all add: bit_digit)
  ultimately show ?case using Cons by (simp add: digit_count_def)
qed simp

lemma hex_lt: "\<forall>d \<in> set ds. d < 16 \<Longrightarrow> hex ds < 16 ^ length ds"
  by (induction ds) auto

lemma hex_le: "\<forall>d \<in> set ds. f d \<le> (d :: nat) \<Longrightarrow> hex (map f ds) \<le> hex ds"
  by (induction ds) auto

lemma eight: "length ds = 8 \<Longrightarrow> \<exists>a b c d e f g h. ds = [a, b, c, d, e, f, g, h]"
  by (auto simp: length_Suc_conv numeral_eq_Suc)

lemma and_15: "x < 16 \<Longrightarrow> x AND 15 = (x :: nat)"
  using take_bit_nat_eq_self [of x 4] take_bit_eq_mask [of 4 x] by (simp add: mask_eq_exp_minus_1)

lemma sum_bytes:
  assumes "p \<le> 8" "q \<le> 8" "r \<le> 8" "s \<le> (8 :: nat)"
  shows "(p + 256 * q + 65536 * r + 16777216 * s) * 16843009 mod 4294967296 div 16777216 = p + q + r + s"
proof -
  define lo where "lo = p + 256 * (p + q) + 65536 * (p + q + r)"
  define t where "t = p + q + r + s"
  define k where "k = q + r + s + 256 * (r + s) + 65536 * s"
  have "(p + 256 * q + 65536 * r + 16777216 * s) * 16843009 = (lo + 16777216 * t) + 4294967296 * k"
    by (simp add: lo_def t_def k_def)
  moreover have lo: "lo < 16777216" using assms unfolding lo_def distrib_left by simp
  moreover have "lo + 16777216 * t < 4294967296" using assms lo unfolding t_def distrib_left by simp
  ultimately show ?thesis by (simp add: t_def [symmetric])
qed

lemma unat_drop_bit: "unat (drop_bit n (w :: 32 word)) = unat w div 2 ^ n"
  unfolding unat_drop_bit_eq by (simp only: drop_bit_eq_div)

lemma bitCount32_popcount: "bitCount32 w = length (filter (bit w) [0..<32])"
proof -
  have "unat w < 16 ^ 8" using unsigned_less [of w, where ?'a = nat] by simp
  then obtain ds where ds: "length ds = 8" "\<forall>d \<in> set ds. d < 16" "unat w = hex ds" using hex_digits by blast
  have m5: "0x55555555 = hex (map (\<lambda>_. 5) ds)" and m3: "0x33333333 = hex (map (\<lambda>_. 3) ds)"
    using eight [OF ds(1)] by auto
  define w1 where "w1 = w - (drop_bit 1 w AND 0x55555555)"
  define w2 where "w2 = (w1 AND 0x33333333) + (drop_bit 2 w1 AND 0x33333333)"
  have s1: "unat (drop_bit 1 w AND 0x55555555) = hex (map (\<lambda>d. d div 2 AND 5) ds)"
    using hex_shift1 [OF ds(2)] by (simp add: unsigned_and_eq unat_drop_bit ds(3) flip: m5)
  have le: "\<forall>d \<in> set ds. d div 2 AND 5 \<le> d" using ds(2) digit_steps(1) by simp
  have "unat w1 = hex ds - hex (map (\<lambda>d. d div 2 AND 5) ds)"
    unfolding w1_def using unat_sub [of "drop_bit 1 w AND 0x55555555" w] hex_le [OF le]
    by (simp only: word_le_nat_alt s1 ds(3))
  then have w1: "unat w1 = hex (map digit_pairs ds)" unfolding hex_diff [OF le] by (simp add: digit_pairs_def [abs_def])
  have es: "\<forall>d \<in> set (map digit_pairs ds). d < 16" using ds(2) by (auto simp: digit_pairs_def)
  have "unat (w1 AND 0x33333333) = hex (map (\<lambda>d. digit_pairs d AND 3) ds)"
    "unat (drop_bit 2 w1 AND 0x33333333) = hex (map (\<lambda>d. digit_pairs d div 4 AND 3) ds)"
    using hex_mask [OF es] hex_shift2 [OF es] by (simp_all add: unsigned_and_eq unat_drop_bit w1 o_def flip: m3)
  moreover have "hex (map (\<lambda>d. digit_pairs d AND 3) ds) + hex (map (\<lambda>d. digit_pairs d div 4 AND 3) ds) =
      hex (map digit_count ds)"
    unfolding hex_add using ds(2) digit_steps(2) by (intro arg_cong [of _ _ hex] map_cong) simp_all
  moreover have c: "\<forall>d \<in> set (map digit_count ds). d \<le> 4" using ds(2) digit_steps(3) by simp
  moreover from c have "\<forall>d \<in> set (map digit_count ds). d < 16" by auto
  from hex_lt [OF this] have "hex (map digit_count ds) < 2 ^ 32" using ds(1) by simp
  ultimately have w2: "unat w2 = hex (map digit_count ds)"
    unfolding w2_def by (subst unat_add_lem [THEN iffD1]) simp_all
  obtain a b c d e f g h where cs: "map digit_count ds = [a, b, c, d, e, f, g, h]"
    using eight [of "map digit_count ds"] ds(1) by auto
  have bd: "a \<le> 4" "b \<le> 4" "c \<le> 4" "d \<le> 4" "e \<le> 4" "f \<le> 4" "g \<le> 4" "h \<le> 4" using c cs by simp_all
  have "unat (drop_bit 4 w2) = hex [b, c, d, e, f, g, h]" using w2 bd by (simp add: unat_drop_bit cs)
  then have "unat (w2 + drop_bit 4 w2) = hex [a + b, b + c, c + d, d + e, e + f, f + g, g + h, h]"
    using w2 cs bd by (subst unat_add_lem [THEN iffD1]) simp_all
  then have "unat ((w2 + drop_bit 4 w2) AND 0xF0F0F0F) = 
      hex [a + b, b + c, c + d, d + e, e + f, f + g, g + h, h] AND hex [15, 0, 15, 0, 15, 0, 15, 0]"
    by (simp add: unsigned_and_eq)
  also have "\<dots> = hex [a + b, 0, c + d, 0, e + f, 0, g + h, 0]"
    using bd by (subst hex_and) (simp_all add: and_15)
  also have "\<dots> = (a + b) + 256 * (c + d) + 65536 * (e + f) + 16777216 * (g + h)" by simp
  finally have u: "unat ((w2 + drop_bit 4 w2) AND 0xF0F0F0F) =
      (a + b) + 256 * (c + d) + 65536 * (e + f) + 16777216 * (g + h)" .
  have "bitCount32 w = ((a + b) + 256 * (c + d) + 65536 * (e + f) + 16777216 * (g + h)) * 16843009
      mod 4294967296 div 16777216"
    unfolding bitCount32_def Let_def w1_def [symmetric] w2_def [symmetric] unat_drop_bit unat_word_ariths(2) u
    by simp
  also have "\<dots> = a + b + c + d + e + f + g + h" using sum_bytes [of "a + b" "c + d" "e + f" "g + h"] bd by simp
  also have "\<dots> = sum_list (map digit_count ds)" unfolding cs by simp
  also have "\<dots> = length (filter (bit (hex ds)) [0..<32])" using hex_popcount [OF ds(2)] ds(1) by simp
  also have "filter (bit (hex ds)) [0..<32] = filter (bit w) [0..<32]"
    unfolding ds(3) [symmetric] by (intro filter_cong) (simp_all add: bit_unsigned_iff)
  finally show ?thesis .
qed

lemma bitCount64_popcount: "bitCount64 w = length (filter (bit w) [0..<64])"
proof -
  have "[0..<64] = [0..<32] @ map (\<lambda>i. i + 32) [0..<32]"
    using upt_add_eq_append [of 0 32 32] map_add_upt [of 32 32] by simp
  then have "length (filter (bit w) [0..<64]) =
      length (filter (bit w) [0..<32]) + length (filter (\<lambda>i. bit w (i + 32)) [0..<32])"
    by (simp only: filter_append length_append filter_map length_map o_def)
  moreover have "filter (bit (ucast w :: 32 word)) [0..<32] = filter (bit w) [0..<32]"
    by (intro filter_cong) (simp_all add: bit_ucast_iff)
  moreover have "filter (bit (ucast (drop_bit 32 w) :: 32 word)) [0..<32] = filter (\<lambda>i. bit w (i + 32)) [0..<32]"
    by (intro filter_cong) (simp_all add: bit_ucast_iff bit_drop_bit_eq add.commute)
  ultimately show ?thesis by (simp only: bitCount64_def bitCount32_popcount)
qed

end
