(* ===== verification/Pattern_Term.thy ===== *)
theory Pattern_Term
  imports Nfa Bit_Count
begin

text \<open>
  \<open>Term.h\<close>: the terms of a parsed pattern (character sets and groups, with a quantifier), the
  questions the parser asks about them, and the generation of their NFA graph. The language of a
  term is defined independently, and \<open>generateGraph\<close> is shown to add to the NFA a fragment whose
  paths read exactly that language.
\<close>

section \<open>Character sets\<close>

datatype AtomQuantifier = One | ZeroOrOne | ZeroOrMore | OneOrMore

record CharacterSet =
  m_inverted :: bool
  m_characters :: "u64 list"

definition CharacterSet_new :: CharacterSet where
  "CharacterSet_new = \<lparr>m_inverted = False, m_characters = [0, 0]\<rparr>"

text \<open>\<open>set\<close> and \<open>get\<close> release-assert \<open>character < 128\<close>; every call of \<open>get\<close> satisfies it.\<close>

definition CharacterSet_set :: "nat \<Rightarrow> CharacterSet \<Rightarrow> CharacterSet option" where
  "CharacterSet_set character cs =
     (if character < 128
      then Some (cs\<lparr>m_characters := (m_characters cs)[character div 64 :=
             (m_characters cs ! (character div 64)) OR push_bit (character mod 64) 1]\<rparr>)
      else None)"

definition CharacterSet_get :: "nat \<Rightarrow> CharacterSet \<Rightarrow> bool" where
  "CharacterSet_get character cs \<longleftrightarrow>
     (m_characters cs ! (character div 64)) AND push_bit (character mod 64) 1 \<noteq> 0"

definition CharacterSet_invert :: "CharacterSet \<Rightarrow> CharacterSet" where
  "CharacterSet_invert cs = cs\<lparr>m_inverted := True\<rparr>"

definition CharacterSet_bitCount :: "CharacterSet \<Rightarrow> nat" where
  "CharacterSet_bitCount cs = bitCount64 (m_characters cs ! 0) + bitCount64 (m_characters cs ! 1)"

definition CharacterSet_equal :: "CharacterSet \<Rightarrow> CharacterSet \<Rightarrow> bool" where
  "CharacterSet_equal cs other \<longleftrightarrow> m_inverted other = m_inverted cs \<and>
     m_characters other ! 0 = m_characters cs ! 0 \<and> m_characters other ! 1 = m_characters cs ! 1"

definition intHash64 :: "u64 \<Rightarrow> 32 word" where
  "intHash64 key =
     (let key = key + NOT (push_bit 32 key);
          key = key XOR drop_bit 22 key;
          key = key + NOT (push_bit 13 key);
          key = key XOR drop_bit 8 key;
          key = key + push_bit 3 key;
          key = key XOR drop_bit 15 key;
          key = key + NOT (push_bit 27 key);
          key = key XOR drop_bit 31 key
      in ucast key)"

text \<open>The shift of \<open>pairIntHash\<close> is by the difference of two sizes in bytes, that is 4.\<close>

definition pairIntHash :: "32 word \<Rightarrow> 32 word \<Rightarrow> 32 word" where
  "pairIntHash key1 key2 =
     (let product = (19248658165952622 :: u64) * ucast (277951225 * key1 + 95187966 * key2)
      in ucast (drop_bit (8 - 4) product))"

definition CharacterSet_hash :: "CharacterSet \<Rightarrow> 32 word" where
  "CharacterSet_hash cs =
     pairIntHash (pairIntHash (intHash64 (m_characters cs ! 0)) (intHash64 (m_characters cs ! 1)))
       (of_bool (m_inverted cs))"

section \<open>Terms\<close>

datatype Term =
  EmptyTerm AtomQuantifier
| CharacterSetTerm AtomQuantifier CharacterSet
| GroupTerm AtomQuantifier "Term list"

fun m_quantifier :: "Term \<Rightarrow> AtomQuantifier" where
  "m_quantifier (EmptyTerm q) = q"
| "m_quantifier (CharacterSetTerm q cs) = q"
| "m_quantifier (GroupTerm q ts) = q"

definition Term_new :: Term where
  "Term_new = EmptyTerm One"

fun isValid :: "Term \<Rightarrow> bool" where
  "isValid (EmptyTerm q) = False"
| "isValid _ = True"

fun addCharacter :: "nat \<Rightarrow> bool \<Rightarrow> Term \<Rightarrow> Term option" where
  "addCharacter character isCaseSensitive (CharacterSetTerm q cs) =
     (if isCaseSensitive \<or> \<not> isASCIIAlpha (int character)
      then map_option (CharacterSetTerm q) (CharacterSet_set character cs)
      else Option.bind (CharacterSet_set (nat (toASCIIUpper (int character))) cs) (\<lambda>cs'.
        map_option (CharacterSetTerm q) (CharacterSet_set (nat (toASCIILower (int character))) cs')))"
| "addCharacter character isCaseSensitive t = Some t"

definition Term_character :: "nat \<Rightarrow> bool \<Rightarrow> Term option" where
  "Term_character character isCaseSensitive =
     addCharacter character isCaseSensitive (CharacterSetTerm One CharacterSet_new)"

fun set_characters :: "nat list \<Rightarrow> CharacterSet \<Rightarrow> CharacterSet option" where
  "set_characters [] cs = Some cs"
| "set_characters (i # is) cs = Option.bind (CharacterSet_set i cs) (set_characters is)"

definition Term_UniversalTransition :: "Term option" where
  "Term_UniversalTransition =
     map_option (CharacterSetTerm One) (set_characters [1..<128] CharacterSet_new)"

definition Term_CharacterSet :: "bool \<Rightarrow> Term" where
  "Term_CharacterSet isInverted =
     CharacterSetTerm One (if isInverted then CharacterSet_invert CharacterSet_new else CharacterSet_new)"

definition Term_Group :: Term where
  "Term_Group = GroupTerm One []"

definition Term_EndOfLineAssertion :: "Term option" where
  "Term_EndOfLineAssertion = map_option (CharacterSetTerm One) (CharacterSet_set 0 CharacterSet_new)"

fun extendGroupSubpattern :: "Term \<Rightarrow> Term \<Rightarrow> Term" where
  "extendGroupSubpattern t (GroupTerm q ts) = GroupTerm q (ts @ [t])"
| "extendGroupSubpattern t u = u"

fun quantify :: "AtomQuantifier \<Rightarrow> Term \<Rightarrow> Term" where
  "quantify quantifier (EmptyTerm q) = EmptyTerm quantifier"
| "quantify quantifier (CharacterSetTerm q cs) = CharacterSetTerm quantifier cs"
| "quantify quantifier (GroupTerm q ts) = GroupTerm quantifier ts"

fun isEndOfLineAssertion :: "Term \<Rightarrow> bool" where
  "isEndOfLineAssertion (CharacterSetTerm q cs) \<longleftrightarrow>
     CharacterSet_bitCount cs = 1 \<and> CharacterSet_get 0 cs"
| "isEndOfLineAssertion _ = False"

fun matchesAtLeastOneCharacter :: "Term \<Rightarrow> bool" where
  "matchesAtLeastOneCharacter (GroupTerm q ts) \<longleftrightarrow>
     q \<noteq> ZeroOrOne \<and> q \<noteq> ZeroOrMore \<and> (\<exists>t \<in> set ts. matchesAtLeastOneCharacter t)"
| "matchesAtLeastOneCharacter t \<longleftrightarrow>
     m_quantifier t \<noteq> ZeroOrOne \<and> m_quantifier t \<noteq> ZeroOrMore \<and> \<not> isEndOfLineAssertion t"

fun isUniversalTransition :: "Term \<Rightarrow> bool" where
  "isUniversalTransition (EmptyTerm q) = False"
| "isUniversalTransition (CharacterSetTerm q cs) \<longleftrightarrow>
     (m_inverted cs \<and> CharacterSet_bitCount cs = 0) \<or>
     (\<not> m_inverted cs \<and> CharacterSet_bitCount cs = 127 \<and> \<not> CharacterSet_get 0 cs)"
| "isUniversalTransition (GroupTerm q [t]) = isUniversalTransition t"
| "isUniversalTransition (GroupTerm q _) = False"

fun isKnownToMatchAnyString :: "Term \<Rightarrow> bool" where
  "isKnownToMatchAnyString (EmptyTerm q) = False"
| "isKnownToMatchAnyString (CharacterSetTerm q cs) \<longleftrightarrow>
     isUniversalTransition (CharacterSetTerm q cs) \<and> q = ZeroOrMore"
| "isKnownToMatchAnyString (GroupTerm q [t]) =
     (if isKnownToMatchAnyString t then True
      else isUniversalTransition t \<and>
        (q = ZeroOrMore \<or> (q = ZeroOrOne \<and> m_quantifier t = OneOrMore) \<or>
         (q = OneOrMore \<and> m_quantifier t = ZeroOrOne)))"
| "isKnownToMatchAnyString (GroupTerm q _) = False"

fun hasFixedLength :: "Term \<Rightarrow> bool" where
  "hasFixedLength (EmptyTerm q) = False"
| "hasFixedLength (CharacterSetTerm q cs) \<longleftrightarrow> q = One"
| "hasFixedLength (GroupTerm q ts) \<longleftrightarrow> q = One \<and> (\<forall>t \<in> set ts. hasFixedLength t)"

definition group_hash_step :: "32 word \<Rightarrow> 32 word \<Rightarrow> 32 word" where
  "group_hash_step hash termHash =
     (let hash = push_bit 16 hash XOR (push_bit 11 termHash XOR hash) in hash + drop_bit 11 hash)"

fun quantifier_code :: "AtomQuantifier \<Rightarrow> 32 word" where
  "quantifier_code One = 0"
| "quantifier_code ZeroOrOne = 1"
| "quantifier_code ZeroOrMore = 2"
| "quantifier_code OneOrMore = 3"

fun Term_hash :: "Term \<Rightarrow> 32 word" where
  "Term_hash (EmptyTerm q) = pairIntHash (push_bit 16 0 OR quantifier_code q) 52184393"
| "Term_hash (CharacterSetTerm q cs) = pairIntHash (push_bit 16 1 OR quantifier_code q) (CharacterSet_hash cs)"
| "Term_hash (GroupTerm q ts) =
     pairIntHash (push_bit 16 2 OR quantifier_code q) (foldl group_hash_step 6421749 (map Term_hash ts))"

fun Term_equal :: "Term \<Rightarrow> Term \<Rightarrow> bool" and Terms_equal :: "Term list \<Rightarrow> Term list \<Rightarrow> bool" where
  "Term_equal (EmptyTerm q) (EmptyTerm q') \<longleftrightarrow> q' = q"
| "Term_equal (CharacterSetTerm q cs) (CharacterSetTerm q' cs') \<longleftrightarrow> q' = q \<and> CharacterSet_equal cs cs'"
| "Term_equal (GroupTerm q ts) (GroupTerm q' ts') \<longleftrightarrow> q' = q \<and> Terms_equal ts ts'"
| "Term_equal _ _ \<longleftrightarrow> False"
| "Terms_equal [] [] \<longleftrightarrow> True"
| "Terms_equal (t # ts) (u # us) \<longleftrightarrow> Term_equal t u \<and> Terms_equal ts us"
| "Terms_equal _ _ \<longleftrightarrow> False"

section \<open>Generation of the graph\<close>

text \<open>The two inner loops over the characters; \<open>inSet\<close> is \<open>get\<close>, or its negation for an inverted set.\<close>

function skip_outside :: "(nat \<Rightarrow> bool) \<Rightarrow> nat \<Rightarrow> nat" where
  "skip_outside inSet i = (if i < 128 \<and> \<not> inSet i then skip_outside inSet (i + 1) else i)"
  by pat_completeness auto
termination by (relation "measure (\<lambda>(P, i). 128 - i)") auto

function skip_inside :: "(nat \<Rightarrow> bool) \<Rightarrow> nat \<Rightarrow> nat" where
  "skip_inside inSet i = (if i < 128 \<and> inSet i then skip_inside inSet (i + 1) else i)"
  by pat_completeness auto
termination by (relation "measure (\<lambda>(P, i). 128 - i)") auto

declare skip_outside.simps [simp del] skip_inside.simps [simp del]

lemma skip_outside_ge: "i \<le> skip_outside inSet i"
  by (induction inSet i rule: skip_outside.induct) (subst skip_outside.simps, auto)

lemma skip_inside_ge: "i \<le> skip_inside inSet i"
  by (induction inSet i rule: skip_inside.induct) (subst skip_inside.simps, auto)

text \<open>The loop ends when \<open>i\<close> reaches 128, which it never exceeds.\<close>

function add_character_ranges :: "(nat \<Rightarrow> bool) \<Rightarrow> nat \<Rightarrow> nat \<Rightarrow> NodeBuilder \<Rightarrow> NodeBuilder option" where
  "add_character_ranges inSet destination i source =
     (let start = skip_outside inSet i in
      if 128 \<le> start then Some source
      else
        let i' = skip_inside inSet (start + 1) in
        Option.bind (addTransition (int start) (int i' - 1) destination source)
          (add_character_ranges inSet destination i'))"
  by pat_completeness auto
termination
proof (relation "measure (\<lambda>(P, d, i, s). 128 - i)", simp)
  fix inSet destination i source start i' source'
  assume "start = skip_outside inSet i" "\<not> 128 \<le> start" "i' = skip_inside inSet (start + 1)"
  then have "i \<le> start" "start < 128" "start + 1 \<le> i'"
    using skip_outside_ge [of i inSet] skip_inside_ge [of "start + 1" inSet] by auto
  then show "((inSet, destination, i', source'), inSet, destination, i, source) \<in> measure (\<lambda>(P, d, i, s). 128 - i)"
    by simp
qed

declare add_character_ranges.simps [simp del]

text \<open>\<open>destroy b nfa\<close> at the end of the scope of a builder.\<close>

function (sequential) generateGraph :: "Term \<Rightarrow> NFA \<Rightarrow> NodeBuilder \<Rightarrow> nat \<Rightarrow> (NFA \<times> NodeBuilder) option"
and generateSubgraphForAtom :: "Term \<Rightarrow> NFA \<Rightarrow> NodeBuilder \<Rightarrow> nat \<Rightarrow> (NFA \<times> NodeBuilder) option"
and generate_group_rest :: "Term list \<Rightarrow> NFA \<Rightarrow> NodeBuilder \<Rightarrow> nat \<Rightarrow> NFA option" where
  "generateGraph t nfa source destination =
     (case m_quantifier t of
        One \<Rightarrow> generateSubgraphForAtom t nfa source destination
      | ZeroOrOne \<Rightarrow>
          Option.bind (generateSubgraphForAtom t nfa source destination) (\<lambda>(nfa1, source1).
            Some (nfa1, addEpsilonTransition destination source1))
      | ZeroOrMore \<Rightarrow>
          (case NodeBuilder_new nfa of (repeatStart, nfa1) \<Rightarrow>
           case NodeBuilder_new nfa1 of (repeatEnd, nfa2) \<Rightarrow>
             let source1 = addEpsilonTransition (m_nodeId repeatStart) source in
             Option.bind (generateSubgraphForAtom t nfa2 repeatStart (m_nodeId repeatEnd)) (\<lambda>(nfa3, repeatStart1).
               let repeatEnd1 = addEpsilonTransition destination
                     (addEpsilonTransition (m_nodeId repeatStart1) repeatEnd);
                   source2 = addEpsilonTransition destination source1
               in Option.bind (NodeBuilder_destroy repeatEnd1 nfa3) (\<lambda>nfa4.
                  Option.bind (NodeBuilder_destroy repeatStart1 nfa4) (\<lambda>nfa5. Some (nfa5, source2)))))
      | OneOrMore \<Rightarrow>
          (case NodeBuilder_new nfa of (repeatStart, nfa1) \<Rightarrow>
           case NodeBuilder_new nfa1 of (repeatEnd, nfa2) \<Rightarrow>
             let source1 = addEpsilonTransition (m_nodeId repeatStart) source in
             Option.bind (generateSubgraphForAtom t nfa2 repeatStart (m_nodeId repeatEnd)) (\<lambda>(nfa3, repeatStart1).
               let repeatEnd1 = addEpsilonTransition destination
                     (addEpsilonTransition (m_nodeId repeatStart1) repeatEnd)
               in Option.bind (NodeBuilder_destroy repeatEnd1 nfa3) (\<lambda>nfa4.
                  Option.bind (NodeBuilder_destroy repeatStart1 nfa4) (\<lambda>nfa5. Some (nfa5, source1))))))"
| "generateSubgraphForAtom (EmptyTerm q) nfa source destination =
     Some (nfa, addEpsilonTransition destination source)"
| "generateSubgraphForAtom (CharacterSetTerm q cs) nfa source destination =
     map_option (Pair nfa)
       (if \<not> m_inverted cs then add_character_ranges (\<lambda>i. CharacterSet_get i cs) destination 0 source
        else add_character_ranges (\<lambda>i. \<not> CharacterSet_get i cs) destination 1 source)"
| "generateSubgraphForAtom (GroupTerm q []) nfa source destination =
     Some (nfa, addEpsilonTransition destination source)"
| "generateSubgraphForAtom (GroupTerm q [t]) nfa source destination =
     generateGraph t nfa source destination"
| "generateSubgraphForAtom (GroupTerm q (t # ts)) nfa source destination =
     (case NodeBuilder_new nfa of (lastTarget, nfa1) \<Rightarrow>
        Option.bind (generateGraph t nfa1 source (m_nodeId lastTarget)) (\<lambda>(nfa2, source1).
        Option.bind (generate_group_rest ts nfa2 (NodeBuilder_setActions [] lastTarget) destination) (\<lambda>nfa3.
          Some (nfa3, source1))))"
| "generate_group_rest [] nfa lastTarget destination = NodeBuilder_destroy lastTarget nfa"
| "generate_group_rest [t] nfa lastTarget destination =
     Option.bind (generateGraph t nfa lastTarget destination) (\<lambda>(nfa1, lastTarget1).
       NodeBuilder_destroy lastTarget1 nfa1)"
| "generate_group_rest (t # ts) nfa lastTarget destination =
     (case NodeBuilder_new nfa of (newNode, nfa1) \<Rightarrow>
        Option.bind (generateGraph t nfa1 lastTarget (m_nodeId newNode)) (\<lambda>(nfa2, lastTarget1).
        Option.bind (NodeBuilder_assign lastTarget1 (NodeBuilder_setActions [] newNode) nfa2) (\<lambda>(lastTarget2, nfa3).
          generate_group_rest ts nfa3 lastTarget2 destination)))"
  by pat_completeness auto
termination
  by (relation "measures [\<lambda>x. case x of Inl (t, _) \<Rightarrow> size t | Inr (Inl (t, _)) \<Rightarrow> size t | Inr (Inr (ts, _)) \<Rightarrow> size_list size ts,
      \<lambda>x. case x of Inl _ \<Rightarrow> 1 | _ \<Rightarrow> 0]") auto


text \<open>The overload that makes the destination, which is still a builder when it returns.\<close>

definition generateGraph_final ::
  "Term \<Rightarrow> NFA \<Rightarrow> NodeBuilder \<Rightarrow> u64 list \<Rightarrow> (NodeBuilder \<times> NFA \<times> NodeBuilder) option" where
  "generateGraph_final t nfa source finalActions =
     (case NodeBuilder_new nfa of (newEnd, nfa1) \<Rightarrow>
        Option.bind (generateGraph t nfa1 source (m_nodeId newEnd)) (\<lambda>(nfa2, source1).
          Some (NodeBuilder_setActions finalActions newEnd, nfa2, source1)))"

declare generateGraph.simps [simp del]

section \<open>Languages\<close>

type_synonym lang = "cchar list set"

definition conc :: "lang \<Rightarrow> lang \<Rightarrow> lang" where
  "conc A B = {u @ v | u v. u \<in> A \<and> v \<in> B}"

inductive_set star :: "lang \<Rightarrow> lang" for L where
  star_Nil: "[] \<in> star L"
| star_append: "u \<in> L \<Longrightarrow> v \<in> star L \<Longrightarrow> u @ v \<in> star L"

fun quantified :: "AtomQuantifier \<Rightarrow> lang \<Rightarrow> lang" where
  "quantified One L = L"
| "quantified ZeroOrOne L = insert [] L"
| "quantified ZeroOrMore L = star L"
| "quantified OneOrMore L = conc L (star L)"

definition concs :: "lang list \<Rightarrow> lang" where
  "concs Ls = foldr conc Ls {[]}"

definition set_chars :: "CharacterSet \<Rightarrow> cchar set" where
  "set_chars cs = {c. 0 \<le> c \<and> c \<le> 127 \<and>
     (if m_inverted cs then c \<noteq> 0 \<and> \<not> CharacterSet_get (nat c) cs else CharacterSet_get (nat c) cs)}"

fun term_lang :: "Term \<Rightarrow> lang" where
  "term_lang (EmptyTerm q) = quantified q {[]}"
| "term_lang (CharacterSetTerm q cs) = quantified q ((\<lambda>c. [c]) ` set_chars cs)"
| "term_lang (GroupTerm q ts) = quantified q (concs (map term_lang ts))"

fun atom_lang :: "Term \<Rightarrow> lang" where
  "atom_lang (EmptyTerm q) = {[]}"
| "atom_lang (CharacterSetTerm q cs) = (\<lambda>c. [c]) ` set_chars cs"
| "atom_lang (GroupTerm q ts) = concs (map term_lang ts)"

lemma term_lang_atom: "term_lang t = quantified (m_quantifier t) (atom_lang t)"
  by (cases t) simp_all

lemma concs_simps [simp]: "concs [] = {[]}" "concs (L # Ls) = conc L (concs Ls)"
  by (simp_all add: concs_def)

lemma conc_Nil [simp]: "conc L {[]} = L" "conc {[]} L = L"
  by (auto simp: conc_def)

lemma concI: "u \<in> A \<Longrightarrow> v \<in> B \<Longrightarrow> u @ v \<in> conc A B"
  by (auto simp: conc_def)

lemma star_eq: "star L = insert [] (conc L (star L))"
  by (auto simp: conc_def intro: star.intros elim: star.cases)

section \<open>Fragments of a graph\<close>

text \<open>
  Edges that lead from \<open>s\<close> through the nodes from \<open>lo\<close> below \<open>hi\<close> to \<open>t\<close> and read exactly \<open>L\<close>.
\<close>

definition inside :: "edge set \<Rightarrow> nat \<Rightarrow> nat \<Rightarrow> nat \<Rightarrow> nat \<Rightarrow> bool" where
  "inside D s t lo hi \<longleftrightarrow> (\<forall>p l q. (p, l, q) \<in> D \<longrightarrow> (p = s \<or> lo \<le> p \<and> p < hi) \<and> (q = t \<or> lo \<le> q \<and> q < hi))"

definition fragment :: "edge set \<Rightarrow> nat \<Rightarrow> nat \<Rightarrow> nat \<Rightarrow> nat \<Rightarrow> lang \<Rightarrow> bool" where
  "fragment D s t lo hi L \<longleftrightarrow> inside D s t lo hi \<and> (\<forall>w. gpath D s w t \<longleftrightarrow> w \<in> L)"

lemma insideD: "inside D s t lo hi \<Longrightarrow> (p, l, q) \<in> D \<Longrightarrow> (p = s \<or> lo \<le> p \<and> p < hi) \<and> (q = t \<or> lo \<le> q \<and> q < hi)"
  unfolding inside_def by blast

lemma gpath_leave:
  assumes "gpath D p w r" "p \<in> A" "r \<notin> A" "m \<notin> A"
    and "\<And>p l q. (p, l, q) \<in> D \<Longrightarrow> p \<in> A \<Longrightarrow> (p, l, q) \<in> D1 \<and> (q \<in> A \<or> q = m)"
  shows "\<exists>u v. w = u @ v \<and> gpath D1 p u m \<and> gpath D m v r"
  using assms(1-3)
proof (induction rule: gpath.induct)
  case (gpath_eps p q w r)
  have e: "(p, None, q) \<in> D1" "q \<in> A \<or> q = m" using assms(5) gpath_eps by blast+
  show ?case
  proof (cases "q \<in> A")
    case True
    then obtain u v where "w = u @ v" "gpath D1 q u m" "gpath D m v r" using gpath_eps by blast
    then show ?thesis using e(1) by (blast intro: gpath.gpath_eps)
  next
    case False
    then have "q = m" using e by simp
    then show ?thesis using e(1) gpath_eps(2) by (intro exI [of _ "[]"] exI [of _ w]) (auto intro: gpath_edge_eps)
  qed
next
  case (gpath_chr p c q w r)
  have e: "(p, Some c, q) \<in> D1" "q \<in> A \<or> q = m" using assms(5) gpath_chr by blast+
  show ?case
  proof (cases "q \<in> A")
    case True
    then obtain u v where "w = u @ v" "gpath D1 q u m" "gpath D m v r" using gpath_chr by blast
    then show ?thesis using e(1) by (intro exI [of _ "c # u"] exI [of _ v]) (auto intro: gpath.gpath_chr)
  next
    case False
    then have "q = m" using e by simp
    then show ?thesis using e(1) gpath_chr(2) by (intro exI [of _ "[c]"] exI [of _ w]) (auto intro: gpath_edge_chr)
  qed
qed simp

lemma gpath_stay:
  assumes "gpath D p w r" "p \<in> B"
    and "\<And>p l q. (p, l, q) \<in> D \<Longrightarrow> p \<in> B \<Longrightarrow> (p, l, q) \<in> D2 \<and> q \<in> B"
  shows "gpath D2 p w r"
  using assms(1,2)
proof (induction rule: gpath.induct)
  case (gpath_eps p q w r)
  then show ?case using assms(3) by (blast intro: gpath.gpath_eps)
next
  case (gpath_chr p c q w r)
  then show ?case using assms(3) by (blast intro: gpath.gpath_chr)
qed (rule gpath_refl)

lemma gpath_from:
  assumes "gpath D p w r" "p \<noteq> r"
  shows "\<exists>q l v. (p, l, q) \<in> D \<and> gpath D q v r \<and> w = (case l of None \<Rightarrow> v | Some c \<Rightarrow> c # v)"
  using assms(1)
proof cases
  case (gpath_eps q)
  then show ?thesis by (intro exI [of _ q] exI [of _ None] exI [of _ w]) simp
next
  case (gpath_chr c q v)
  then show ?thesis by (intro exI [of _ q] exI [of _ "Some c"] exI [of _ v]) simp
qed (use assms(2) in simp)

lemma fragment_seq:
  assumes f1: "fragment D1 s m lo1 hi1 L1" and f2: "fragment D2 m t lo2 hi2 L2"
    and b: "s < lo" "t < lo" "s \<noteq> t" "lo \<le> m" "m < lo1" "lo1 \<le> hi1" "hi1 \<le> lo2" "lo2 \<le> hi2"
  shows "fragment (D1 \<union> D2) s t lo hi2 (conc L1 L2)"
proof -
  have i1: "inside D1 s m lo1 hi1" and i2: "inside D2 m t lo2 hi2"
    and l1: "gpath D1 s w m \<longleftrightarrow> w \<in> L1" and l2: "gpath D2 m w t \<longleftrightarrow> w \<in> L2" for w
    using f1 f2 by (simp_all add: fragment_def)
  have "inside (D1 \<union> D2) s t lo hi2"
    unfolding inside_def using insideD [OF i1] insideD [OF i2] b by fastforce
  moreover have "gpath (D1 \<union> D2) s w t \<longleftrightarrow> w \<in> conc L1 L2" for w
  proof
    assume g: "gpath (D1 \<union> D2) s w t"
    let ?A = "insert s {lo1..<hi1}" and ?B = "insert m (insert t {lo2..<hi2})"
    have "\<exists>u v. w = u @ v \<and> gpath D1 s u m \<and> gpath (D1 \<union> D2) m v t"
    proof (rule gpath_leave [OF g])
      show "t \<notin> ?A" "m \<notin> ?A" using b by auto
      fix p l q assume e: "(p, l, q) \<in> D1 \<union> D2" "p \<in> ?A"
      have "(p, l, q) \<notin> D2" using insideD [OF i2, of p l q] e(2) b by auto
      then show "(p, l, q) \<in> D1 \<and> (q \<in> ?A \<or> q = m)" using e insideD [OF i1, of p l q] by auto
    qed simp
    then obtain u v where uv: "w = u @ v" "gpath D1 s u m" "gpath (D1 \<union> D2) m v t" by blast
    have "gpath D2 m v t"
    proof (rule gpath_stay [OF uv(3), of ?B])
      fix p l q assume e: "(p, l, q) \<in> D1 \<union> D2" "p \<in> ?B"
      have "(p, l, q) \<notin> D1" using insideD [OF i1, of p l q] e(2) b by auto
      then show "(p, l, q) \<in> D2 \<and> q \<in> ?B" using e insideD [OF i2, of p l q] by auto
    qed simp
    then show "w \<in> conc L1 L2" using uv l1 l2 by (auto intro: concI)
  next
    assume "w \<in> conc L1 L2"
    then obtain u v where "w = u @ v" "gpath D1 s u m" "gpath D2 m v t" using l1 l2 by (auto simp: conc_def)
    then show "gpath (D1 \<union> D2) s w t" by (auto intro!: gpath_append elim: gpath_mono)
  qed
  ultimately show ?thesis by (simp add: fragment_def)
qed

lemma fragment_eps: "s \<noteq> t \<Longrightarrow> fragment {(s, None, t)} s t lo lo {[]}"
proof -
  assume st: "s \<noteq> t"
  have "gpath {(s, None, t)} s w t \<longleftrightarrow> w = []" for w
  proof
    assume "gpath {(s, None, t)} s w t"
    then obtain v where "gpath {(s, None, t)} t v t" "w = v" using gpath_from [OF _ st] by fastforce
    then show "w = []" using st by (auto elim: gpath.cases)
  qed (auto intro: gpath_edge_eps)
  then show ?thesis by (simp add: fragment_def inside_def)
qed

lemma fragment_chars:
  assumes "s \<noteq> t"
  shows "fragment {(s, Some c, t) | c. c \<in> X} s t lo lo ((\<lambda>c. [c]) ` X)"
proof -
  let ?D = "{(s, Some c, t) | c. c \<in> X}"
  have "gpath ?D s w t \<longleftrightarrow> w \<in> (\<lambda>c. [c]) ` X" for w
  proof
    assume "gpath ?D s w t"
    then obtain c v where "gpath ?D t v t" "w = c # v" "c \<in> X" using gpath_from [OF _ assms] by fastforce
    then show "w \<in> (\<lambda>c. [c]) ` X" using assms by (auto elim: gpath.cases)
  qed (auto intro!: gpath_edge_chr)
  then show ?thesis by (auto simp: fragment_def inside_def)
qed

lemma fragment_optional:
  assumes "fragment D s t lo hi L" "s \<noteq> t" "s < lo" "t < lo"
  shows "fragment (insert (s, None, t) D) s t lo hi (insert [] L)"
proof -
  have i: "inside D s t lo hi" and l: "gpath D s w t \<longleftrightarrow> w \<in> L" for w using assms by (simp_all add: fragment_def)
  let ?D = "insert (s, None, t) D"
  have tt: "w = []" if "gpath ?D t w t" for w
    using that by cases (use insideD [OF i] assms in fastforce)+
  have "gpath ?D s w t \<longleftrightarrow> w \<in> insert [] L" for w
  proof
    assume g: "gpath ?D s w t"
    obtain q k v where s1: "(s, k, q) \<in> ?D" "gpath ?D q v t" "w = (case k of None \<Rightarrow> v | Some c \<Rightarrow> c # v)"
      using gpath_from [OF g assms(2)] by blast
    show "w \<in> insert [] L"
    proof (cases "(s, k, q) = (s, None, t)")
      case True
      then show ?thesis using s1 tt by auto
    next
      case False
      then have e: "(s, k, q) \<in> D" using s1 by auto
      then have q: "q \<in> insert t {lo..<hi}" using insideD [OF i] by auto
      have "gpath D q v t"
        by (rule gpath_stay [OF s1(2) q]) (use insideD [OF i] assms in fastforce)
      then have "gpath D s w t" using e s1(3) by (cases k) (auto intro: gpath.intros)
      then show ?thesis using l by simp
    qed
  next
    assume "w \<in> insert [] L"
    then show "gpath ?D s w t" using l gpath_mono [of D s w t ?D] by (auto intro: gpath_edge_eps)
  qed
  moreover have "inside ?D s t lo hi" using i by (auto simp: inside_def)
  ultimately show ?thesis by (simp add: fragment_def)
qed


lemma repeat_paths:
  assumes f: "fragment D0 rs re lo0 hi L"
    and b: "s < lo" "t < lo" "s \<noteq> t" "lo \<le> rs" "rs < lo0" "lo \<le> re" "re < lo0" "rs \<noteq> re"
    and D: "D = D0 \<union> {(s, None, rs), (re, None, rs), (re, None, t)}"
    and g: "gpath D p w r" "r = t"
  shows "(p = t \<longrightarrow> w = []) \<and> (p = re \<longrightarrow> w \<in> star L) \<and>
    (p \<in> insert rs {lo0..<hi} \<longrightarrow> (\<exists>u v. w = u @ v \<and> gpath D0 p u re \<and> v \<in> star L))"
  using g
proof (induction rule: gpath.induct)
  case (gpath_refl p)
  then show ?case using b by (auto intro: star_Nil)
next
  case (gpath_eps p q w r)
  have i: "inside D0 rs re lo0 hi" and l: "gpath D0 rs w re \<longleftrightarrow> w \<in> L" for w using f by (simp_all add: fragment_def)
  have IH: "(q = t \<longrightarrow> w = []) \<and> (q = re \<longrightarrow> w \<in> star L) \<and>
    (q \<in> insert rs {lo0..<hi} \<longrightarrow> (\<exists>u v. w = u @ v \<and> gpath D0 q u re \<and> v \<in> star L))"
    using gpath_eps by blast
  have 1: "p \<noteq> t" using gpath_eps(1) insideD [OF i, of p None q] b D by auto
  have 2: "w \<in> star L" if "p = re"
  proof -
    have "q = rs \<or> q = t" using gpath_eps(1) insideD [OF i, of p None q] b D that by auto
    then show ?thesis using IH l by (auto intro: star.intros)
  qed
  have 3: "\<exists>u v. w = u @ v \<and> gpath D0 p u re \<and> v \<in> star L" if "p \<in> insert rs {lo0..<hi}"
  proof -
    have e: "(p, None, q) \<in> D0" using gpath_eps(1) b D that by auto
    then have "q = re \<or> q \<in> {lo0..<hi}" using insideD [OF i] by auto
    then show ?thesis
    proof
      assume "q = re"
      then show ?thesis using IH e by (intro exI [of _ "[]"] exI [of _ w]) (auto intro: gpath_edge_eps)
    next
      assume "q \<in> {lo0..<hi}"
      then obtain u v where "w = u @ v" "gpath D0 q u re" "v \<in> star L" using IH by blast
      then show ?thesis using e by (blast intro: gpath.gpath_eps)
    qed
  qed
  show ?case using 1 2 3 by blast
next
  case (gpath_chr p c q w r)
  have i: "inside D0 rs re lo0 hi" using f by (simp add: fragment_def)
  have IH: "(q = re \<longrightarrow> w \<in> star L) \<and>
    (q \<in> insert rs {lo0..<hi} \<longrightarrow> (\<exists>u v. w = u @ v \<and> gpath D0 q u re \<and> v \<in> star L))"
    using gpath_chr by blast
  have e: "(p, Some c, q) \<in> D0" using gpath_chr(1) D by auto
  have q: "q = re \<or> q \<in> {lo0..<hi}" and p: "p = rs \<or> lo0 \<le> p \<and> p < hi" using insideD [OF i e] by auto
  have "\<exists>u v. c # w = u @ v \<and> gpath D0 p u re \<and> v \<in> star L"
    using q
  proof
    assume "q = re"
    then show ?thesis using IH e by (intro exI [of _ "[c]"] exI [of _ w]) (auto intro: gpath_edge_chr)
  next
    assume "q \<in> {lo0..<hi}"
    then obtain u v where "w = u @ v" "gpath D0 q u re" "v \<in> star L" using IH by blast
    then show ?thesis using e by (intro exI [of _ "c # u"] exI [of _ v]) (auto intro: gpath.gpath_chr)
  qed
  then show ?case using p b by auto
qed

lemma fragment_repeat:
  assumes f: "fragment D0 rs re lo0 hi L"
    and b: "s < lo" "t < lo" "s \<noteq> t" "lo \<le> rs" "rs < lo0" "lo \<le> re" "re < lo0" "rs \<noteq> re" "lo0 \<le> hi"
  shows "fragment (D0 \<union> {(s, None, rs), (re, None, rs), (re, None, t)}) s t lo hi (conc L (star L))"
proof -
  let ?D = "D0 \<union> {(s, None, rs), (re, None, rs), (re, None, t)}"
  have i: "inside D0 rs re lo0 hi" and l: "gpath D0 rs w re \<longleftrightarrow> w \<in> L" for w using f by (simp_all add: fragment_def)
  have "inside ?D s t lo hi"
    unfolding inside_def using insideD [OF i] b by fastforce
  moreover have "gpath ?D s w t \<longleftrightarrow> w \<in> conc L (star L)" for w
  proof
    assume g: "gpath ?D s w t"
    obtain q k v where s1: "(s, k, q) \<in> ?D" "gpath ?D q v t" "w = (case k of None \<Rightarrow> v | Some c \<Rightarrow> c # v)"
      using gpath_from [OF g b(3)] by blast
    then have "q = rs" "k = None" using insideD [OF i, of s k q] b by auto
    then obtain u v' where "w = u @ v'" "gpath D0 rs u re" "v' \<in> star L"
      using repeat_paths [OF f b(1-8) refl s1(2) refl] s1(3) by auto
    then show "w \<in> conc L (star L)" using l by (auto intro: concI)
  next
    have st: "gpath ?D re v t" if "v \<in> star L" for v
      using that
    proof induction
      case (star_append u v)
      have "gpath ?D rs u re" using star_append l gpath_mono [of D0 rs u re ?D] by auto
      then have "gpath ?D re u re" by (auto intro: gpath.gpath_eps)
      then show ?case using star_append by (blast intro: gpath_append)
    qed (auto intro: gpath_edge_eps)
    assume "w \<in> conc L (star L)"
    then obtain u v where w: "w = u @ v" "u \<in> L" "v \<in> star L" by (auto simp: conc_def)
    have "gpath ?D rs u re" using w(2) l gpath_mono [of D0 rs u re ?D] by auto
    then have "gpath ?D s u re" by (auto intro: gpath.gpath_eps)
    then show "gpath ?D s w t" using st w by (blast intro: gpath_append)
  qed
  ultimately show ?thesis by (simp add: fragment_def)
qed

section \<open>Character ranges\<close>

lemma skip_outside_spec:
  "i \<le> skip_outside P i \<and> (\<forall>j. i \<le> j \<and> j < skip_outside P i \<longrightarrow> \<not> P j) \<and>
   (skip_outside P i < 128 \<longrightarrow> P (skip_outside P i)) \<and> (i \<le> 128 \<longrightarrow> skip_outside P i \<le> 128)"
proof (induction P i rule: skip_outside.induct)
  case (1 P i)
  show ?case
  proof (cases "i < 128 \<and> \<not> P i")
    case True
    then have eq: "skip_outside P i = skip_outside P (i + 1)" by (subst skip_outside.simps) simp
    note IH = 1(1) [OF True]
    have "\<not> P j" if "i \<le> j \<and> j < skip_outside P (i + 1)" for j
      using IH that True by (cases "j = i") simp_all
    moreover have "i \<le> skip_outside P (i + 1)" "i + 1 \<le> 128" using IH True by linarith+
    ultimately show ?thesis unfolding eq using IH by blast
  next
    case False
    then have "skip_outside P i = i" by (subst skip_outside.simps) auto
    then show ?thesis using False by auto
  qed
qed

lemma skip_inside_spec:
  "i \<le> skip_inside P i \<and> (\<forall>j. i \<le> j \<and> j < skip_inside P i \<longrightarrow> P j) \<and>
   (skip_inside P i < 128 \<longrightarrow> \<not> P (skip_inside P i)) \<and> (i \<le> 128 \<longrightarrow> skip_inside P i \<le> 128)"
proof (induction P i rule: skip_inside.induct)
  case (1 P i)
  show ?case
  proof (cases "i < 128 \<and> P i")
    case True
    then have eq: "skip_inside P i = skip_inside P (i + 1)" by (subst skip_inside.simps) simp
    note IH = 1(1) [OF True]
    have "P j" if "i \<le> j \<and> j < skip_inside P (i + 1)" for j
      using IH that True by (cases "j = i") simp_all
    moreover have "i \<le> skip_inside P (i + 1)" "i + 1 \<le> 128" using IH True by linarith+
    ultimately show ?thesis unfolding eq using IH by blast
  next
    case False
    then have "skip_inside P i = i" by (subst skip_inside.simps) auto
    then show ?thesis using False by auto
  qed
qed

lemma add_character_ranges_ok:
  assumes "builder_ok nfa b" "t < length (nfa_nodes nfa)" "i \<le> 128"
  shows "\<exists>b'. add_character_ranges P t i b = Some b' \<and> builder_ok nfa b' \<and> m_nodeId b' = m_nodeId b \<and>
    builder_edges b' = builder_edges b \<union> {(m_nodeId b, Some c, t) | c. int i \<le> c \<and> c \<le> 127 \<and> P (nat c)} \<and>
    builder_acts b' = builder_acts b"
  using assms
proof (induction P t i b rule: add_character_ranges.induct)
  case (1 P t i b)
  let ?s = "skip_outside P i"
  note so = skip_outside_spec [of i P]
  show ?case
  proof (cases "128 \<le> ?s")
    case True
    have none: "\<not> P j" if "i \<le> j" "j < 128" for j using so True that by auto
    have "{(m_nodeId b, Some c, t) | c. int i \<le> c \<and> c \<le> 127 \<and> P (nat c)} = {}"
    proof -
      have "\<not> P (nat c)" if "int i \<le> c" "c \<le> 127" for c
        using none [of "nat c"] that by linarith
      then show ?thesis by blast
    qed
    moreover have "add_character_ranges P t i b = Some b"
      using True by (subst add_character_ranges.simps) simp
    ultimately show ?thesis using 1(2) by (simp only: Un_empty_right) simp
  next
    case False
    let ?e = "skip_inside P (?s + 1)"
    note si = skip_inside_spec [of "?s + 1" P]
    have bnd: "i \<le> ?s" "?s < 128" "?s + 1 \<le> ?e" "?e \<le> 128" using so si False by auto
    obtain b1 where b1: "addTransition (int ?s) (int ?e - 1) t b = Some b1" "builder_ok nfa b1" "m_nodeId b1 = m_nodeId b"
      "builder_edges b1 = builder_edges b \<union> {(m_nodeId b, Some c, t) | c. int ?s \<le> c \<and> c \<le> int ?e - 1}"
      "builder_acts b1 = builder_acts b"
      using addTransition_ok [OF 1(2), of "int ?s" "int ?e - 1" t] 1(3) bnd by force
    obtain b' where b': "add_character_ranges P t ?e b1 = Some b'" "builder_ok nfa b'" "m_nodeId b' = m_nodeId b1"
      "builder_edges b' = builder_edges b1 \<union> {(m_nodeId b1, Some c, t) | c. int ?e \<le> c \<and> c \<le> 127 \<and> P (nat c)}"
      "builder_acts b' = builder_acts b1"
      using 1(1) [OF refl False refl b1(1,2) 1(3) bnd(4)] by blast
    have split: "(int i \<le> c \<and> c \<le> 127 \<and> P (nat c)) \<longleftrightarrow>
        (int ?s \<le> c \<and> c \<le> int ?e - 1) \<or> (int ?e \<le> c \<and> c \<le> 127 \<and> P (nat c))" for c
    proof -
      consider "c < int i" | "int i \<le> c" "c < int ?s" | "int ?s \<le> c" "c < int ?e" | "int ?e \<le> c" by linarith
      then show ?thesis
      proof cases
        case 2
        then have "i \<le> nat c" "nat c < ?s" by linarith+
        then have "\<not> P (nat c)" using so by blast
        then show ?thesis using 2 bnd by auto
      next
        case 3
        then have c: "?s \<le> nat c" "nat c < ?e" by linarith+
        have "P (nat c)"
        proof (cases "nat c = ?s")
          case True
          then show ?thesis using so bnd(2) by simp
        next
          case False
          then have "?s + 1 \<le> nat c" using c by simp
          then show ?thesis using si c by blast
        qed
        then show ?thesis using 3 bnd by auto
      qed (use bnd in auto)
    qed
    have "add_character_ranges P t i b = Some b'"
      using False b1(1) b'(1) by (subst add_character_ranges.simps) (simp add: Let_def)
    moreover have "builder_edges b' = builder_edges b \<union> {(m_nodeId b, Some c, t) | c. int i \<le> c \<and> c \<le> 127 \<and> P (nat c)}"
      unfolding b'(4) b1(4) b1(3) split by blast
    ultimately show ?thesis using b' b1 by simp
  qed
qed


section \<open>The generated graph reads the language of the term\<close>

text \<open>
  What a call that generates a graph from the builder \<open>b\<close> to the node \<open>t\<close> promises: old nodes and
  all actions are as before, and the new edges are a fragment over the new nodes.
\<close>

definition generated :: "NFA \<Rightarrow> NodeBuilder \<Rightarrow> nat \<Rightarrow> NFA \<Rightarrow> NodeBuilder \<Rightarrow> lang \<Rightarrow> bool" where
  "generated nfa b t nfa' b' L \<longleftrightarrow> nfa_wf nfa' \<and> builder_ok nfa' b' \<and> m_nodeId b' = m_nodeId b \<and>
     builder_acts b' = builder_acts b \<and> nfa_acts nfa' = nfa_acts nfa \<and>
     length (nfa_nodes nfa) \<le> length (nfa_nodes nfa') \<and>
     (\<forall>i < length (nfa_nodes nfa). nfa_nodes nfa' ! i = nfa_nodes nfa ! i) \<and>
     (\<exists>D E. nfa_edges nfa' = nfa_edges nfa \<union> D \<and> builder_edges b' = builder_edges b \<union> E \<and>
        (\<forall>(p, l, q) \<in> D. length (nfa_nodes nfa) \<le> p) \<and>
        fragment (D \<union> E) (m_nodeId b) t (length (nfa_nodes nfa)) (length (nfa_nodes nfa')) L)"

lemma generatedE:
  assumes "generated nfa b t nfa' b' L"
  obtains D E where "nfa_wf nfa'" "builder_ok nfa' b'" "m_nodeId b' = m_nodeId b"
    "builder_acts b' = builder_acts b" "nfa_acts nfa' = nfa_acts nfa"
    "length (nfa_nodes nfa) \<le> length (nfa_nodes nfa')"
    "\<forall>i < length (nfa_nodes nfa). nfa_nodes nfa' ! i = nfa_nodes nfa ! i"
    "nfa_edges nfa' = nfa_edges nfa \<union> D" "builder_edges b' = builder_edges b \<union> E"
    "\<forall>(p, l, q) \<in> D. length (nfa_nodes nfa) \<le> p"
    "fragment (D \<union> E) (m_nodeId b) t (length (nfa_nodes nfa)) (length (nfa_nodes nfa')) L"
  using assms unfolding generated_def by (elim conjE exE) (rule that)

lemma generatedI:
  assumes "nfa_wf nfa'" "builder_ok nfa' b'" "m_nodeId b' = m_nodeId b"
    "builder_acts b' = builder_acts b" "nfa_acts nfa' = nfa_acts nfa"
    "length (nfa_nodes nfa) \<le> length (nfa_nodes nfa')"
    "\<forall>i < length (nfa_nodes nfa). nfa_nodes nfa' ! i = nfa_nodes nfa ! i"
    "nfa_edges nfa' = nfa_edges nfa \<union> D" "builder_edges b' = builder_edges b \<union> E"
    "\<forall>(p, l, q) \<in> D. length (nfa_nodes nfa) \<le> p"
    "fragment (D \<union> E) (m_nodeId b) t (length (nfa_nodes nfa)) (length (nfa_nodes nfa')) L"
  shows "generated nfa b t nfa' b' L"
  unfolding generated_def by (intro conjI exI [of _ D] exI [of _ E]) (rule assms)+

text \<open>The same for a builder that is finalised at the end.\<close>

definition finished :: "NFA \<Rightarrow> NodeBuilder \<Rightarrow> nat \<Rightarrow> NFA \<Rightarrow> lang \<Rightarrow> bool" where
  "finished nfa b t nfa' L \<longleftrightarrow> nfa_wf nfa' \<and> nfa_acts nfa' = nfa_acts nfa \<union> builder_acts b \<and>
     length (nfa_nodes nfa) \<le> length (nfa_nodes nfa') \<and>
     (\<forall>i < length (nfa_nodes nfa). i \<noteq> m_nodeId b \<longrightarrow> nfa_nodes nfa' ! i = nfa_nodes nfa ! i) \<and>
     (\<exists>D. nfa_edges nfa' = nfa_edges nfa \<union> builder_edges b \<union> D \<and>
        (\<forall>(p, l, q) \<in> D. p = m_nodeId b \<or> length (nfa_nodes nfa) \<le> p) \<and>
        fragment D (m_nodeId b) t (length (nfa_nodes nfa)) (length (nfa_nodes nfa')) L)"

lemma finishedE:
  assumes "finished nfa b t nfa' L"
  obtains D where "nfa_wf nfa'" "nfa_acts nfa' = nfa_acts nfa \<union> builder_acts b"
    "length (nfa_nodes nfa) \<le> length (nfa_nodes nfa')"
    "\<forall>i < length (nfa_nodes nfa). i \<noteq> m_nodeId b \<longrightarrow> nfa_nodes nfa' ! i = nfa_nodes nfa ! i"
    "nfa_edges nfa' = nfa_edges nfa \<union> builder_edges b \<union> D"
    "\<forall>(p, l, q) \<in> D. p = m_nodeId b \<or> length (nfa_nodes nfa) \<le> p"
    "fragment D (m_nodeId b) t (length (nfa_nodes nfa)) (length (nfa_nodes nfa')) L"
  using assms unfolding finished_def by (elim conjE exE) (rule that)

lemma builder_edges_source: "(p, l, q) \<in> builder_edges b \<Longrightarrow> p = m_nodeId b"
  by (auto simp: builder_edges_def node_edges_def)

lemma destroy_eq_finalize: "builder_ok nfa b \<Longrightarrow> NodeBuilder_destroy b = NodeBuilder_finalize b"
  by (rule ext) (simp add: NodeBuilder_destroy_def builder_ok_def)

lemma generated_finish:
  assumes g: "generated nfa b t nfa1 b1 L"
  shows "\<exists>nfa'. NodeBuilder_destroy b1 nfa1 = Some nfa' \<and> finished nfa b t nfa' L"
proof -
  obtain D E where g1: "nfa_wf nfa1" "builder_ok nfa1 b1" "m_nodeId b1 = m_nodeId b"
    "builder_acts b1 = builder_acts b" "nfa_acts nfa1 = nfa_acts nfa"
    "length (nfa_nodes nfa) \<le> length (nfa_nodes nfa1)"
    "\<forall>i < length (nfa_nodes nfa). nfa_nodes nfa1 ! i = nfa_nodes nfa ! i"
    "nfa_edges nfa1 = nfa_edges nfa \<union> D" "builder_edges b1 = builder_edges b \<union> E"
    "\<forall>(p, l, q) \<in> D. length (nfa_nodes nfa) \<le> p"
    "fragment (D \<union> E) (m_nodeId b) t (length (nfa_nodes nfa)) (length (nfa_nodes nfa1)) L"
    using g by (rule generatedE)
  obtain nfa' where f: "NodeBuilder_finalize b1 nfa1 = Some nfa'" "nfa_wf nfa'"
    "length (nfa_nodes nfa') = length (nfa_nodes nfa1)"
    "\<forall>i. i \<noteq> m_nodeId b1 \<longrightarrow> nfa_nodes nfa' ! i = nfa_nodes nfa1 ! i"
    "nfa_edges nfa' = nfa_edges nfa1 \<union> builder_edges b1" "nfa_acts nfa' = nfa_acts nfa1 \<union> builder_acts b1"
    using finalize_ok [OF g1(1,2)] by blast
  have E: "\<forall>(p, l, q) \<in> E. p = m_nodeId b"
    using builder_edges_source [of _ _ _ b1] g1(3,9) by auto
  have "finished nfa b t nfa' L"
    unfolding finished_def
  proof (intro conjI exI [of _ "D \<union> E"])
    show "nfa_edges nfa' = nfa_edges nfa \<union> builder_edges b \<union> (D \<union> E)" using f(5) g1(8,9) by auto
    show "\<forall>(p, l, q) \<in> D \<union> E. p = m_nodeId b \<or> length (nfa_nodes nfa) \<le> p" using E g1(10) by auto
    show "nfa_acts nfa' = nfa_acts nfa \<union> builder_acts b" using f(6) g1(4,5) by simp
    show "\<forall>i < length (nfa_nodes nfa). i \<noteq> m_nodeId b \<longrightarrow> nfa_nodes nfa' ! i = nfa_nodes nfa ! i"
      using f(4) g1(3,7) by simp
  qed (use f g1 in simp_all)
  then show ?thesis using f(1) destroy_eq_finalize [OF g1(2)] by simp
qed


definition graph_ok :: "(NFA \<Rightarrow> NodeBuilder \<Rightarrow> nat \<Rightarrow> (NFA \<times> NodeBuilder) option) \<Rightarrow> lang \<Rightarrow> bool" where
  "graph_ok gen L \<longleftrightarrow> (\<forall>nfa b d. nfa_wf nfa \<longrightarrow> builder_ok nfa b \<longrightarrow> d < length (nfa_nodes nfa) \<longrightarrow>
     d \<noteq> m_nodeId b \<longrightarrow> (\<exists>nfa' b'. gen nfa b d = Some (nfa', b') \<and> generated nfa b d nfa' b' L))"

lemma graph_okD:
  assumes "graph_ok gen L" "nfa_wf nfa" "builder_ok nfa b" "d < length (nfa_nodes nfa)" "d \<noteq> m_nodeId b"
  obtains nfa' b' where "gen nfa b d = Some (nfa', b')" "generated nfa b d nfa' b' L"
  using assms unfolding graph_ok_def by blast

lemma destroyE:
  assumes "nfa_wf nfa" "builder_ok nfa b"
  obtains nfa' where "NodeBuilder_destroy b nfa = Some nfa'" "nfa_wf nfa'"
    "length (nfa_nodes nfa') = length (nfa_nodes nfa)"
    "\<forall>i. i \<noteq> m_nodeId b \<longrightarrow> nfa_nodes nfa' ! i = nfa_nodes nfa ! i"
    "nfa_edges nfa' = nfa_edges nfa \<union> builder_edges b" "nfa_acts nfa' = nfa_acts nfa \<union> builder_acts b"
  using finalize_ok [OF assms] destroy_eq_finalize [OF assms(2)] by auto

lemma NodeBuilder_new_nodes:
  "NodeBuilder_new nfa = (b, nfa') \<Longrightarrow> i < length (nfa_nodes nfa) \<Longrightarrow> nfa_nodes nfa' ! i = nfa_nodes nfa ! i"
  by (auto simp: NodeBuilder_new_def nth_append)

lemma builder_id_lt: "builder_ok nfa b \<Longrightarrow> m_nodeId b < length (nfa_nodes nfa)"
  by (simp add: builder_ok_def)

text \<open>Adding the epsilon edge of an optional term.\<close>

lemma generated_optional:
  assumes g: "generated nfa b d nfa' b' L" and d: "d < length (nfa_nodes nfa)" "d \<noteq> m_nodeId b"
    and b: "builder_ok nfa b"
  shows "generated nfa b d nfa' (addEpsilonTransition d b') (insert [] L)"
proof -
  obtain D E where g1: "nfa_wf nfa'" "builder_ok nfa' b'" "m_nodeId b' = m_nodeId b"
    "builder_acts b' = builder_acts b" "nfa_acts nfa' = nfa_acts nfa"
    "length (nfa_nodes nfa) \<le> length (nfa_nodes nfa')"
    "\<forall>i < length (nfa_nodes nfa). nfa_nodes nfa' ! i = nfa_nodes nfa ! i"
    "nfa_edges nfa' = nfa_edges nfa \<union> D" "builder_edges b' = builder_edges b \<union> E"
    "\<forall>(p, l, q) \<in> D. length (nfa_nodes nfa) \<le> p"
    "fragment (D \<union> E) (m_nodeId b) d (length (nfa_nodes nfa)) (length (nfa_nodes nfa')) L"
    using g by (rule generatedE)
  have lt: "d < length (nfa_nodes nfa')" using d g1(6) by simp
  note ep = addEpsilonTransition_ok [OF g1(2) lt]
  have "fragment (insert (m_nodeId b, None, d) (D \<union> E)) (m_nodeId b) d
      (length (nfa_nodes nfa)) (length (nfa_nodes nfa')) (insert [] L)"
    by (rule fragment_optional [OF g1(11)]) (use d builder_id_lt [OF b] in auto)
  then show ?thesis
    by (intro generatedI [where D = D and E = "insert (m_nodeId b, None, d) E"])
      (use g1 ep in \<open>simp_all add: Un_insert_right\<close>)
qed

lemma repeat_ok:
  assumes atom: "graph_ok (generateSubgraphForAtom t) L"
    and wf: "nfa_wf nfa" and b: "builder_ok nfa b" and d: "d < length (nfa_nodes nfa)" "d \<noteq> m_nodeId b"
    and new1: "NodeBuilder_new nfa = (rs, nfa1)" and new2: "NodeBuilder_new nfa1 = (re, nfa2)"
  shows "\<exists>nfa3 rs1 nfa4 nfa5. generateSubgraphForAtom t nfa2 rs (m_nodeId re) = Some (nfa3, rs1) \<and>
    NodeBuilder_destroy (addEpsilonTransition d (addEpsilonTransition (m_nodeId rs1) re)) nfa3 = Some nfa4 \<and>
    NodeBuilder_destroy rs1 nfa4 = Some nfa5 \<and>
    generated nfa b d nfa5 (addEpsilonTransition (m_nodeId rs) b) (conc L (star L))"
proof -
  let ?n = "length (nfa_nodes nfa)"
  note n1 = NodeBuilder_new_ok [OF new1 wf]
  note n2 = NodeBuilder_new_ok [OF new2 n1(1)]
  have ids: "m_nodeId rs = ?n" "m_nodeId re = ?n + 1" "length (nfa_nodes nfa2) = ?n + 2" using n1 n2 by simp_all
  have rs2: "builder_ok nfa2 rs" by (rule NodeBuilder_new_keeps(1) [OF new2 n1(2)])
  obtain nfa3 rs1 where a: "generateSubgraphForAtom t nfa2 rs (m_nodeId re) = Some (nfa3, rs1)"
    "generated nfa2 rs (m_nodeId re) nfa3 rs1 L"
    using graph_okD [OF atom n2(1) rs2, of "m_nodeId re"] ids by auto
  obtain D E where g: "nfa_wf nfa3" "builder_ok nfa3 rs1" "m_nodeId rs1 = m_nodeId rs"
    "builder_acts rs1 = builder_acts rs" "nfa_acts nfa3 = nfa_acts nfa2"
    "length (nfa_nodes nfa2) \<le> length (nfa_nodes nfa3)"
    "\<forall>i < length (nfa_nodes nfa2). nfa_nodes nfa3 ! i = nfa_nodes nfa2 ! i"
    "nfa_edges nfa3 = nfa_edges nfa2 \<union> D" "builder_edges rs1 = builder_edges rs \<union> E"
    "\<forall>(p, l, q) \<in> D. length (nfa_nodes nfa2) \<le> p"
    "fragment (D \<union> E) (m_nodeId rs) (m_nodeId re) (length (nfa_nodes nfa2)) (length (nfa_nodes nfa3)) L"
    using a(2) by (rule generatedE)
  have re3: "builder_ok nfa3 re"
    by (rule builder_ok_mono [OF n2(2) g(6)]) (use g(7) ids in simp)
  note e1 = addEpsilonTransition_ok [OF re3, of "m_nodeId rs1"]
  have lt: "m_nodeId rs1 < length (nfa_nodes nfa3)" "d < length (nfa_nodes nfa3)" using g(3,6) ids d by simp_all
  note e2 = addEpsilonTransition_ok [OF e1(1) lt(2)]
  let ?re = "addEpsilonTransition d (addEpsilonTransition (m_nodeId rs1) re)"
  have re: "builder_ok nfa3 ?re" "m_nodeId ?re = ?n + 1" "builder_edges ?re = {(?n + 1, None, ?n), (?n + 1, None, d)}"
    "builder_acts ?re = {}"
    using e1 e2 lt n2(7,8) ids g(3) by auto
  obtain nfa4 where f4: "NodeBuilder_destroy ?re nfa3 = Some nfa4" "nfa_wf nfa4"
    "length (nfa_nodes nfa4) = length (nfa_nodes nfa3)"
    "\<forall>i. i \<noteq> m_nodeId ?re \<longrightarrow> nfa_nodes nfa4 ! i = nfa_nodes nfa3 ! i"
    "nfa_edges nfa4 = nfa_edges nfa3 \<union> builder_edges ?re" "nfa_acts nfa4 = nfa_acts nfa3 \<union> builder_acts ?re"
    using destroyE [OF g(1) re(1)] by blast
  have rs4: "builder_ok nfa4 rs1"
    by (rule builder_ok_mono [OF g(2)]) (use f4(3,4) re(2) g(3) ids in simp_all)
  obtain nfa5 where f5: "NodeBuilder_destroy rs1 nfa4 = Some nfa5" "nfa_wf nfa5"
    "length (nfa_nodes nfa5) = length (nfa_nodes nfa4)"
    "\<forall>i. i \<noteq> m_nodeId rs1 \<longrightarrow> nfa_nodes nfa5 ! i = nfa_nodes nfa4 ! i"
    "nfa_edges nfa5 = nfa_edges nfa4 \<union> builder_edges rs1" "nfa_acts nfa5 = nfa_acts nfa4 \<union> builder_acts rs1"
    using destroyE [OF f4(2) rs4] by blast
  have keep: "nfa_nodes nfa5 ! i = nfa_nodes nfa ! i" if "i < ?n" for i
  proof -
    have "nfa_nodes nfa5 ! i = nfa_nodes nfa3 ! i" using f4(4) f5(4) re(2) g(3) ids that by simp
    also have "\<dots> = nfa_nodes nfa2 ! i" using g(7) ids that by simp
    also have "\<dots> = nfa_nodes nfa ! i"
      using NodeBuilder_new_nodes [OF new2, of i] NodeBuilder_new_nodes [OF new1 that] n1(4) that by simp
    finally show ?thesis .
  qed
  have len: "?n + 2 \<le> length (nfa_nodes nfa5)" "length (nfa_nodes nfa5) = length (nfa_nodes nfa3)"
    using f4(3) f5(3) g(6) ids by simp_all
  have b5: "builder_ok nfa5 b" by (rule builder_ok_mono [OF b]) (use len keep builder_id_lt [OF b] in simp_all)
  have rslt: "m_nodeId rs < length (nfa_nodes nfa5)" using ids len by simp
  note s1 = addEpsilonTransition_ok [OF b5 rslt]
  let ?D = "D \<union> E \<union> {(?n + 1, None, ?n), (?n + 1, None, d)}"
  have fr: "fragment ((D \<union> E) \<union> {(m_nodeId b, None, ?n), (?n + 1, None, ?n), (?n + 1, None, d)}) (m_nodeId b) d
      ?n (length (nfa_nodes nfa5)) (conc L (star L))"
    by (rule fragment_repeat [where ?lo0.0 = "?n + 2"]) (use g(11) ids len d builder_id_lt [OF b] in simp_all)
  have E: "\<forall>(p, l, q) \<in> E. p = ?n"
    using builder_edges_source [of _ _ _ rs1] g(3,9) ids by auto
  have "generated nfa b d nfa5 (addEpsilonTransition (m_nodeId rs) b) (conc L (star L))"
  proof (rule generatedI [where D = ?D and E = "{(m_nodeId b, None, ?n)}"])
    show "fragment (?D \<union> {(m_nodeId b, None, ?n)}) (m_nodeId b) d ?n (length (nfa_nodes nfa5)) (conc L (star L))"
      using fr by (simp add: insert_commute Un_insert_right)
    show "nfa_edges nfa5 = nfa_edges nfa \<union> ?D"
      using f5(5) f4(5) re(3) g(8,9) n1(5,7) n2(5) by auto
    show "nfa_acts nfa5 = nfa_acts nfa" using f5(6) f4(6) re(4) g(4,5) n1(6,8) n2(6) by simp
    show "\<forall>(p, l, q) \<in> ?D. ?n \<le> p" using E g(10) ids by auto
    show "builder_edges (addEpsilonTransition (m_nodeId rs) b) = builder_edges b \<union> {(m_nodeId b, None, ?n)}"
      using s1(3) ids by simp
  qed (use f5(2) s1 len keep in simp_all)
  then show ?thesis using a(1) f4(1) f5(1) by blast
qed

lemma generateGraph_from_atom:
  assumes "graph_ok (generateSubgraphForAtom t) L"
  shows "graph_ok (generateGraph t) (quantified (m_quantifier t) L)"
  unfolding graph_ok_def
proof (intro allI impI)
  fix nfa b d
  assume pre: "nfa_wf nfa" "builder_ok nfa b" "d < length (nfa_nodes nfa)" "d \<noteq> m_nodeId b"
  obtain nfa1 b1 where a: "generateSubgraphForAtom t nfa b d = Some (nfa1, b1)" "generated nfa b d nfa1 b1 L"
    using graph_okD [OF assms pre] .
  obtain rs nfa2 where n1: "NodeBuilder_new nfa = (rs, nfa2)" by (cases "NodeBuilder_new nfa")
  obtain re nfa3 where n2: "NodeBuilder_new nfa2 = (re, nfa3)" by (cases "NodeBuilder_new nfa2")
  obtain nfa4 rs1 nfa5 nfa6 where r: "generateSubgraphForAtom t nfa3 rs (m_nodeId re) = Some (nfa4, rs1)"
    "NodeBuilder_destroy (addEpsilonTransition d (addEpsilonTransition (m_nodeId rs1) re)) nfa4 = Some nfa5"
    "NodeBuilder_destroy rs1 nfa5 = Some nfa6"
    "generated nfa b d nfa6 (addEpsilonTransition (m_nodeId rs) b) (conc L (star L))"
    using repeat_ok [OF assms pre n1 n2] by blast
  show "\<exists>nfa' b'. generateGraph t nfa b d = Some (nfa', b') \<and> generated nfa b d nfa' b' (quantified (m_quantifier t) L)"
  proof (cases "m_quantifier t")
    case One
    then show ?thesis using a by (subst generateGraph.simps) simp
  next
    case ZeroOrOne
    then show ?thesis using a generated_optional [OF a(2) pre(3,4,2)] by (subst generateGraph.simps) simp
  next
    case ZeroOrMore
    have "quantified ZeroOrMore L = insert [] (conc L (star L))" using star_eq [of L] by simp
    then show ?thesis
      using ZeroOrMore r generated_optional [OF r(4) pre(3,4,2)] n1 n2 by (subst generateGraph.simps) (simp add: Let_def)
  next
    case OneOrMore
    then show ?thesis using r n1 n2 by (subst generateGraph.simps) (simp add: Let_def)
  qed
qed


lemma setActions_Nil [simp]: "NodeBuilder_setActions [] b = b"
  by (simp add: NodeBuilder_setActions_def)

lemma generated_edge:
  assumes "nfa_wf nfa" "builder_ok nfa b'" "m_nodeId b' = m_nodeId b" "builder_acts b' = builder_acts b"
    "builder_edges b' = builder_edges b \<union> E"
    "fragment E (m_nodeId b) d (length (nfa_nodes nfa)) (length (nfa_nodes nfa)) L"
  shows "generated nfa b d nfa b' L"
  by (rule generatedI [where D = "{}" and E = E]) (use assms in simp_all)

lemma atom_eps_ok: "graph_ok (\<lambda>nfa b d. Some (nfa, addEpsilonTransition d b)) {[]}"
  unfolding graph_ok_def
proof (intro allI impI)
  fix nfa b d
  assume pre: "nfa_wf nfa" "builder_ok nfa b" "d < length (nfa_nodes nfa)" "d \<noteq> m_nodeId b"
  note e = addEpsilonTransition_ok [OF pre(2,3)]
  have "fragment {(m_nodeId b, None, d)} (m_nodeId b) d (length (nfa_nodes nfa)) (length (nfa_nodes nfa)) {[]}"
    using pre(4) by (intro fragment_eps) simp
  then show "\<exists>nfa' b'. Some (nfa, addEpsilonTransition d b) = Some (nfa', b') \<and> generated nfa b d nfa' b' {[]}"
    using generated_edge [OF pre(1) e(1,2,4)] e(3) by auto
qed

lemma atom_characters_ok:
  "graph_ok (generateSubgraphForAtom (CharacterSetTerm q cs)) (atom_lang (CharacterSetTerm q cs))"
  unfolding graph_ok_def
proof (intro allI impI)
  fix nfa b d
  assume pre: "nfa_wf nfa" "builder_ok nfa b" "d < length (nfa_nodes nfa)" "d \<noteq> m_nodeId b"
  define P where "P = (\<lambda>i. if m_inverted cs then \<not> CharacterSet_get i cs else CharacterSet_get i cs)"
  define i where "i = (if m_inverted cs then 1 else 0 :: nat)"
  have i: "i \<le> 128" by (simp add: i_def)
  obtain b' where b': "add_character_ranges P d i b = Some b'" "builder_ok nfa b'" "m_nodeId b' = m_nodeId b"
    "builder_edges b' = builder_edges b \<union> {(m_nodeId b, Some c, d) | c. int i \<le> c \<and> c \<le> 127 \<and> P (nat c)}"
    "builder_acts b' = builder_acts b"
    using add_character_ranges_ok [OF pre(2,3) i, of P] by blast
  have X: "{c. int i \<le> c \<and> c \<le> 127 \<and> P (nat c)} = set_chars cs"
    by (auto simp: set_chars_def P_def i_def split: if_splits)
  have "fragment {(m_nodeId b, Some c, d) | c. c \<in> set_chars cs} (m_nodeId b) d (length (nfa_nodes nfa))
      (length (nfa_nodes nfa)) ((\<lambda>c. [c]) ` set_chars cs)"
    using pre(4) by (intro fragment_chars) simp
  moreover have "{(m_nodeId b, Some c, d) | c. int i \<le> c \<and> c \<le> 127 \<and> P (nat c)} =
      {(m_nodeId b, Some c, d) | c. c \<in> set_chars cs}"
    unfolding X [symmetric] by simp
  ultimately have "generated nfa b d nfa b' ((\<lambda>c. [c]) ` set_chars cs)"
    by (intro generated_edge [OF pre(1) b'(2,3,5) b'(4)]) simp
  moreover have "generateSubgraphForAtom (CharacterSetTerm q cs) nfa b d = Some (nfa, b')"
    using b'(1) by (simp add: P_def i_def split: if_splits)
  ultimately show "\<exists>nfa' b'. generateSubgraphForAtom (CharacterSetTerm q cs) nfa b d = Some (nfa', b') \<and>
      generated nfa b d nfa' b' (atom_lang (CharacterSetTerm q cs))" by simp
qed

lemma group_rest_ok:
  assumes "\<forall>t \<in> set ts. graph_ok (generateGraph t) (term_lang t)" "ts \<noteq> []"
    "nfa_wf nfa" "builder_ok nfa b" "d < length (nfa_nodes nfa)" "d \<noteq> m_nodeId b"
  shows "\<exists>nfa'. generate_group_rest ts nfa b d = Some nfa' \<and> finished nfa b d nfa' (concs (map term_lang ts))"
  using assms
proof (induction ts arbitrary: nfa b rule: induct_list012)
  case (2 t)
  have "graph_ok (generateGraph t) (term_lang t)" using 2(1) by simp
  then obtain nfa1 b1 where g: "generateGraph t nfa b d = Some (nfa1, b1)" "generated nfa b d nfa1 b1 (term_lang t)"
    using 2(3-6) by (rule graph_okD)
  show ?case using g(1) generated_finish [OF g(2)] by simp
next
  case (3 t t' ts)
  note pre = 3(5-8)
  let ?n = "length (nfa_nodes nfa)"
  obtain nb nfa1 where n: "NodeBuilder_new nfa = (nb, nfa1)" by (cases "NodeBuilder_new nfa")
  note n1 = NodeBuilder_new_ok [OF n pre(1)]
  have b1: "builder_ok nfa1 b" "m_nodeId nb \<noteq> m_nodeId b" by (rule NodeBuilder_new_keeps [OF n pre(2)])+
  have gt: "graph_ok (generateGraph t) (term_lang t)" "m_nodeId nb < length (nfa_nodes nfa1)"
    using 3(3) n1(3,4) by simp_all
  obtain nfa2 b2 where g: "generateGraph t nfa1 b (m_nodeId nb) = Some (nfa2, b2)"
    "generated nfa1 b (m_nodeId nb) nfa2 b2 (term_lang t)"
    by (rule graph_okD [OF gt(1) n1(1) b1(1) gt(2) b1(2)])
  obtain nfa3 where f: "NodeBuilder_destroy b2 nfa2 = Some nfa3" "finished nfa1 b (m_nodeId nb) nfa3 (term_lang t)"
    using generated_finish [OF g(2)] by blast
  obtain D1 where f1: "nfa_wf nfa3" "nfa_acts nfa3 = nfa_acts nfa1 \<union> builder_acts b"
    "length (nfa_nodes nfa1) \<le> length (nfa_nodes nfa3)"
    "\<forall>i < length (nfa_nodes nfa1). i \<noteq> m_nodeId b \<longrightarrow> nfa_nodes nfa3 ! i = nfa_nodes nfa1 ! i"
    "nfa_edges nfa3 = nfa_edges nfa1 \<union> builder_edges b \<union> D1"
    "\<forall>(p, l, q) \<in> D1. p = m_nodeId b \<or> length (nfa_nodes nfa1) \<le> p"
    "fragment D1 (m_nodeId b) (m_nodeId nb) (length (nfa_nodes nfa1)) (length (nfa_nodes nfa3)) (term_lang t)"
    using f(2) by (rule finishedE)
  have nb3: "builder_ok nfa3 nb"
    by (rule builder_ok_mono [OF n1(2) f1(3)]) (use f1(4) n1(3,4) b1(2) in simp)
  have d3: "d < length (nfa_nodes nfa3)" "d \<noteq> m_nodeId nb" using pre(3) f1(3) n1(3,4) by simp_all
  obtain nfa4 where r: "generate_group_rest (t' # ts) nfa3 nb d = Some nfa4"
    "finished nfa3 nb d nfa4 (concs (map term_lang (t' # ts)))"
    using 3(2) [OF _ _ f1(1) nb3 d3] 3(3) by auto
  obtain D2 where f2: "nfa_wf nfa4" "nfa_acts nfa4 = nfa_acts nfa3 \<union> builder_acts nb"
    "length (nfa_nodes nfa3) \<le> length (nfa_nodes nfa4)"
    "\<forall>i < length (nfa_nodes nfa3). i \<noteq> m_nodeId nb \<longrightarrow> nfa_nodes nfa4 ! i = nfa_nodes nfa3 ! i"
    "nfa_edges nfa4 = nfa_edges nfa3 \<union> builder_edges nb \<union> D2"
    "\<forall>(p, l, q) \<in> D2. p = m_nodeId nb \<or> length (nfa_nodes nfa3) \<le> p"
    "fragment D2 (m_nodeId nb) d (length (nfa_nodes nfa3)) (length (nfa_nodes nfa4)) (concs (map term_lang (t' # ts)))"
    using r(2) by (rule finishedE)
  have fr: "fragment (D1 \<union> D2) (m_nodeId b) d ?n (length (nfa_nodes nfa4)) (concs (map term_lang (t # t' # ts)))"
    unfolding list.map(2) [of _ t] concs_simps(2) [of "term_lang t"]
    by (rule fragment_seq [OF f1(7) f2(7)]) (use pre(3,4) n1(3,4) f1(3) f2(3) builder_id_lt [OF pre(2)] in simp_all)
  have keep: "nfa_nodes nfa4 ! i = nfa_nodes nfa ! i" if "i < ?n" "i \<noteq> m_nodeId b" for i
    using f2(4) f1(3,4) that n1(3,4) NodeBuilder_new_nodes [OF n that(1)] by simp
  have "finished nfa b d nfa4 (concs (map term_lang (t # t' # ts)))"
    unfolding finished_def
  proof (intro conjI exI [of _ "D1 \<union> D2"])
    show "nfa_edges nfa4 = nfa_edges nfa \<union> builder_edges b \<union> (D1 \<union> D2)" using f2(5) f1(5) n1(5,7) by auto
    show "nfa_acts nfa4 = nfa_acts nfa \<union> builder_acts b" using f2(2) f1(2) n1(6,8) by simp
    show "\<forall>(p, l, q) \<in> D1 \<union> D2. p = m_nodeId b \<or> ?n \<le> p" using f1(3,6) f2(6) n1(3,4) by fastforce
  qed (use f2 f1 n1 fr keep in simp_all)
  moreover have "generate_group_rest (t # t' # ts) nfa b d = Some nfa4"
    using n g(1) f(1) r(1) by (simp add: NodeBuilder_assign_def)
  ultimately show ?case by blast
qed simp

lemma atom_group_ok:
  assumes sub: "\<forall>t \<in> set ts. graph_ok (generateGraph t) (term_lang t)"
  shows "graph_ok (generateSubgraphForAtom (GroupTerm q ts)) (atom_lang (GroupTerm q ts))"
proof -
  consider "ts = []" | t where "ts = [t]" | t t' ts' where "ts = t # t' # ts'"
    by (cases ts rule: remdups_adj.cases) auto
  then show ?thesis
  proof cases
    case 1
    have "generateSubgraphForAtom (GroupTerm q []) = (\<lambda>nfa b d. Some (nfa, addEpsilonTransition d b))"
      by (intro ext) simp
    then show ?thesis using atom_eps_ok 1 by simp
  next
    case 2
    have "generateSubgraphForAtom (GroupTerm q [t]) = generateGraph t" by (intro ext) simp
    then show ?thesis using 2 sub by simp
  next
    case h: 3
    show ?thesis
      unfolding graph_ok_def
    proof (intro allI impI)
      fix nfa b d
      assume pre: "nfa_wf nfa" "builder_ok nfa b" "d < length (nfa_nodes nfa)" "d \<noteq> m_nodeId b"
      let ?n = "length (nfa_nodes nfa)"
      obtain lt nfa1 where n: "NodeBuilder_new nfa = (lt, nfa1)" by (cases "NodeBuilder_new nfa")
      note n1 = NodeBuilder_new_ok [OF n pre(1)]
      have b1: "builder_ok nfa1 b" "m_nodeId lt \<noteq> m_nodeId b" by (rule NodeBuilder_new_keeps [OF n pre(2)])+
      have gt: "graph_ok (generateGraph t) (term_lang t)" "m_nodeId lt < length (nfa_nodes nfa1)"
        using sub h n1(3,4) by simp_all
      obtain nfa2 b2 where g: "generateGraph t nfa1 b (m_nodeId lt) = Some (nfa2, b2)"
        "generated nfa1 b (m_nodeId lt) nfa2 b2 (term_lang t)"
        by (rule graph_okD [OF gt(1) n1(1) b1(1) gt(2) b1(2)])
      obtain D E where g1: "nfa_wf nfa2" "builder_ok nfa2 b2" "m_nodeId b2 = m_nodeId b"
        "builder_acts b2 = builder_acts b" "nfa_acts nfa2 = nfa_acts nfa1"
        "length (nfa_nodes nfa1) \<le> length (nfa_nodes nfa2)"
        "\<forall>i < length (nfa_nodes nfa1). nfa_nodes nfa2 ! i = nfa_nodes nfa1 ! i"
        "nfa_edges nfa2 = nfa_edges nfa1 \<union> D" "builder_edges b2 = builder_edges b \<union> E"
        "\<forall>(p, l, q) \<in> D. length (nfa_nodes nfa1) \<le> p"
        "fragment (D \<union> E) (m_nodeId b) (m_nodeId lt) (length (nfa_nodes nfa1)) (length (nfa_nodes nfa2)) (term_lang t)"
        using g(2) by (rule generatedE)
      have lt2: "builder_ok nfa2 lt"
        by (rule builder_ok_mono [OF n1(2) g1(6)]) (use g1(7) n1(3,4) in simp)
      have d2: "d < length (nfa_nodes nfa2)" "d \<noteq> m_nodeId lt" using pre(3) g1(6) n1(3,4) by simp_all
      obtain nfa3 where r: "generate_group_rest (t' # ts') nfa2 lt d = Some nfa3"
        "finished nfa2 lt d nfa3 (concs (map term_lang (t' # ts')))"
        using group_rest_ok [OF _ _ g1(1) lt2 d2, of "t' # ts'"] sub h by auto
      obtain D2 where f2: "nfa_wf nfa3" "nfa_acts nfa3 = nfa_acts nfa2 \<union> builder_acts lt"
        "length (nfa_nodes nfa2) \<le> length (nfa_nodes nfa3)"
        "\<forall>i < length (nfa_nodes nfa2). i \<noteq> m_nodeId lt \<longrightarrow> nfa_nodes nfa3 ! i = nfa_nodes nfa2 ! i"
        "nfa_edges nfa3 = nfa_edges nfa2 \<union> builder_edges lt \<union> D2"
        "\<forall>(p, l, q) \<in> D2. p = m_nodeId lt \<or> length (nfa_nodes nfa2) \<le> p"
        "fragment D2 (m_nodeId lt) d (length (nfa_nodes nfa2)) (length (nfa_nodes nfa3)) (concs (map term_lang (t' # ts')))"
        using r(2) by (rule finishedE)
      have fr: "fragment ((D \<union> E) \<union> D2) (m_nodeId b) d ?n (length (nfa_nodes nfa3)) (concs (map term_lang (t # t' # ts')))"
        unfolding list.map(2) [of _ t] concs_simps(2) [of "term_lang t"]
        by (rule fragment_seq [OF g1(11) f2(7)]) (use pre(3,4) n1(3,4) g1(6) f2(3) builder_id_lt [OF pre(2)] in simp_all)
      have keep: "nfa_nodes nfa3 ! i = nfa_nodes nfa ! i" if "i < ?n" for i
        using f2(4) g1(6,7) that n1(3,4) NodeBuilder_new_nodes [OF n that(1)] by simp
      have b3: "builder_ok nfa3 b2"
        by (rule builder_ok_mono [OF g1(2) f2(3)]) (use f2(4) g1(3) b1(2) builder_id_lt [OF g1(2)] in simp)
      have "generated nfa b d nfa3 b2 (concs (map term_lang (t # t' # ts')))"
      proof (rule generatedI [where D = "D \<union> D2" and E = E])
        show "fragment (D \<union> D2 \<union> E) (m_nodeId b) d ?n (length (nfa_nodes nfa3)) (concs (map term_lang (t # t' # ts')))"
          using fr by (simp only: Un_ac)
        show "nfa_edges nfa3 = nfa_edges nfa \<union> (D \<union> D2)" using f2(5) g1(8) n1(5,7) by auto
        show "\<forall>(p, l, q) \<in> D \<union> D2. ?n \<le> p" using g1(6,10) f2(6) n1(3,4) by fastforce
        show "nfa_acts nfa3 = nfa_acts nfa" using f2(2) g1(5) n1(6,8) by simp
      qed (use f2 g1 n1 b3 keep in simp_all)
      moreover have "generateSubgraphForAtom (GroupTerm q ts) nfa b d = Some (nfa3, b2)"
        using n g(1) r(1) h by simp
      ultimately show "\<exists>nfa' b'. generateSubgraphForAtom (GroupTerm q ts) nfa b d = Some (nfa', b') \<and>
          generated nfa b d nfa' b' (atom_lang (GroupTerm q ts))" using h by simp
    qed
  qed
qed

theorem generateGraph_ok: "graph_ok (generateGraph t) (term_lang t)"
proof (induction t)
  case (EmptyTerm q)
  have "generateSubgraphForAtom (EmptyTerm q) = (\<lambda>nfa b d. Some (nfa, addEpsilonTransition d b))"
    by (intro ext) simp
  then have "graph_ok (generateSubgraphForAtom (EmptyTerm q)) {[]}" using atom_eps_ok by simp
  then show ?case using generateGraph_from_atom [of "EmptyTerm q"] by simp
next
  case (CharacterSetTerm q cs)
  show ?case using generateGraph_from_atom [OF atom_characters_ok [of q cs]] by simp
next
  case (GroupTerm q ts)
  then have "\<forall>t \<in> set ts. graph_ok (generateGraph t) (term_lang t)" by simp
  from generateGraph_from_atom [OF atom_group_ok [OF this, of q]] show ?case by simp
qed

section \<open>The questions about terms\<close>

definition cs_wf :: "CharacterSet \<Rightarrow> bool" where
  "cs_wf cs \<longleftrightarrow> length (m_characters cs) = 2"

fun term_wf :: "Term \<Rightarrow> bool" where
  "term_wf (EmptyTerm q) = False"
| "term_wf (CharacterSetTerm q cs) = cs_wf cs"
| "term_wf (GroupTerm q ts) = list_all term_wf ts"

lemma CharacterSet_get_bit: "CharacterSet_get i cs \<longleftrightarrow> bit (m_characters cs ! (i div 64)) (i mod 64)"
proof -
  have "(w AND push_bit n 1 \<noteq> 0) = bit w n" for w :: u64 and n
    by (simp add: and_exp_eq_0_iff_not_bit)
  then show ?thesis by (simp add: CharacterSet_get_def)
qed

lemma CharacterSet_bitCount_card: "CharacterSet_bitCount cs = card {i. i < 128 \<and> CharacterSet_get i cs}"
proof -
  have g: "CharacterSet_get i cs = bit (m_characters cs ! 0) i" "CharacterSet_get (i + 64) cs = bit (m_characters cs ! 1) i"
    if "i < 64" for i using that by (simp_all add: CharacterSet_get_bit div_add_self2)
  have "{i. i < 128 \<and> CharacterSet_get i cs} = set (filter (\<lambda>i. CharacterSet_get i cs) [0..<128])" by auto
  then have "card {i. i < 128 \<and> CharacterSet_get i cs} = length (filter (\<lambda>i. CharacterSet_get i cs) [0..<128])"
    by (simp only: distinct_card distinct_filter distinct_upt)
  also have "[0..<128] = [0..<64] @ map (\<lambda>i. i + 64) [0..<64]"
    using upt_add_eq_append [of 0 64 64] map_add_upt [of 64 64] by simp
  also have "length (filter (\<lambda>i. CharacterSet_get i cs) ([0..<64] @ map (\<lambda>i. i + 64) [0..<64])) =
      length (filter (\<lambda>i. CharacterSet_get i cs) [0..<64]) + length (filter (\<lambda>i. CharacterSet_get (i + 64) cs) [0..<64])"
    by (simp only: filter_append length_append filter_map length_map o_def)
  also have "filter (\<lambda>i. CharacterSet_get i cs) [0..<64] = filter (bit (m_characters cs ! 0)) [0..<64]"
    by (intro filter_cong) (simp_all add: g)
  also have "filter (\<lambda>i. CharacterSet_get (i + 64) cs) [0..<64] = filter (bit (m_characters cs ! 1)) [0..<64]"
    by (intro filter_cong) (simp_all add: g)
  finally show ?thesis by (simp only: CharacterSet_bitCount_def bitCount64_popcount)
qed

definition any_chars :: "cchar set" where
  "any_chars = {1..127}"

lemma int_image: "x \<in> int ` B \<longleftrightarrow> 0 \<le> x \<and> nat x \<in> B"
  by (auto intro: image_eqI [of x int "nat x"])

lemma universal_set:
  "isUniversalTransition (CharacterSetTerm q cs) \<longleftrightarrow> set_chars cs = any_chars \<and> \<not> (m_inverted cs \<and> CharacterSet_get 0 cs)"
proof -
  define A where "A = {i. i < 128 \<and> CharacterSet_get i cs}"
  have fin: "finite A" and sub: "\<And>x. x \<in> A \<Longrightarrow> x < 128" by (auto simp: A_def)
  have "set_chars cs = int ` (if m_inverted cs then {1..<128} - A else A)"
    by (auto simp: set_chars_def A_def int_image split: if_splits)
  moreover have "any_chars = int ` {1..<128}"
    by (auto simp: any_chars_def int_image)
  ultimately have "set_chars cs = any_chars \<longleftrightarrow> (if m_inverted cs then {1..<128} - A else A) = {1..<128}"
    using inj_image_eq_iff [OF inj_of_nat [where 'a = int], of "if m_inverted cs then {1..<128} - A else A" "{1..<128}"]
    by (simp only:)
  moreover have "A = {1..<128} \<longleftrightarrow> card A = 127 \<and> 0 \<notin> A"
  proof
    assume h: "card A = 127 \<and> 0 \<notin> A"
    have "A \<subseteq> {1..<128}"
    proof
      fix x assume "x \<in> A"
      then show "x \<in> {1..<128}" using h sub by (cases "x = 0") auto
    qed
    then show "A = {1..<128}" using h by (intro card_subset_eq) simp_all
  qed simp
  moreover have "{1..<128} - A = {1..<128} \<and> 0 \<notin> A \<longleftrightarrow> A = {}"
  proof
    assume h: "{1..<128} - A = {1..<128} \<and> 0 \<notin> A"
    have "x \<notin> A" for x
    proof
      assume x: "x \<in> A"
      then have "x \<in> {1..<128}" using h sub by (cases "x = 0") auto
      then show False using h x by blast
    qed
    then show "A = {}" by blast
  qed simp
  moreover have "0 \<in> A \<longleftrightarrow> CharacterSet_get 0 cs" by (simp add: A_def)
  ultimately show ?thesis
    using fin by (auto simp: CharacterSet_bitCount_card A_def [symmetric])
qed

lemma conc_lists: "A \<subseteq> lists X \<Longrightarrow> B \<subseteq> lists X \<Longrightarrow> conc A B \<subseteq> lists X"
  by (fastforce simp: conc_def)

lemma star_lists: "L \<subseteq> lists X \<Longrightarrow> star L \<subseteq> lists X"
proof
  fix w assume L: "L \<subseteq> lists X"
  show "w \<in> star L \<Longrightarrow> w \<in> lists X" by (induction rule: star.induct) (use L in auto)
qed

lemma quantified_lists: "L \<subseteq> lists X \<Longrightarrow> quantified q L \<subseteq> lists X"
  by (cases q) (simp_all add: conc_lists star_lists)

lemma subset_star: "L \<subseteq> star L"
  using star_append [OF _ star_Nil] by fastforce

lemma subset_quantified: "L \<subseteq> quantified q L"
proof
  fix w assume w: "w \<in> L"
  have "w @ [] \<in> conc L (star L)" by (rule concI [OF w star_Nil])
  then show "w \<in> quantified q L" using w subset_star [of L] by (cases q) auto
qed

lemma lists_subset_star: "(\<And>c. c \<in> X \<Longrightarrow> [c] \<in> L) \<Longrightarrow> lists X \<subseteq> star L"
proof
  fix w assume L: "\<And>c. c \<in> X \<Longrightarrow> [c] \<in> L"
  show "w \<in> lists X \<Longrightarrow> w \<in> star L"
  proof (induction w)
    case (Cons c w)
    then have "[c] @ w \<in> star L" by (intro star_append L) auto
    then show ?case by simp
  qed (simp add: star_Nil)
qed

lemma universal_sound:
  "isUniversalTransition t \<Longrightarrow> term_lang t \<subseteq> lists any_chars \<and> (\<forall>c \<in> any_chars. [c] \<in> term_lang t)"
proof (induction t rule: isUniversalTransition.induct)
  case (2 q cs)
  then have "set_chars cs = any_chars" using universal_set by blast
  moreover have "(\<lambda>c. [c]) ` any_chars \<subseteq> lists any_chars" by auto
  ultimately show ?case using quantified_lists [of "(\<lambda>c. [c]) ` any_chars" any_chars q]
      subset_quantified [of "(\<lambda>c. [c]) ` any_chars" q] by (simp add: subset_eq)
next
  case (3 q t)
  then have "term_lang t \<subseteq> lists any_chars \<and> (\<forall>c \<in> any_chars. [c] \<in> term_lang t)" by simp
  then show ?case using quantified_lists [of "term_lang t" any_chars q] subset_quantified [of "term_lang t" q]
    by (simp add: subset_eq)
qed simp_all

lemma universal_atom:
  assumes "isUniversalTransition t" "c \<in> any_chars"
  shows "[c] \<in> atom_lang t"
proof (cases t rule: isUniversalTransition.cases)
  case (2 q cs)
  then have "set_chars cs = any_chars" using assms(1) universal_set by blast
  then show ?thesis using 2 assms(2) by simp
next
  case (3 q u)
  then show ?thesis using universal_sound [of u] assms by simp
qed (use assms(1) in simp_all)

lemma quantified_any: "quantified q (lists X) = lists X"
proof (rule antisym)
  show "quantified q (lists X) \<subseteq> lists X" by (rule quantified_lists) simp
qed (rule subset_quantified)

lemma known_any: "isKnownToMatchAnyString t \<Longrightarrow> term_lang t = lists any_chars"
proof (induction t rule: isKnownToMatchAnyString.induct)
  case (2 q cs)
  then have q: "q = ZeroOrMore" "set_chars cs = any_chars" using universal_set by auto
  show ?case
  proof (rule antisym)
    show "term_lang (CharacterSetTerm q cs) \<subseteq> lists any_chars" using universal_sound [of "CharacterSetTerm q cs"] 2 by simp
    show "lists any_chars \<subseteq> term_lang (CharacterSetTerm q cs)" using q by (auto intro!: lists_subset_star)
  qed
next
  case (3 q t)
  show ?case
  proof (cases "isKnownToMatchAnyString t")
    case True
    then show ?thesis using 3(1) by (simp add: quantified_any)
  next
    case False
    then have u: "isUniversalTransition t" and
      q: "q = ZeroOrMore \<or> (q = ZeroOrOne \<and> m_quantifier t = OneOrMore) \<or> (q = OneOrMore \<and> m_quantifier t = ZeroOrOne)"
      using 3(2) by (auto split: if_splits)
    note s = universal_sound [OF u]
    note atom = universal_atom [OF u]
    have "lists any_chars \<subseteq> quantified q (term_lang t)"
    proof (cases q)
      case ZeroOrMore then show ?thesis using s by (auto intro!: lists_subset_star)
    next
      case ZeroOrOne
      then have "term_lang t = conc (atom_lang t) (star (atom_lang t))" using q term_lang_atom [of t] by simp
      then have "insert [] (term_lang t) = star (atom_lang t)" using star_eq [of "atom_lang t"] by simp
      then show ?thesis using ZeroOrOne lists_subset_star [OF atom] by simp
    next
      case OneOrMore
      then have "[] \<in> term_lang t" using q term_lang_atom [of t] by simp
      then have "star (term_lang t) \<subseteq> conc (term_lang t) (star (term_lang t))"
        using concI [of "[]" "term_lang t"] by auto
      then show ?thesis using OneOrMore lists_subset_star [of any_chars "term_lang t"] s by auto
    next
      case One then show ?thesis using q by simp
    qed
    then show ?thesis using quantified_lists [of "term_lang t" any_chars q] s by auto
  qed
qed simp_all

lemma concs_length: "\<forall>L \<in> set Ls. \<exists>n. \<forall>w \<in> L. length w = n \<Longrightarrow> \<exists>n. \<forall>w \<in> concs Ls. length w = n"
proof (induction Ls)
  case (Cons L Ls)
  then obtain n m where "\<forall>w \<in> L. length w = n" "\<forall>w \<in> concs Ls. length w = m" by auto
  then show ?case by (intro exI [of _ "n + m"]) (auto simp: conc_def)
qed simp

lemma fixed_length_sound: "hasFixedLength t \<Longrightarrow> \<exists>n. \<forall>w \<in> term_lang t. length w = n"
proof (induction t rule: hasFixedLength.induct)
  case (3 q ts)
  then have "\<forall>L \<in> set (map term_lang ts). \<exists>n. \<forall>w \<in> L. length w = n" by simp
  from concs_length [OF this] show ?case using 3(2) by simp
qed auto

lemma nonempty_sound: "matchesAtLeastOneCharacter t \<Longrightarrow> term_wf t \<Longrightarrow> [] \<notin> term_lang t"
proof (induction t)
  case (CharacterSetTerm q cs)
  then show ?case by (cases q) (auto simp: conc_def)
next
  case (GroupTerm q ts)
  then obtain t where t: "t \<in> set ts" "[] \<notin> term_lang t" by (auto simp: list_all_iff)
  then have "[] \<notin> concs (map term_lang ts)" by (induction ts) (auto simp: conc_def)
  then show ?case using GroupTerm.prems by (cases q) (auto simp: conc_def)
qed simp

text \<open>
  A term in which the null character stands only for the end of the URL: a set that reads it is
  the end of line assertion, and the assertion is not inverted.
\<close>

fun null_only_assertion :: "Term \<Rightarrow> bool" where
  "null_only_assertion (EmptyTerm q) = True"
| "null_only_assertion (CharacterSetTerm q cs) \<longleftrightarrow>
     (if isEndOfLineAssertion (CharacterSetTerm q cs) then \<not> m_inverted cs
      else m_inverted cs \<or> \<not> CharacterSet_get 0 cs)"
| "null_only_assertion (GroupTerm q ts) = list_all null_only_assertion ts"

definition visible :: "cchar list \<Rightarrow> bool" where
  "visible w \<longleftrightarrow> (\<exists>c \<in> set w. c \<noteq> 0)"

lemma visible_append [simp]: "visible (u @ v) \<longleftrightarrow> visible u \<or> visible v"
  by (auto simp: visible_def)

lemma visible_Nil [simp]: "\<not> visible []"
  by (simp add: visible_def)

lemma quantified_visible:
  "(\<forall>w \<in> quantified q L. visible w) \<longleftrightarrow> q \<noteq> ZeroOrOne \<and> q \<noteq> ZeroOrMore \<and> (\<forall>w \<in> L. visible w)"
proof (cases q)
  case OneOrMore
  have "L \<subseteq> conc L (star L)" by (force simp: conc_def intro: star.intros)
  then show ?thesis using OneOrMore by (auto simp: conc_def)
qed (auto intro: bexI [OF _ star_Nil])

lemma concs_visible: "(\<forall>w \<in> concs Ls. visible w) \<longleftrightarrow> (\<exists>L \<in> set Ls. \<forall>w \<in> L. visible w)"
proof (induction Ls)
  case (Cons L Ls)
  have "(\<forall>w \<in> conc L (concs Ls). visible w) \<longleftrightarrow> (\<forall>w \<in> L. visible w) \<or> (\<forall>w \<in> concs Ls. visible w)"
    by (fastforce simp: conc_def)
  then show ?case using Cons.IH by simp
qed simp

lemma visible_iff:
  "term_wf t \<Longrightarrow> null_only_assertion t \<Longrightarrow> matchesAtLeastOneCharacter t \<longleftrightarrow> (\<forall>w \<in> term_lang t. visible w)"
proof (induction t)
  case (CharacterSetTerm q cs)
  have "isEndOfLineAssertion (CharacterSetTerm q cs) \<longleftrightarrow> 0 \<in> set_chars cs"
    using CharacterSetTerm.prems(2) by (auto simp: set_chars_def split: if_splits)
  then show ?case
    unfolding term_lang.simps quantified_visible by (auto simp: visible_def simp del: isEndOfLineAssertion.simps)
next
  case (GroupTerm q ts)
  then show ?case
    unfolding term_lang.simps quantified_visible concs_visible by (auto simp: list_all_iff)
qed simp

section \<open>Properties\<close>

lemma generateGraph_final_ok:
  assumes "nfa_wf nfa" "builder_ok nfa source" "NodeBuilder_new nfa = (newEnd, nfa1)"
  obtains nfa2 source1 where
    "generateGraph_final t nfa source finalActions = Some (NodeBuilder_setActions finalActions newEnd, nfa2, source1)"
    "generated nfa1 source (m_nodeId newEnd) nfa2 source1 (term_lang t)"
    "builder_ok nfa2 (NodeBuilder_setActions finalActions newEnd)"
proof -
  note n = NodeBuilder_new_ok [OF assms(3,1)] and k = NodeBuilder_new_keeps [OF assms(3,2)]
  have "m_nodeId newEnd < length (nfa_nodes nfa1)" using n(3,4) by simp
  then obtain nfa2 source1 where g: "generateGraph t nfa1 source (m_nodeId newEnd) = Some (nfa2, source1)"
    "generated nfa1 source (m_nodeId newEnd) nfa2 source1 (term_lang t)"
    by (rule graph_okD [OF generateGraph_ok n(1) k(1) _ k(2)])
  have "builder_ok nfa2 newEnd"
    by (rule builder_ok_mono [OF n(2)]) (use g(2) n(3,4) in \<open>simp_all add: generated_def\<close>)
  from that [OF _ g(2) NodeBuilder_setActions_ok(1) [OF this]] show thesis
    using g(1) assms(3) by (simp add: generateGraph_final_def)
qed

text \<open>
  C9. The graph that \<open>generateGraph\<close> adds for a term, from the root of a fresh NFA to an end node with
  the given actions, is generated without failing an assertion, leaves a well-formed NFA, and matches
  an input exactly when a prefix of it is in the language of the term.
\<close>

theorem generateGraph_language:
  "case NodeBuilder_new NFA_new of (start, nfa0) \<Rightarrow>
     \<exists>newEnd nfa1 start1 nfa2 nfa3. generateGraph_final t nfa0 start finalActions = Some (newEnd, nfa1, start1) \<and>
       NodeBuilder_destroy newEnd nfa1 = Some nfa2 \<and> NodeBuilder_destroy start1 nfa2 = Some nfa3 \<and> nfa_wf nfa3 \<and>
       (\<forall>cs. nfa_matches nfa3 cs = (if \<exists>w. prefix w cs \<and> w \<in> term_lang t then set finalActions else {}))"
proof -
  obtain start nfa0 where r: "NodeBuilder_new NFA_new = (start, nfa0)" by (cases "NodeBuilder_new NFA_new")
  note r0 = NodeBuilder_new_ok [OF r nfa_wf_new(1)]
  obtain newEnd nfa1 where n: "NodeBuilder_new nfa0 = (newEnd, nfa1)" by (cases "NodeBuilder_new nfa0")
  note n1 = NodeBuilder_new_ok [OF n r0(1)] and k = NodeBuilder_new_keeps [OF n r0(2)]
  let ?e = "NodeBuilder_setActions finalActions newEnd"
  obtain nfa2 start1 where g: "generateGraph_final t nfa0 start finalActions = Some (?e, nfa2, start1)"
    "generated nfa1 start (m_nodeId newEnd) nfa2 start1 (term_lang t)" "builder_ok nfa2 ?e"
    by (rule generateGraph_final_ok [OF r0(1,2) n])
  note e = NodeBuilder_setActions_ok [OF n1(2), of finalActions]
  obtain D E where h: "nfa_wf nfa2" "builder_ok nfa2 start1" "m_nodeId start1 = m_nodeId start"
    "builder_acts start1 = builder_acts start" "nfa_acts nfa2 = nfa_acts nfa1"
    "length (nfa_nodes nfa1) \<le> length (nfa_nodes nfa2)"
    "\<forall>i < length (nfa_nodes nfa1). nfa_nodes nfa2 ! i = nfa_nodes nfa1 ! i"
    "nfa_edges nfa2 = nfa_edges nfa1 \<union> D" "builder_edges start1 = builder_edges start \<union> E"
    "\<forall>(p, l, q) \<in> D. length (nfa_nodes nfa1) \<le> p"
    "fragment (D \<union> E) (m_nodeId start) (m_nodeId newEnd) (length (nfa_nodes nfa1)) (length (nfa_nodes nfa2)) (term_lang t)"
    using g(2) by (rule generatedE)
  obtain nfa3 where d: "NodeBuilder_destroy ?e nfa2 = Some nfa3" "nfa_wf nfa3"
    "length (nfa_nodes nfa3) = length (nfa_nodes nfa2)"
    "\<forall>i. i \<noteq> m_nodeId ?e \<longrightarrow> nfa_nodes nfa3 ! i = nfa_nodes nfa2 ! i"
    "nfa_edges nfa3 = nfa_edges nfa2 \<union> builder_edges ?e" "nfa_acts nfa3 = nfa_acts nfa2 \<union> builder_acts ?e"
    by (rule destroyE [OF h(1) g(3)])
  have "builder_ok nfa3 start1" by (rule builder_ok_mono [OF h(2)]) (use d(3,4) h(3) e(2) k(2) in simp_all)
  then obtain nfa4 where f: "NodeBuilder_destroy start1 nfa3 = Some nfa4" "nfa_wf nfa4"
    "nfa_edges nfa4 = nfa_edges nfa3 \<union> builder_edges start1" "nfa_acts nfa4 = nfa_acts nfa3 \<union> builder_acts start1"
    using destroyE [OF d(2)] by metis
  have id: "m_nodeId start = 0" using r0(3) by (simp add: NFA_new_def)
  have "nfa_edges nfa4 = D \<union> E" using f(3) d(5) e(3) h(8,9) n1(5,7) r0(5,7) nfa_wf_new(2) by simp
  moreover have "nfa_acts nfa4 = {m_nodeId newEnd} \<times> set finalActions"
    using f(4) d(6) e(4) h(4,5) n1(6,8) r0(6,8) nfa_wf_new(3) by simp
  ultimately have "nfa_matches nfa4 cs = (if \<exists>w. prefix w cs \<and> w \<in> term_lang t then set finalActions else {})" for cs
    using h(11) unfolding nfa_matches_def fragment_def id by auto
  then show ?thesis using r g(1) d(1) f(1,2) by auto
qed

text \<open>
  C10. \<open>isKnownToMatchAnyString\<close>, on which the parser relies to drop and to reorder terms, is right: a
  term for which it answers true has as its language all strings of the characters 1 to 127, the empty
  string included, whatever the nesting of groups and quantifiers.
\<close>

theorem known_to_match_any_string:
  assumes "isKnownToMatchAnyString t"
  shows "term_lang t = lists {1..127}"
  using known_any [OF assms] by (simp add: any_chars_def)

theorem known_to_match_any_string_witness:
  "isKnownToMatchAnyString (GroupTerm ZeroOrOne [CharacterSetTerm OneOrMore \<lparr>m_inverted = True, m_characters = [0, 0]\<rparr>]) \<and>
   term_lang (GroupTerm ZeroOrOne [CharacterSetTerm OneOrMore \<lparr>m_inverted = True, m_characters = [0, 0]\<rparr>]) = lists {1..127}"
proof -
  have h: "isKnownToMatchAnyString (GroupTerm ZeroOrOne [CharacterSetTerm OneOrMore \<lparr>m_inverted = True, m_characters = [0, 0]\<rparr>])"
    by (simp add: CharacterSet_bitCount_def bitCount64_def bitCount32_def)
  show ?thesis using known_to_match_any_string [OF h] h by blast
qed

text \<open>
  C11. \<open>matchesAtLeastOneCharacter\<close> is right. The language of a valid term for which it answers true
  does not contain the empty string. Where the null character stands only for the end of line, it
  answers true exactly for the terms all of whose words have a character besides that end: the
  assertion \<open>$\<close> does not count as a character.
\<close>

theorem matches_at_least_one_character:
  assumes "term_wf t"
  shows "(matchesAtLeastOneCharacter t \<longrightarrow> [] \<notin> term_lang t) \<and>
    (null_only_assertion t \<longrightarrow>
      (matchesAtLeastOneCharacter t \<longleftrightarrow> (\<forall>w \<in> term_lang t. \<exists>c \<in> set w. c \<noteq> 0)))"
  using nonempty_sound [OF _ assms] visible_iff [OF assms] by (simp add: visible_def)

theorem matches_at_least_one_character_witness:
  "\<exists>t eol w. Term_character 97 False = Some t \<and> Term_EndOfLineAssertion = Some eol \<and>
     [] \<notin> term_lang (GroupTerm OneOrMore [quantify ZeroOrOne t, t]) \<and>
     \<not> matchesAtLeastOneCharacter eol \<and> w \<in> term_lang eol \<and> \<not> (\<exists>c \<in> set w. c \<noteq> 0)"
proof -
  define t where "t = CharacterSetTerm One \<lparr>m_inverted = False, m_characters = [0, 0x200000002]\<rparr>"
  define eol where "eol = CharacterSetTerm One \<lparr>m_inverted = False, m_characters = [1, 0]\<rparr>"
  have t: "Term_character 97 False = Some t" unfolding t_def by code_simp
  have eol: "Term_EndOfLineAssertion = Some eol" unfolding eol_def by code_simp
  have "matchesAtLeastOneCharacter (GroupTerm OneOrMore [quantify ZeroOrOne t, t])" unfolding t_def by code_simp
  moreover have "term_wf (GroupTerm OneOrMore [quantify ZeroOrOne t, t])" by (simp add: t_def cs_wf_def)
  ultimately have "[] \<notin> term_lang (GroupTerm OneOrMore [quantify ZeroOrOne t, t])"
    using matches_at_least_one_character by blast
  moreover have "term_wf eol" by (simp add: eol_def cs_wf_def)
  moreover have no: "\<not> matchesAtLeastOneCharacter eol" "null_only_assertion eol" unfolding eol_def by code_simp+
  ultimately show ?thesis using t eol no matches_at_least_one_character by metis
qed

text \<open>
  C12. \<open>CharacterSet::bitCount\<close>, which adds bits in parallel inside the two words of the set, is the
  number of characters in the set.
\<close>

theorem bitCount_counts_characters:
  "CharacterSet_bitCount cs = card {c. c < 128 \<and> CharacterSet_get c cs}"
  by (rule CharacterSet_bitCount_card)

text \<open>
  C13. The class \<open>[^\0]\<close>, whose graph reads any character, is taken for the end of line assertion, and
  not for a universal transition: \<open>isEndOfLineAssertion\<close> does not look at the inversion of the set.
\<close>

theorem inverted_null_class_is_end_of_line:
  "\<exists>t. addCharacter 0 isCaseSensitive (Term_CharacterSet True) = Some t \<and>
     term_lang t = (\<lambda>c. [c]) ` {1..127} \<and> isEndOfLineAssertion t \<and> \<not> isUniversalTransition t"
proof -
  define cs where "cs = \<lparr>m_inverted = True, m_characters = [1, 0 :: u64]\<rparr>"
  have a: "addCharacter 0 isCaseSensitive (Term_CharacterSet True) = Some (CharacterSetTerm One cs)"
    by (simp add: Term_CharacterSet_def CharacterSet_set_def CharacterSet_invert_def CharacterSet_new_def
        isASCIIAlpha_def cs_def)
  have g: "CharacterSet_get i cs \<longleftrightarrow> i = 0" if "i < 128" for i
  proof -
    have "i div 64 = 0 \<or> i div 64 = 1" using that by auto
    then show ?thesis by (auto simp: CharacterSet_get_bit cs_def bit_1_iff)
  qed
  have "set_chars cs = {1..127}" using g by (auto simp: set_chars_def cs_def [THEN arg_cong, of m_inverted])
  moreover have "{i. i < 128 \<and> CharacterSet_get i cs} = {0}" using g by auto
  ultimately show ?thesis using a g [of 0]
    by (simp add: CharacterSet_bitCount_card)
qed

end
