(* ===== verification/Yarr_Parser.thy ===== *)
theory Yarr_Parser
  imports Prelude
begin

text \<open>
  \<open>JavaScriptCore/yarr/YarrParser.h\<close>: the regular expression parser that the URL filters use. It
  reports what it reads through calls of a delegate, which never answer; the calls are the tokens of
  \<open>token\<close>, in order. The pattern from \<open>m_index\<close> on is the list \<open>y_rest\<close>, so that saving and restoring
  the state of the parser keeps and reinstates that list. Characters are UTF-16 code units.
\<close>

section \<open>Calls of the delegate\<close>

datatype BuiltInCharacterClassID = DigitClassID | SpaceClassID | WordClassID | NewlineClassID

datatype token =
  AssertionBOL
| AssertionEOL
| AssertionWordBoundary bool
| AtomPatternCharacter nat
| AtomBuiltInCharacterClass BuiltInCharacterClassID bool
| AtomCharacterClassBegin bool
| AtomCharacterClassAtom nat
| AtomCharacterClassRange nat nat
| AtomCharacterClassBuiltIn BuiltInCharacterClassID bool
| AtomCharacterClassEnd
| AtomParenthesesSubpatternBegin bool
| AtomParentheticalAssertionBegin bool
| AtomParenthesesEnd
| AtomBackReference nat
| QuantifyAtom nat nat bool
| Disjunction

datatype ErrorCode =
  NoError | PatternTooLarge | QuantifierOutOfOrder | QuantifierWithoutAtom | QuantifierTooLarge |
  MissingParentheses | ParenthesesUnmatched | ParenthesesTypeInvalid | CharacterClassUnmatched |
  CharacterClassOutOfOrder | EscapeUnterminated

text \<open>\<open>UINT_MAX\<close>.\<close>

definition quantifyInfinite :: nat where
  "quantifyInfinite = 2 ^ 32 - 1"

section \<open>Helpers on the input\<close>

definition isASCIIDigit :: "nat \<Rightarrow> bool" where
  "isASCIIDigit c \<longleftrightarrow> 48 \<le> c \<and> c \<le> 57"

definition isASCIIOctalDigit :: "nat \<Rightarrow> bool" where
  "isASCIIOctalDigit c \<longleftrightarrow> 48 \<le> c \<and> c \<le> 55"

definition toASCIILowerUnchecked :: "nat \<Rightarrow> nat" where
  "toASCIILowerUnchecked c = c OR 0x20"

definition isASCIIHexDigit :: "nat \<Rightarrow> bool" where
  "isASCIIHexDigit c \<longleftrightarrow> isASCIIDigit c \<or> (97 \<le> toASCIILowerUnchecked c \<and> toASCIILowerUnchecked c \<le> 102)"

definition isASCIIAlphanumeric :: "nat \<Rightarrow> bool" where
  "isASCIIAlphanumeric c \<longleftrightarrow> isASCIIDigit c \<or> isASCIIAlpha (int c)"

definition toASCIIHexValue :: "nat \<Rightarrow> nat" where
  "toASCIIHexValue c = (if c < 65 then c - 48 else (c - 65 + 10) AND 0xF)"

fun peekIsDigit :: "nat list \<Rightarrow> bool" where
  "peekIsDigit [] = False"
| "peekIsDigit (c # cs) = isASCIIDigit c"

fun tryConsume :: "nat \<Rightarrow> nat list \<Rightarrow> bool \<times> nat list" where
  "tryConsume ch [] = (False, [])"
| "tryConsume ch (c # cs) = (if c = ch then (True, cs) else (False, c # cs))"

text \<open>The loop of \<open>consumeNumber\<close> stops at a digit whose addition makes the 32-bit value smaller.\<close>

fun number_loop :: "nat \<Rightarrow> nat list \<Rightarrow> nat \<times> nat list" where
  "number_loop n [] = (n, [])"
| "number_loop n (c # cs) =
     (let newValue = u32 (n * 10 + (c - 48)) in
      if isASCIIDigit c \<and> n \<le> newValue then number_loop newValue cs else (n, c # cs))"

fun consumeNumber :: "nat list \<Rightarrow> nat \<times> nat list" where
  "consumeNumber (c # cs) = number_loop (c - 48) cs"
| "consumeNumber [] = (0, [])"

fun octal_loop :: "nat \<Rightarrow> nat list \<Rightarrow> nat \<times> nat list" where
  "octal_loop n [] = (n, [])"
| "octal_loop n (c # cs) =
     (if n < 32 \<and> isASCIIOctalDigit c then octal_loop (n * 8 + (c - 48)) cs else (n, c # cs))"

fun consumeOctal :: "nat list \<Rightarrow> nat \<times> nat list" where
  "consumeOctal (c # cs) = octal_loop (c - 48) cs"
| "consumeOctal [] = (0, [])"

fun hex_loop :: "nat \<Rightarrow> nat \<Rightarrow> nat list \<Rightarrow> (nat \<times> nat list) option" where
  "hex_loop count n [] = (if count = 0 then Some (n, []) else None)"
| "hex_loop count n (c # cs) =
     (if count = 0 then Some (n, c # cs)
      else if isASCIIHexDigit c then hex_loop (count - 1) (push_bit 4 n OR toASCIIHexValue c) cs
      else None)"

definition tryConsumeHex :: "nat \<Rightarrow> nat list \<Rightarrow> (nat \<times> nat list) option" where
  "tryConsumeHex count cs = hex_loop count 0 cs"

section \<open>Escapes\<close>

text \<open>The one call that \<open>parseEscape\<close> makes on the delegate it is given.\<close>

datatype escape =
  EscapeCharacter nat
| EscapeBuiltIn BuiltInCharacterClassID bool
| EscapeWordBoundary bool
| EscapeBackReference nat

definition hex_escape :: "nat \<Rightarrow> nat \<Rightarrow> nat list \<Rightarrow> escape \<times> nat list" where
  "hex_escape letter count cs =
     (case tryConsumeHex count cs of
        None \<Rightarrow> (EscapeCharacter letter, cs)
      | Some (x, cs') \<Rightarrow> (EscapeCharacter x, cs'))"

text \<open>\<open>control & 0x1f\<close>; the letter is restored when it is not followed by a control letter.\<close>

definition control_escape :: "bool \<Rightarrow> nat list \<Rightarrow> escape \<times> nat list" where
  "control_escape inCharacterClass cs =
     (case cs of
        control # cs' \<Rightarrow>
          if (if inCharacterClass then isASCIIAlphanumeric control \<or> control = 95 else isASCIIAlpha (int control))
          then (EscapeCharacter (control AND 0x1f), cs')
          else (EscapeCharacter 92, 99 # cs)
      | [] \<Rightarrow> (EscapeCharacter 92, 99 # cs))"

definition decimal_escape :: "bool \<Rightarrow> nat \<Rightarrow> nat list \<Rightarrow> escape \<times> nat list" where
  "decimal_escape inCharacterClass backReferenceLimit cs =
     (let (backReference, cs') = consumeNumber cs in
      if \<not> inCharacterClass \<and> backReference \<le> backReferenceLimit
      then (EscapeBackReference backReference, cs')
      else if 56 \<le> hd cs then (EscapeCharacter 92, cs)
      else let (n, cs'') = consumeOctal cs in (EscapeCharacter n, cs''))"

text \<open>The escape after the backslash; \<open>cs\<close> starts with the character that is peeked at.\<close>

definition parseEscape :: "bool \<Rightarrow> nat \<Rightarrow> nat \<Rightarrow> nat list \<Rightarrow> escape \<times> nat list" where
  "parseEscape inCharacterClass backReferenceLimit c cs =
     (if c = 98 then (if inCharacterClass then EscapeCharacter 8 else EscapeWordBoundary False, cs)
      else if c = 66 then (if inCharacterClass then EscapeCharacter 66 else EscapeWordBoundary True, cs)
      else if c = 100 then (EscapeBuiltIn DigitClassID False, cs)
      else if c = 115 then (EscapeBuiltIn SpaceClassID False, cs)
      else if c = 119 then (EscapeBuiltIn WordClassID False, cs)
      else if c = 68 then (EscapeBuiltIn DigitClassID True, cs)
      else if c = 83 then (EscapeBuiltIn SpaceClassID True, cs)
      else if c = 87 then (EscapeBuiltIn WordClassID True, cs)
      else if 49 \<le> c \<and> c \<le> 57 then decimal_escape inCharacterClass backReferenceLimit (c # cs)
      else if c = 48 then (let (n, cs') = consumeOctal (c # cs) in (EscapeCharacter n, cs'))
      else if c = 102 then (EscapeCharacter 12, cs)
      else if c = 110 then (EscapeCharacter 10, cs)
      else if c = 114 then (EscapeCharacter 13, cs)
      else if c = 116 then (EscapeCharacter 9, cs)
      else if c = 118 then (EscapeCharacter 11, cs)
      else if c = 99 then control_escape inCharacterClass cs
      else if c = 120 then hex_escape 120 2 cs
      else if c = 117 then hex_escape 117 4 cs
      else (EscapeCharacter c, cs))"

section \<open>Character classes\<close>

datatype ClassState =
  ClassEmpty | CachedCharacter | CachedCharacterHyphen | AfterCharacterClass | AfterCharacterClassHyphen

record ClassDelegate =
  cc_state :: ClassState
  cc_character :: nat

definition ClassDelegate_new :: ClassDelegate where
  "ClassDelegate_new = \<lparr>cc_state = ClassEmpty, cc_character = 0\<rparr>"

text \<open>The tokens for the delegate of the parser, the error set, and the new state.\<close>

definition cc_atomPatternCharacter ::
  "nat \<Rightarrow> bool \<Rightarrow> ClassDelegate \<Rightarrow> token list \<times> ErrorCode \<times> ClassDelegate" where
  "cc_atomPatternCharacter ch hyphenIsRange d =
     (let cache = ([], NoError, \<lparr>cc_state = CachedCharacter, cc_character = ch\<rparr>) in
      case cc_state d of
        AfterCharacterClass \<Rightarrow>
          if hyphenIsRange \<and> ch = 45
          then ([AtomCharacterClassAtom 45], NoError, d\<lparr>cc_state := AfterCharacterClassHyphen\<rparr>)
          else cache
      | ClassEmpty \<Rightarrow> cache
      | CachedCharacter \<Rightarrow>
          if hyphenIsRange \<and> ch = 45 then ([], NoError, d\<lparr>cc_state := CachedCharacterHyphen\<rparr>)
          else ([AtomCharacterClassAtom (cc_character d)], NoError, d\<lparr>cc_character := ch\<rparr>)
      | CachedCharacterHyphen \<Rightarrow>
          if ch < cc_character d then ([], CharacterClassOutOfOrder, d)
          else ([AtomCharacterClassRange (cc_character d) ch], NoError, d\<lparr>cc_state := ClassEmpty\<rparr>)
      | AfterCharacterClassHyphen \<Rightarrow>
          ([AtomCharacterClassAtom ch], NoError, d\<lparr>cc_state := ClassEmpty\<rparr>))"

definition cc_atomBuiltInCharacterClass ::
  "BuiltInCharacterClassID \<Rightarrow> bool \<Rightarrow> ClassDelegate \<Rightarrow> token list \<times> ErrorCode \<times> ClassDelegate" where
  "cc_atomBuiltInCharacterClass classID invert d =
     (case cc_state d of
        CachedCharacter \<Rightarrow>
          ([AtomCharacterClassAtom (cc_character d), AtomCharacterClassBuiltIn classID invert], NoError,
           d\<lparr>cc_state := AfterCharacterClass\<rparr>)
      | ClassEmpty \<Rightarrow> ([AtomCharacterClassBuiltIn classID invert], NoError, d\<lparr>cc_state := AfterCharacterClass\<rparr>)
      | AfterCharacterClass \<Rightarrow> ([AtomCharacterClassBuiltIn classID invert], NoError, d\<lparr>cc_state := AfterCharacterClass\<rparr>)
      | CachedCharacterHyphen \<Rightarrow>
          ([AtomCharacterClassAtom (cc_character d), AtomCharacterClassAtom 45,
            AtomCharacterClassBuiltIn classID invert], NoError, d\<lparr>cc_state := ClassEmpty\<rparr>)
      | AfterCharacterClassHyphen \<Rightarrow>
          ([AtomCharacterClassBuiltIn classID invert], NoError, d\<lparr>cc_state := ClassEmpty\<rparr>))"

definition cc_end :: "ClassDelegate \<Rightarrow> token list" where
  "cc_end d =
     (case cc_state d of
        CachedCharacter \<Rightarrow> [AtomCharacterClassAtom (cc_character d)]
      | CachedCharacterHyphen \<Rightarrow> [AtomCharacterClassAtom (cc_character d), AtomCharacterClassAtom 45]
      | _ \<Rightarrow> []) @ [AtomCharacterClassEnd]"

text \<open>
  The call of an escape on the delegate of a class. Word boundaries and back references are not
  reached inside a class (\<open>parseEscape_in_class\<close> below).
\<close>

fun cc_escape :: "escape \<Rightarrow> ClassDelegate \<Rightarrow> token list \<times> ErrorCode \<times> ClassDelegate" where
  "cc_escape (EscapeCharacter ch) d = cc_atomPatternCharacter ch False d"
| "cc_escape (EscapeBuiltIn classID invert) d = cc_atomBuiltInCharacterClass classID invert d"
| "cc_escape _ d = ([], NoError, d)"

lemma number_loop_shorter: "length (snd (number_loop n cs)) \<le> length cs"
  by (induction n cs rule: number_loop.induct) (auto simp: Let_def le_SucI)

lemma octal_loop_shorter: "length (snd (octal_loop n cs)) \<le> length cs"
  by (induction n cs rule: octal_loop.induct) (auto simp: le_SucI)

lemma hex_loop_shorter: "hex_loop count n cs = Some (x, cs') \<Longrightarrow> length cs' \<le> length cs"
  by (induction count n cs rule: hex_loop.induct) (auto split: if_splits)

lemma parseEscape_shorter: "length (snd (parseEscape inCharacterClass limit c cs)) \<le> Suc (length cs)"
proof -
  have "length (snd (decimal_escape inCharacterClass limit (c # cs))) \<le> Suc (length cs)"
    using number_loop_shorter [of "c - 48" cs] octal_loop_shorter [of "c - 48" cs]
    by (auto simp: decimal_escape_def split: prod.split)
  moreover have "length (snd (control_escape inCharacterClass cs)) \<le> Suc (length cs)"
    by (auto simp: control_escape_def split: list.split)
  moreover have "length (snd (hex_escape l n cs)) \<le> Suc (length cs)" for l n
    by (auto simp: hex_escape_def tryConsumeHex_def dest: hex_loop_shorter split: option.split)
  moreover have "length (snd (consumeOctal (c # cs))) \<le> Suc (length cs)"
    using octal_loop_shorter [of "c - 48" cs] by simp
  ultimately show ?thesis
    unfolding parseEscape_def by (auto simp del: consumeOctal.simps split: prod.splits)
qed

definition prepend :: "token list \<Rightarrow> token list \<times> 'a \<Rightarrow> token list \<times> 'a" where
  "prepend ts r = (ts @ fst r, snd r)"

text \<open>The loop over the characters of a class.\<close>

function parse_class_loop :: "nat \<Rightarrow> ClassDelegate \<Rightarrow> nat list \<Rightarrow> token list \<times> ErrorCode \<times> nat list" where
  "parse_class_loop limit d [] = ([], CharacterClassUnmatched, [])"
| "parse_class_loop limit d (c # cs) =
     (if c = 93 then (cc_end d, NoError, cs)
      else if c = 92 then
        (case cs of
           [] \<Rightarrow> ([], EscapeUnterminated, [])
         | e # cs1 \<Rightarrow>
             (case parseEscape True limit e cs1 of (esc, cs2) \<Rightarrow>
              case cc_escape esc d of (ts, err, d1) \<Rightarrow>
                if err \<noteq> NoError then (ts, err, cs2) else prepend ts (parse_class_loop limit d1 cs2)))
      else
        (case cc_atomPatternCharacter c True d of (ts, err, d1) \<Rightarrow>
           if err \<noteq> NoError then (ts, err, cs) else prepend ts (parse_class_loop limit d1 cs)))"
  by pat_completeness auto
termination
proof (relation "measure (\<lambda>(l, d, cs). length cs)")
  fix limit :: nat and d d1 :: ClassDelegate and c e cs cs1 x y esc cs2 ts err
  assume "cs = e # cs1" "(esc, cs2) = parseEscape True limit e cs1"
  then have "length cs2 < length (c # cs)" using parseEscape_shorter [of True limit e cs1]
    by (metis le_imp_less_Suc length_Cons snd_conv)
  then show "((limit, d1, cs2), limit, d, c # cs) \<in> measure (\<lambda>(l, d, cs). length cs)" by simp
qed auto

definition parseCharacterClass :: "nat \<Rightarrow> nat list \<Rightarrow> token list \<times> ErrorCode \<times> nat list" where
  "parseCharacterClass limit cs =
     (case tryConsume 94 cs of (inverted, cs1) \<Rightarrow>
        prepend [AtomCharacterClassBegin inverted] (parse_class_loop limit ClassDelegate_new cs1))"

section \<open>Parentheses and quantifiers\<close>

text \<open>The tokens, the error, the nesting depth and the rest of the pattern.\<close>

definition parseParenthesesBegin :: "nat \<Rightarrow> nat list \<Rightarrow> token list \<times> ErrorCode \<times> nat \<times> nat list" where
  "parseParenthesesBegin depth cs =
     (case tryConsume 63 cs of
        (True, []) \<Rightarrow> ([], ParenthesesTypeInvalid, depth, [])
      | (True, c # cs1) \<Rightarrow>
          if c = 58 then ([AtomParenthesesSubpatternBegin False], NoError, depth + 1, cs1)
          else if c = 61 then ([AtomParentheticalAssertionBegin False], NoError, depth + 1, cs1)
          else if c = 33 then ([AtomParentheticalAssertionBegin True], NoError, depth + 1, cs1)
          else ([], ParenthesesTypeInvalid, depth + 1, cs1)
      | (False, cs1) \<Rightarrow> ([AtomParenthesesSubpatternBegin True], NoError, depth + 1, cs1))"

text \<open>The decrement of the unsigned depth wraps when the parentheses do not match.\<close>

definition parseParenthesesEnd :: "nat \<Rightarrow> token list \<times> ErrorCode \<times> nat" where
  "parseParenthesesEnd depth =
     (if 0 < depth then ([AtomParenthesesEnd], NoError, depth - 1)
      else ([], ParenthesesUnmatched, 2 ^ 32 - 1))"

definition parseQuantifier :: "bool \<Rightarrow> nat \<Rightarrow> nat \<Rightarrow> nat list \<Rightarrow> token list \<times> ErrorCode \<times> nat list" where
  "parseQuantifier lastTokenWasAnAtom minimum maximum cs =
     (if minimum = 2 ^ 32 - 1 then ([], QuantifierTooLarge, cs)
      else if lastTokenWasAnAtom then
        (case tryConsume 63 cs of (lazy, cs1) \<Rightarrow> ([QuantifyAtom minimum maximum (\<not> lazy)], NoError, cs1))
      else ([], QuantifierWithoutAtom, cs))"

text \<open>A complete quantifier in braces, after the opening brace.\<close>

definition parse_braces :: "nat list \<Rightarrow> (nat \<times> nat \<times> nat list) option" where
  "parse_braces cs =
     (if peekIsDigit cs then
        (case consumeNumber cs of (minimum, cs1) \<Rightarrow>
         case tryConsume 44 cs1 of (comma, cs2) \<Rightarrow>
         case (if comma then (if peekIsDigit cs2 then consumeNumber cs2 else (quantifyInfinite, cs2))
               else (minimum, cs2)) of (maximum, cs3) \<Rightarrow>
         case tryConsume 125 cs3 of (closed, cs4) \<Rightarrow>
           if closed then Some (minimum, maximum, cs4) else None)
      else None)"

section \<open>Tokens of the pattern\<close>

fun atom_escape :: "escape \<Rightarrow> token" where
  "atom_escape (EscapeCharacter ch) = AtomPatternCharacter ch"
| "atom_escape (EscapeBuiltIn classID invert) = AtomBuiltInCharacterClass classID invert"
| "atom_escape (EscapeWordBoundary invert) = AssertionWordBoundary invert"
| "atom_escape (EscapeBackReference n) = AtomBackReference n"

fun escape_is_atom :: "escape \<Rightarrow> bool" where
  "escape_is_atom (EscapeWordBoundary invert) = False"
| "escape_is_atom _ = True"

text \<open>
  One turn of the loop of \<open>parseTokens\<close> on the next character \<open>c\<close>: the tokens, the error, whether the
  last token was an atom, the depth and the rest.
\<close>

definition parse_token :: "nat \<Rightarrow> bool \<Rightarrow> nat \<Rightarrow> nat \<Rightarrow> nat list \<Rightarrow> token list \<times> ErrorCode \<times> bool \<times> nat \<times> nat list" where
  "parse_token limit lastTokenWasAnAtom depth c cs =
     (if c = 124 then ([Disjunction], NoError, False, depth, cs)
      else if c = 40 then
        (case parseParenthesesBegin depth cs of (ts, err, depth1, cs1) \<Rightarrow> (ts, err, False, depth1, cs1))
      else if c = 41 then
        (case parseParenthesesEnd depth of (ts, err, depth1) \<Rightarrow> (ts, err, True, depth1, cs))
      else if c = 94 then ([AssertionBOL], NoError, False, depth, cs)
      else if c = 36 then ([AssertionEOL], NoError, False, depth, cs)
      else if c = 46 then ([AtomBuiltInCharacterClass NewlineClassID True], NoError, True, depth, cs)
      else if c = 91 then
        (case parseCharacterClass limit cs of (ts, err, cs1) \<Rightarrow> (ts, err, True, depth, cs1))
      else if c = 92 then
        (case cs of
           [] \<Rightarrow> ([], EscapeUnterminated, False, depth, [])
         | e # cs1 \<Rightarrow>
             (case parseEscape False limit e cs1 of (esc, cs2) \<Rightarrow>
                ([atom_escape esc], NoError, escape_is_atom esc, depth, cs2)))
      else if c = 42 then
        (case parseQuantifier lastTokenWasAnAtom 0 quantifyInfinite cs of (ts, err, cs1) \<Rightarrow> (ts, err, False, depth, cs1))
      else if c = 43 then
        (case parseQuantifier lastTokenWasAnAtom 1 quantifyInfinite cs of (ts, err, cs1) \<Rightarrow> (ts, err, False, depth, cs1))
      else if c = 63 then
        (case parseQuantifier lastTokenWasAnAtom 0 1 cs of (ts, err, cs1) \<Rightarrow> (ts, err, False, depth, cs1))
      else
        (case (if c = 123 then parse_braces cs else None) of
           Some (minimum, maximum, cs1) \<Rightarrow>
             if minimum \<le> maximum then
               (case parseQuantifier lastTokenWasAnAtom minimum maximum cs1 of (ts, err, cs2) \<Rightarrow> (ts, err, False, depth, cs2))
             else ([], QuantifierOutOfOrder, False, depth, cs1)
         | None \<Rightarrow> ([AtomPatternCharacter c], NoError, True, depth, cs)))"

lemma tryConsume_shorter: "length (snd (tryConsume ch cs)) \<le> length cs"
  by (cases cs) auto

lemma consumeNumber_shorter: "length (snd (consumeNumber cs)) \<le> length cs"
  by (cases cs) (simp_all add: le_SucI [OF number_loop_shorter])

lemma parse_class_loop_shorter: "length (snd (snd (parse_class_loop limit d cs))) \<le> length cs"
proof (induction limit d cs rule: parse_class_loop.induct)
  case (2 limit d c cs)
  show ?case
  proof (cases "c = 92 \<and> c \<noteq> 93")
    case True
    show ?thesis
    proof (cases cs)
      case (Cons e cs1)
      obtain esc cs2 where p: "parseEscape True limit e cs1 = (esc, cs2)" by (cases "parseEscape True limit e cs1")
      obtain ts err d1 where q: "cc_escape esc d = (ts, err, d1)" by (cases "cc_escape esc d")
      have "length cs2 \<le> Suc (length cs1)" using parseEscape_shorter [of True limit e cs1] p by simp
      moreover have "err = NoError \<Longrightarrow> length (snd (snd (parse_class_loop limit d1 cs2))) \<le> length cs2"
        using 2(1) True Cons p q by auto
      ultimately show ?thesis using True Cons p q by (auto simp: prepend_def)
    qed (use True in simp)
  next
    case False
    obtain ts err d1 where q: "cc_atomPatternCharacter c True d = (ts, err, d1)"
      by (cases "cc_atomPatternCharacter c True d")
    have "c \<noteq> 93 \<Longrightarrow> err = NoError \<Longrightarrow> length (snd (snd (parse_class_loop limit d1 cs))) \<le> length cs"
      using 2(2) False q by auto
    then show ?thesis using False q by (auto simp: prepend_def le_SucI)
  qed
qed simp

lemma parse_braces_shorter: "parse_braces cs = Some (mi, ma, cs') \<Longrightarrow> length cs' \<le> length cs"
proof -
  assume a: "parse_braces cs = Some (mi, ma, cs')"
  obtain m1 cs1 where 1: "consumeNumber cs = (m1, cs1)" by (cases "consumeNumber cs")
  obtain co cs2 where 2: "tryConsume 44 cs1 = (co, cs2)" by (cases "tryConsume 44 cs1")
  obtain m2 cs3 where 3: "(if co then (if peekIsDigit cs2 then consumeNumber cs2 else (quantifyInfinite, cs2)) else (m1, cs2)) = (m2, cs3)"
    by (cases "(if co then (if peekIsDigit cs2 then consumeNumber cs2 else (quantifyInfinite, cs2)) else (m1, cs2))")
  obtain cl cs4 where 4: "tryConsume 125 cs3 = (cl, cs4)" by (cases "tryConsume 125 cs3")
  have "cs' = cs4" using a 1 2 3 4 by (simp add: parse_braces_def split: if_splits)
  moreover have "length cs1 \<le> length cs" "length cs2 \<le> length cs1" "length cs4 \<le> length cs3"
    using consumeNumber_shorter [of cs] tryConsume_shorter [of 44 cs1] tryConsume_shorter [of 125 cs3] 1 2 4 by simp_all
  moreover have "length cs3 \<le> length cs2" using 3 consumeNumber_shorter [of cs2] by (auto split: if_splits)
  ultimately show ?thesis by simp
qed

lemma parseQuantifier_shorter: "length (snd (snd (parseQuantifier l mi ma cs))) \<le> length cs"
  using tryConsume_shorter [of 63 cs] by (auto simp: parseQuantifier_def split: prod.split)

lemma parse_token_shorter:
  "length (snd (snd (snd (snd (parse_token limit l depth c cs))))) \<le> length cs"
proof -
  have 1: "length (snd (snd (snd (parseParenthesesBegin depth cs)))) \<le> length cs"
    using tryConsume_shorter [of 63 cs]
    by (auto simp: parseParenthesesBegin_def split: prod.split bool.split list.split)
  have 2: "length (snd (snd (parseCharacterClass limit cs))) \<le> length cs"
    using tryConsume_shorter [of 94 cs] le_trans [OF parse_class_loop_shorter]
    by (auto simp: parseCharacterClass_def prepend_def split: prod.split)
  have 3: "length (snd (parseEscape False limit e cs1)) \<le> length cs" if "cs = e # cs1" for e cs1
    using parseEscape_shorter [of False limit e cs1] that by simp
  have 4: "length (snd (snd (parseQuantifier l mi ma cs1))) \<le> length cs" if "length cs1 \<le> length cs" for mi ma cs1
    using parseQuantifier_shorter [of l mi ma cs1] that by simp
  have 5: "length (snd (snd (snd (snd (case (if c = 123 then parse_braces cs else None) of
           Some (mi, ma, cs1) \<Rightarrow>
             if mi \<le> ma then
               (case parseQuantifier l mi ma cs1 of (ts, err, cs2) \<Rightarrow> (ts, err, False, depth, cs2))
             else ([], QuantifierOutOfOrder, False, depth, cs1)
         | None \<Rightarrow> ([AtomPatternCharacter c], NoError, True, depth, cs)))))) \<le> length cs"
  proof (cases "if c = 123 then parse_braces cs else None")
    case (Some q)
    then have "length (snd (snd q)) \<le> length cs" using parse_braces_shorter [of cs] by (cases q) (auto split: if_splits)
    then show ?thesis using 4 Some by (cases q) (simp add: case_prod_unfold)
  qed simp
  have 6: "length (snd (snd (snd (snd (case cs of
           [] \<Rightarrow> ([], EscapeUnterminated, False, depth, [])
         | e # cs1 \<Rightarrow>
             (case parseEscape False limit e cs1 of (esc, cs2) \<Rightarrow>
                ([atom_escape esc], NoError, escape_is_atom esc, depth, cs2))))))) \<le> length cs"
    using 3 by (cases cs) (simp_all add: case_prod_unfold)
  show ?thesis
    unfolding parse_token_def using 1 2 4 [of cs] 5 6 by (simp add: case_prod_unfold)
qed

function parse_tokens :: "nat \<Rightarrow> bool \<Rightarrow> nat \<Rightarrow> nat list \<Rightarrow> token list \<times> ErrorCode" where
  "parse_tokens limit lastTokenWasAnAtom depth [] =
     ([], if 0 < depth then MissingParentheses else NoError)"
| "parse_tokens limit lastTokenWasAnAtom depth (c # cs) =
     (case parse_token limit lastTokenWasAnAtom depth c cs of (ts, err, atom, depth1, cs1) \<Rightarrow>
        if err \<noteq> NoError then (ts, err) else prepend ts (parse_tokens limit atom depth1 cs1))"
  by pat_completeness auto
termination
proof (relation "measure (\<lambda>(l, a, d, cs). length cs)", goal_cases)
  case (2 limit l depth c cs ts x1 err x2 atom x3 depth1 cs1)
  then have "snd (snd (snd (snd (parse_token limit l depth c cs)))) = cs1" by (metis snd_conv)
  then show ?case using parse_token_shorter [of limit l depth c cs] by simp
qed simp

definition MAX_PATTERN_SIZE :: nat where
  "MAX_PATTERN_SIZE = 1024 * 1024"

definition Yarr_parse :: "nat \<Rightarrow> nat list \<Rightarrow> token list \<times> ErrorCode" where
  "Yarr_parse backReferenceLimit pattern =
     (if MAX_PATTERN_SIZE < length pattern then ([], PatternTooLarge)
      else parse_tokens backReferenceLimit False 0 pattern)"

definition REGEXP_ERROR_PREFIX :: string where
  "REGEXP_ERROR_PREFIX = ''Invalid regular expression: ''"

fun errorMessages :: "ErrorCode \<Rightarrow> string option" where
  "errorMessages NoError = None"
| "errorMessages PatternTooLarge = Some (REGEXP_ERROR_PREFIX @ ''regular expression too large'')"
| "errorMessages QuantifierOutOfOrder = Some (REGEXP_ERROR_PREFIX @ ''numbers out of order in {} quantifier'')"
| "errorMessages QuantifierWithoutAtom = Some (REGEXP_ERROR_PREFIX @ ''nothing to repeat'')"
| "errorMessages QuantifierTooLarge = Some (REGEXP_ERROR_PREFIX @ ''number too large in {} quantifier'')"
| "errorMessages MissingParentheses = Some (REGEXP_ERROR_PREFIX @ ''missing )'')"
| "errorMessages ParenthesesUnmatched = Some (REGEXP_ERROR_PREFIX @ ''unmatched parentheses'')"
| "errorMessages ParenthesesTypeInvalid = Some (REGEXP_ERROR_PREFIX @ ''unrecognized character after (?'')"
| "errorMessages CharacterClassUnmatched = Some (REGEXP_ERROR_PREFIX @ ''missing terminating ] for character class'')"
| "errorMessages CharacterClassOutOfOrder = Some (REGEXP_ERROR_PREFIX @ ''range out of order in character class'')"
| "errorMessages EscapeUnterminated = Some (REGEXP_ERROR_PREFIX @ [CHR 92] @ '' at end of pattern'')"

section \<open>The protocol of the delegate\<close>

text \<open>
  What the comment before \<open>Yarr::parse\<close> promises to a delegate: the calls inside a class stand between
  its begin and its end, parentheses nest, a quantifier follows an atom and has its bounds in order, and
  so have the ranges of a class.
\<close>

record Protocol =
  in_class :: bool
  open_parentheses :: nat
  after_atom :: bool

definition protocol_start :: Protocol where
  "protocol_start = \<lparr>in_class = False, open_parentheses = 0, after_atom = False\<rparr>"

fun class_token :: "token \<Rightarrow> bool" where
  "class_token (AtomCharacterClassAtom c) = True"
| "class_token (AtomCharacterClassRange a b) = (a \<le> b)"
| "class_token (AtomCharacterClassBuiltIn classID invert) = True"
| "class_token _ = False"

fun protocol_step :: "token \<Rightarrow> Protocol \<Rightarrow> Protocol option" where
  "protocol_step t s =
     (if in_class s then
        (if t = AtomCharacterClassEnd then Some (s\<lparr>in_class := False, after_atom := True\<rparr>)
         else if class_token t then Some s else None)
      else
        (case t of
           AtomCharacterClassBegin invert \<Rightarrow> Some (s\<lparr>in_class := True\<rparr>)
         | AtomPatternCharacter c \<Rightarrow> Some (s\<lparr>after_atom := True\<rparr>)
         | AtomBuiltInCharacterClass classID invert \<Rightarrow> Some (s\<lparr>after_atom := True\<rparr>)
         | AtomBackReference n \<Rightarrow> Some (s\<lparr>after_atom := True\<rparr>)
         | AtomParenthesesSubpatternBegin b \<Rightarrow> Some (s\<lparr>open_parentheses := open_parentheses s + 1, after_atom := False\<rparr>)
         | AtomParentheticalAssertionBegin b \<Rightarrow> Some (s\<lparr>open_parentheses := open_parentheses s + 1, after_atom := False\<rparr>)
         | AtomParenthesesEnd \<Rightarrow>
             (if 0 < open_parentheses s then Some (s\<lparr>open_parentheses := open_parentheses s - 1, after_atom := True\<rparr>) else None)
         | QuantifyAtom minimum maximum greedy \<Rightarrow>
             (if after_atom s \<and> minimum \<le> maximum \<and> minimum < quantifyInfinite then Some (s\<lparr>after_atom := False\<rparr>) else None)
         | AssertionBOL \<Rightarrow> Some (s\<lparr>after_atom := False\<rparr>)
         | AssertionEOL \<Rightarrow> Some (s\<lparr>after_atom := False\<rparr>)
         | AssertionWordBoundary invert \<Rightarrow> Some (s\<lparr>after_atom := False\<rparr>)
         | Disjunction \<Rightarrow> Some (s\<lparr>after_atom := False\<rparr>)
         | _ \<Rightarrow> None))"

fun protocol_run :: "token list \<Rightarrow> Protocol \<Rightarrow> Protocol option" where
  "protocol_run [] s = Some s"
| "protocol_run (t # ts) s = Option.bind (protocol_step t s) (protocol_run ts)"

lemma protocol_run_append: "protocol_run (ts @ us) s = Option.bind (protocol_run ts s) (protocol_run us)"
  by (induction ts arbitrary: s) (auto split: Option.bind_split)

lemma class_tokens_run:
  "in_class s \<Longrightarrow> \<forall>t \<in> set ts. class_token t \<Longrightarrow> protocol_run ts s = Some s"
  by (induction ts) auto

lemma parseEscape_in_class:
  "fst (parseEscape True limit c cs) \<noteq> EscapeWordBoundary b" "fst (parseEscape True limit c cs) \<noteq> EscapeBackReference n"
  by (auto simp: parseEscape_def decimal_escape_def control_escape_def hex_escape_def
      split: prod.splits list.split option.split)

lemma cc_tokens:
  "cc_atomPatternCharacter ch h d = (ts, err, d') \<Longrightarrow> \<forall>t \<in> set ts. class_token t"
  "cc_atomBuiltInCharacterClass i v d = (ts, err, d') \<Longrightarrow> \<forall>t \<in> set ts. class_token t"
  by (auto simp: cc_atomPatternCharacter_def cc_atomBuiltInCharacterClass_def Let_def
      split: ClassState.splits if_splits)

lemma cc_escape_tokens: "cc_escape e d = (ts, err, d') \<Longrightarrow> \<forall>t \<in> set ts. class_token t"
  by (cases e) (auto dest: cc_tokens)

lemma cc_end_run: "in_class s \<Longrightarrow> protocol_run (cc_end d) s = Some (s\<lparr>in_class := False, after_atom := True\<rparr>)"
  by (simp add: cc_end_def split: ClassState.split)

lemma parse_class_loop_run:
  "parse_class_loop limit d cs = (ts, err, cs') \<Longrightarrow> in_class s \<Longrightarrow>
   \<exists>s'. protocol_run ts s = Some s' \<and> (err = NoError \<longrightarrow> s' = s\<lparr>in_class := False, after_atom := True\<rparr>)"
proof (induction limit d cs arbitrary: ts rule: parse_class_loop.induct)
  case (2 limit d c cs)
  have join: "\<exists>s'. protocol_run ts s = Some s' \<and> (err = NoError \<longrightarrow> s' = s\<lparr>in_class := False, after_atom := True\<rparr>)"
    if "\<forall>t \<in> set us. class_token t" "ts = us @ vs"
      "\<exists>s'. protocol_run vs s = Some s' \<and> (err = NoError \<longrightarrow> s' = s\<lparr>in_class := False, after_atom := True\<rparr>)" for us vs
    using that class_tokens_run [OF 2(4) that(1)] by (simp add: protocol_run_append)
  have stop: "\<exists>s'. protocol_run ts s = Some s' \<and> (err = NoError \<longrightarrow> s' = s\<lparr>in_class := False, after_atom := True\<rparr>)"
    if "\<forall>t \<in> set ts. class_token t" "err \<noteq> NoError"
    using that class_tokens_run [OF 2(4) that(1)] by simp
  consider "c = 93" | "c = 92" "cs = []" | e cs1 where "c = 92" "cs = e # cs1" | "c \<noteq> 92" "c \<noteq> 93"
    by (cases cs) auto
  then show ?case
  proof cases
    case 1
    then show ?thesis using 2(3,4) cc_end_run by auto
  next
    case 2
    then show ?thesis using \<open>parse_class_loop limit d (c # cs) = (ts, err, cs')\<close> by auto
  next
    case h: (3 e cs1)
    obtain esc cs2 where p: "parseEscape True limit e cs1 = (esc, cs2)" by (cases "parseEscape True limit e cs1")
    obtain us er d1 where q: "cc_escape esc d = (us, er, d1)" by (cases "cc_escape esc d")
    note us = cc_escape_tokens [OF q]
    show ?thesis
    proof (cases "er = NoError")
      case True
      obtain vs where "parse_class_loop limit d1 cs2 = (vs, err, cs')" "ts = us @ vs"
        using 2(3) h p q True by (auto simp: prepend_def prod_eq_iff)
      then show ?thesis using join [OF us] 2(1) [of e cs1 esc cs2 us "(er, d1)" er d1] h p q True 2(4) by auto
    next
      case False
      then show ?thesis using stop us 2(3) h p q by auto
    qed
  next
    case h: 4
    obtain us er d1 where q: "cc_atomPatternCharacter c True d = (us, er, d1)"
      by (cases "cc_atomPatternCharacter c True d")
    note us = cc_tokens(1) [OF q]
    show ?thesis
    proof (cases "er = NoError")
      case True
      obtain vs where "parse_class_loop limit d1 cs = (vs, err, cs')" "ts = us @ vs"
        using 2(3) h q True by (auto simp: prepend_def prod_eq_iff)
      then show ?thesis using join [OF us] 2(2) [of us "(er, d1)" er d1] h q True 2(4) by auto
    next
      case False
      then show ?thesis using stop us 2(3) h q by auto
    qed
  qed
qed auto

lemma number_loop_bound: "n < 2 ^ 32 \<Longrightarrow> fst (number_loop n cs) < 2 ^ 32"
  by (induction n cs rule: number_loop.induct) (auto simp: Let_def u32_def)

lemma consumeNumber_bound: "peekIsDigit cs \<Longrightarrow> fst (consumeNumber cs) < 2 ^ 32"
  using number_loop_bound [of "hd cs - 48" "tl cs"] by (cases cs) (auto simp: isASCIIDigit_def)

lemma parse_braces_bound: "parse_braces cs = Some (mi, ma, cs') \<Longrightarrow> mi \<le> quantifyInfinite"
  using consumeNumber_bound [of cs]
  by (auto simp: parse_braces_def quantifyInfinite_def split: if_splits prod.splits)

definition outside :: "nat \<Rightarrow> bool \<Rightarrow> Protocol" where
  "outside depth atom = \<lparr>in_class = False, open_parentheses = depth, after_atom = atom\<rparr>"

lemma parseQuantifier_run:
  "parseQuantifier l mi ma cs = (ts, err, cs') \<Longrightarrow> mi \<le> ma \<Longrightarrow> mi \<le> quantifyInfinite \<Longrightarrow>
   \<exists>s'. protocol_run ts (outside depth l) = Some s' \<and> (err = NoError \<longrightarrow> s' = outside depth False)"
  by (auto simp: parseQuantifier_def outside_def quantifyInfinite_def split: if_splits prod.splits)

lemma parseParenthesesBegin_run:
  "parseParenthesesBegin depth cs = (ts, err, depth1, cs') \<Longrightarrow>
   \<exists>s'. protocol_run ts (outside depth l) = Some s' \<and> (err = NoError \<longrightarrow> s' = outside depth1 False)"
  by (auto simp: parseParenthesesBegin_def outside_def split: if_splits prod.splits list.splits bool.splits)

lemma parseCharacterClass_run:
  assumes "parseCharacterClass limit cs = (ts, err, cs')"
  shows "\<exists>s'. protocol_run ts (outside depth l) = Some s' \<and> (err = NoError \<longrightarrow> s' = outside depth True)"
proof -
  obtain v cs1 where v: "tryConsume 94 cs = (v, cs1)" by (cases "tryConsume 94 cs")
  obtain us where us: "parse_class_loop limit ClassDelegate_new cs1 = (us, err, cs')"
    "ts = AtomCharacterClassBegin v # us"
    using assms v by (auto simp: parseCharacterClass_def prepend_def prod_eq_iff)
  show ?thesis
    using parse_class_loop_run [OF us(1), of "(outside depth l)\<lparr>in_class := True\<rparr>"] us(2) by (auto simp: outside_def)
qed

lemma parse_token_run:
  assumes "parse_token limit l depth c cs = (ts, err, atom, depth1, cs1)"
  shows "\<exists>s'. protocol_run ts (outside depth l) = Some s' \<and> (err = NoError \<longrightarrow> s' = outside depth1 atom)"
proof -
  have esc: "protocol_run [atom_escape e] (outside depth l) = Some (outside depth (escape_is_atom e))" for e
    by (cases e) (simp_all add: outside_def)
  have brace: "\<exists>s'. protocol_run ts (outside depth l) = Some s' \<and> (err = NoError \<longrightarrow> s' = outside depth1 atom)"
    if "(case q of
           Some (mi, ma, cs1) \<Rightarrow>
             if mi \<le> ma then (case parseQuantifier l mi ma cs1 of (ts, err, cs2) \<Rightarrow> (ts, err, False, depth, cs2))
             else ([], QuantifierOutOfOrder, False, depth, cs1)
         | None \<Rightarrow> ([AtomPatternCharacter c], NoError, True, depth, cs)) = (ts, err, atom, depth1, cs1)"
      "q = None \<or> q = parse_braces cs" for q
  proof (cases q)
    case None
    then show ?thesis using that by (auto simp: outside_def)
  next
    case (Some x)
    obtain mi ma cs2 where x: "x = (mi, ma, cs2)" by (cases x)
    then have "mi \<le> quantifyInfinite" using that(2) Some parse_braces_bound [of cs mi ma cs2] by simp
    then show ?thesis using that(1) Some x parseQuantifier_run [of l mi ma cs2 ts err _ depth]
      by (auto split: prod.splits if_splits)
  qed
  have one: "1 \<le> quantifyInfinite" by (simp add: quantifyInfinite_def)
  show ?thesis
    using assms unfolding parse_token_def
    apply (simp only: split: if_split_asm)
    subgoal by (auto simp: outside_def)
    subgoal using parseParenthesesBegin_run [of depth cs ts err depth1 _ l] by (auto split: prod.splits)
    subgoal by (auto simp: parseParenthesesEnd_def outside_def split: if_splits)
    subgoal by (auto simp: outside_def)
    subgoal by (auto simp: outside_def)
    subgoal by (auto simp: outside_def)
    subgoal using parseCharacterClass_run [of limit cs ts err _ depth l] by (auto split: prod.splits)
    subgoal using esc by (auto split: prod.splits list.splits)
    subgoal using parseQuantifier_run [of l 0 quantifyInfinite cs ts err _ depth] by (auto split: prod.splits)
    subgoal using parseQuantifier_run [of l 1 quantifyInfinite cs ts err _ depth] one by (auto split: prod.splits)
    subgoal using parseQuantifier_run [of l 0 1 cs ts err _ depth] by (auto split: prod.splits)
    subgoal using brace [of "parse_braces cs"] by blast
    subgoal using brace [of None] by simp
    done
qed

lemma parse_tokens_run:
  "parse_tokens limit l depth cs = (ts, err) \<Longrightarrow>
   \<exists>s'. protocol_run ts (outside depth l) = Some s' \<and> (err = NoError \<longrightarrow> \<not> in_class s' \<and> open_parentheses s' = 0)"
proof (induction limit l depth cs arbitrary: ts rule: parse_tokens.induct)
  case (2 limit l depth c cs)
  obtain us er atom depth1 cs1 where p: "parse_token limit l depth c cs = (us, er, atom, depth1, cs1)"
    by (cases "parse_token limit l depth c cs")
  note r = parse_token_run [OF p]
  show ?case
  proof (cases "er = NoError")
    case True
    obtain vs where v: "parse_tokens limit atom depth1 cs1 = (vs, err)" "ts = us @ vs"
      using 2(2) p True by (auto simp: prepend_def prod_eq_iff)
    show ?thesis using 2(1) [OF p [symmetric] refl refl refl _ v(1)] True r v(2) by (auto simp: protocol_run_append)
  qed (use 2(2) p r in auto)
qed (auto simp: outside_def split: if_splits)

section \<open>Properties\<close>

text \<open>
  C14. Whatever the pattern, the calls that \<open>Yarr::parse\<close> makes obey the protocol of the delegate; after
  a parse without error every class and every group is closed.
\<close>

theorem yarr_calls_obey_protocol:
  assumes "Yarr_parse backReferenceLimit pattern = (ts, err)"
  shows "\<exists>s. protocol_run ts protocol_start = Some s \<and>
    (err = NoError \<longrightarrow> \<not> in_class s \<and> open_parentheses s = 0)"
proof (cases "MAX_PATTERN_SIZE < length pattern")
  case False
  then show ?thesis using parse_tokens_run [of backReferenceLimit False 0 pattern ts err] assms
    by (simp add: Yarr_parse_def outside_def protocol_start_def)
qed (use assms in \<open>auto simp: Yarr_parse_def\<close>)

text \<open>The pattern \<open>^(?:a[^b-d\x2e]+)?$\<close>.\<close>

definition example_pattern :: "nat list" where
  "example_pattern = [94, 40, 63, 58, 97, 91, 94, 98, 45, 100, 92, 120, 50, 101, 93, 43, 41, 63, 36]"

theorem yarr_calls_obey_protocol_witness:
  "\<exists>ts s. Yarr_parse 0 example_pattern = (ts, NoError) \<and> 9 \<le> length ts \<and>
     protocol_run ts protocol_start = Some s \<and> \<not> in_class s \<and> open_parentheses s = 0"
proof -
  define ts where "ts = [AssertionBOL, AtomParenthesesSubpatternBegin False, AtomPatternCharacter 97,
    AtomCharacterClassBegin True, AtomCharacterClassRange 98 100, AtomCharacterClassAtom 46, AtomCharacterClassEnd,
    QuantifyAtom 1 quantifyInfinite True, AtomParenthesesEnd, QuantifyAtom 0 1 True, AssertionEOL]"
  have p: "Yarr_parse 0 example_pattern = (ts, NoError)" unfolding ts_def by code_simp
  show ?thesis using yarr_calls_obey_protocol [OF p] p by (auto simp: ts_def)
qed

text \<open>
  The decimal digits of a number.
\<close>

fun decimal :: "nat \<Rightarrow> nat list" where
  "decimal n = (if n < 10 then [48 + n] else decimal (n div 10) @ [48 + n mod 10])"

declare decimal.simps [simp del]

lemma number_loop_decimal:
  "n < 2 ^ 32 \<Longrightarrow> \<exists>d ds. decimal n = d # ds \<and> isASCIIDigit d \<and> 
     (\<forall>rest. number_loop (d - 48) (ds @ rest) = number_loop n rest)"
proof (induction n rule: decimal.induct)
  case (1 n)
  show ?case
  proof (cases "n < 10")
    case True
    then show ?thesis by (subst decimal.simps) (auto simp: isASCIIDigit_def)
  next
    case False
    then obtain d ds where d: "decimal (n div 10) = d # ds" "isASCIIDigit d"
      "\<forall>rest. number_loop (d - 48) (ds @ rest) = number_loop (n div 10) rest"
      using 1 by fastforce
    have "n div 10 * 10 + n mod 10 = n" by simp
    then have "u32 (n div 10 * 10 + (48 + n mod 10 - 48)) = n" using 1(2) by (simp add: u32_def)
    moreover have "n mod 10 \<le> 9" using mod_less_divisor [of 10 n] by linarith
    ultimately have "number_loop (n div 10) ((48 + n mod 10) # rest) = number_loop n rest" for rest
      by (simp add: isASCIIDigit_def)
    then show ?thesis using d False by (subst decimal.simps) simp
  qed
qed

lemma consumeNumber_decimal:
  assumes "n div 10 < 2 ^ 32" "\<not> peekIsDigit rest"
  shows "consumeNumber (decimal n @ rest) =
    (if n div 10 \<le> n mod 2 ^ 32 then (n mod 2 ^ 32, rest) else (n div 10, (48 + n mod 10) # rest))"
proof (cases "n < 10")
  case True
  then have "decimal n = [48 + n]" by (subst decimal.simps) simp
  then show ?thesis using True assms(2) by (cases rest) simp_all
next
  case False
  have dec: "decimal n = decimal (n div 10) @ [48 + n mod 10]" using False by (subst decimal.simps) simp
  obtain d ds where d: "decimal (n div 10) = d # ds"
    "\<forall>rest. number_loop (d - 48) (ds @ rest) = number_loop (n div 10) rest"
    using number_loop_decimal [OF assms(1)] by blast
  have "u32 (n div 10 * 10 + (48 + n mod 10 - 48)) = n mod 2 ^ 32" by (simp add: u32_def)
  moreover have "n mod 10 \<le> 9" using mod_less_divisor [of 10 n] by linarith
  moreover have "number_loop m rest = (m, rest)" for m using assms(2) by (cases rest) simp_all
  ultimately have "number_loop (n div 10) ((48 + n mod 10) # rest) =
      (if n div 10 \<le> n mod 2 ^ 32 then (n mod 2 ^ 32, rest) else (n div 10, (48 + n mod 10) # rest))"
    by (simp add: isASCIIDigit_def)
  then show ?thesis using d dec by simp
qed

lemma decimal_nonempty: "decimal n \<noteq> []"
  by (subst decimal.simps) simp

lemma decimal_digits: "list_all isASCIIDigit (decimal n)"
proof (induction n rule: decimal.induct)
  case (1 n)
  have "isASCIIDigit (48 + n mod 10)" by (simp add: isASCIIDigit_def)
  moreover have "isASCIIDigit (48 + n)" if "n < 10" using that by (simp add: isASCIIDigit_def)
  ultimately show ?case using 1 by (subst decimal.simps) simp
qed

lemma decimal_length: "n < 10 ^ k \<Longrightarrow> 0 < k \<Longrightarrow> length (decimal n) \<le> k"
proof (induction k arbitrary: n)
  case (Suc k)
  show ?case
  proof (cases "n < 10")
    case True
    then show ?thesis by (subst decimal.simps) simp
  next
    case False
    then have "0 < k" using Suc.prems(1) by (cases k) simp_all
    moreover have "n div 10 < 10 ^ k" using Suc.prems(1) by (simp add: div_less_iff_less_mult)
    ultimately have "length (decimal (n div 10)) \<le> k" using Suc.IH by blast
    then show ?thesis using False by (subst decimal.simps) simp
  qed
qed simp

text \<open>Digits and a closing brace that do not complete a quantifier are ordinary characters.\<close>

lemma parse_tokens_digits:
  "list_all isASCIIDigit ds \<Longrightarrow>
     parse_tokens limit a 0 (ds @ [125]) = (map AtomPatternCharacter (ds @ [125]), NoError)"
proof (induction ds arbitrary: a)
  case Nil
  show ?case by (simp add: parse_token_def prepend_def)
next
  case (Cons d ds)
  then have "parse_token limit a 0 d (ds @ [125]) = ([AtomPatternCharacter d], NoError, True, 0, ds @ [125])"
    by (simp add: parse_token_def isASCIIDigit_def)
  then show ?case using Cons by (simp add: prepend_def)
qed

lemma parse_braces_decimal:
  assumes "n div 10 < 2 ^ 32"
  shows "parse_braces (decimal n @ [125]) =
    (if n div 10 \<le> n mod 2 ^ 32 then Some (n mod 2 ^ 32, n mod 2 ^ 32, []) else None)"
proof -
  have "peekIsDigit (decimal n @ [125])" using decimal_nonempty [of n] decimal_digits [of n] by (cases "decimal n") simp_all
  moreover have "n mod 10 < 10" by simp
  ultimately show ?thesis
    using consumeNumber_decimal [OF assms, of "[125]"] by (simp add: parse_braces_def isASCIIDigit_def)
qed

text \<open>
  C15. \<open>consumeNumber\<close> reads back the decimal digits of every 32-bit number and stops at the first
  character that is not a digit.
\<close>

theorem number_round_trip:
  assumes "n < 2 ^ 32" "\<not> peekIsDigit rest"
  shows "consumeNumber (decimal n @ rest) = (n, rest)"
proof -
  obtain d ds where d: "decimal n = d # ds" "\<forall>rest. number_loop (d - 48) (ds @ rest) = number_loop n rest"
    using number_loop_decimal [OF assms(1)] by blast
  moreover have "number_loop n rest = (n, rest)" using assms(2) by (cases rest) simp_all
  ultimately show ?thesis by simp
qed

theorem number_round_trip_witness:
  "consumeNumber (decimal 4294967295 @ [125]) = (4294967295, [125])"
  by (rule number_round_trip) (simp_all add: isASCIIDigit_def)

text \<open>
  C16. The check for overflow in \<open>consumeNumber\<close> compares the new value with the old one, so it notices
  only some of the numbers that do not fit. The bound of \<open>a{n}\<close>, for \<open>n\<close> of up to one digit more than fits, is taken
  modulo \<open>2^32\<close> when that is not below \<open>n div 10\<close>, with no error unless it is the largest value;
  otherwise the last digit is left over and the whole quantifier is read as literal characters.
  The instance: \<open>a{5000000000}\<close> is parsed without error as 705032704 repetitions.
\<close>

theorem quantifier_bound_wraps:
  assumes "n div 10 < 2 ^ 32"
  shows "Yarr_parse backReferenceLimit ([97, 123] @ decimal n @ [125]) =
    (if n mod 2 ^ 32 < n div 10 then (map AtomPatternCharacter ([97, 123] @ decimal n @ [125]), NoError)
     else if n mod 2 ^ 32 = 2 ^ 32 - 1 then ([AtomPatternCharacter 97], QuantifierTooLarge)
     else ([AtomPatternCharacter 97, QuantifyAtom (n mod 2 ^ 32) (n mod 2 ^ 32) True], NoError))"
proof -
  have "n < 10 ^ 11" using assms by simp
  then have "length (decimal n) \<le> 11" by (rule decimal_length) simp
  then have len: "\<not> MAX_PATTERN_SIZE < length ([97, 123] @ decimal n @ [125])" by (simp add: MAX_PATTERN_SIZE_def)
  have a: "parse_token backReferenceLimit False 0 97 cs = ([AtomPatternCharacter 97], NoError, True, 0, cs)" for cs
    by (simp add: parse_token_def)
  have b: "parse_token backReferenceLimit True 0 123 (decimal n @ [125]) =
    (if n mod 2 ^ 32 < n div 10 then ([AtomPatternCharacter 123], NoError, True, 0, decimal n @ [125])
     else if n mod 2 ^ 32 = 2 ^ 32 - 1 then ([], QuantifierTooLarge, False, 0, [])
     else ([QuantifyAtom (n mod 2 ^ 32) (n mod 2 ^ 32) True], NoError, False, 0, []))"
    by (simp add: parse_token_def parse_braces_decimal [OF assms] parseQuantifier_def)
  show ?thesis
    unfolding Yarr_parse_def if_not_P [OF len]
    by (simp add: a b parse_tokens_digits [OF decimal_digits, simplified] prepend_def)
qed

theorem quantifier_bound_wraps_witness:
  "Yarr_parse 0 ([97, 123] @ [53, 48, 48, 48, 48, 48, 48, 48, 48, 48] @ [125]) =
     ([AtomPatternCharacter 97, QuantifyAtom 705032704 705032704 True], NoError)"
proof -
  have "decimal 5000000000 = [53, 48, 48, 48, 48, 48, 48, 48, 48, 48]"
    by (simp add: decimal.simps)
  then show ?thesis using quantifier_bound_wraps [of 5000000000 0] by simp
qed

end
