(* ===== verification/Url_Filter_Parser.thy ===== *)
theory Url_Filter_Parser
  imports Pattern_Term Yarr_Parser
begin

text \<open>
  \<open>URLFilterParser.cpp\<close>: the delegate of the regular expression parser that turns a URL filter into a
  list of terms, with the statuses of the filters it rejects, and the simplification of the terms.
  \<open>None\<close> is a failed release assertion.
\<close>

section \<open>State\<close>

datatype ParseStatus =
  Ok | MatchesEverything | NonASCII | UnsupportedCharacterClass | BackReference | MisplacedStartOfLine |
  WordBoundary | AtomCharacter | GroupStatus | DisjunctionStatus | MisplacedEndOfLine | EmptyPattern | YarrError |
  InvalidQuantifier

fun statusString :: "ParseStatus \<Rightarrow> string" where
  "statusString Ok = ''Ok''"
| "statusString MatchesEverything = ''Matches everything.''"
| "statusString NonASCII = ''Only ASCII characters are supported in pattern.''"
| "statusString UnsupportedCharacterClass = ''Character class is not supported.''"
| "statusString BackReference = ''Patterns cannot contain backreferences.''"
| "statusString MisplacedStartOfLine = ''Start of line assertion can only appear as the first term in a filter.''"
| "statusString WordBoundary = ''Word boundaries assertions are not supported yet.''"
| "statusString AtomCharacter = ''Builtins character class atoms are not supported yet.''"
| "statusString GroupStatus = ''Groups are not supported yet.''"
| "statusString DisjunctionStatus = ''Disjunctions are not supported yet.''"
| "statusString MisplacedEndOfLine = ''The end of line assertion must be the last term in an expression.''"
| "statusString EmptyPattern = ''Empty pattern.''"
| "statusString YarrError = ''Internal error in YARR.''"
| "statusString InvalidQuantifier = ''Arbitrary atom repetitions are not supported.''"

record PatternParser =
  m_patternIsCaseSensitive :: bool
  m_openGroups :: "Term list"
  m_sunkTerms :: "Term list"
  m_floatingTerm :: Term
  m_hasBeginningOfLineAssertion :: bool
  m_hasProcessedEndOfLineAssertion :: bool
  m_parseStatus :: ParseStatus

definition PatternParser_new :: "bool \<Rightarrow> PatternParser" where
  "PatternParser_new patternIsCaseSensitive =
     \<lparr>m_patternIsCaseSensitive = patternIsCaseSensitive, m_openGroups = [], m_sunkTerms = [],
      m_floatingTerm = Term_new, m_hasBeginningOfLineAssertion = False,
      m_hasProcessedEndOfLineAssertion = False, m_parseStatus = Ok\<rparr>"

definition hasError :: "PatternParser \<Rightarrow> bool" where
  "hasError p \<longleftrightarrow> m_parseStatus p \<noteq> Ok"

definition fail :: "ParseStatus \<Rightarrow> PatternParser \<Rightarrow> PatternParser" where
  "fail reason p = (if hasError p then p else p\<lparr>m_parseStatus := reason\<rparr>)"

definition sinkFloatingTermIfNecessary :: "PatternParser \<Rightarrow> PatternParser" where
  "sinkFloatingTermIfNecessary p =
     (if \<not> isValid (m_floatingTerm p) then p
      else if m_hasProcessedEndOfLineAssertion p then (fail MisplacedEndOfLine p)\<lparr>m_floatingTerm := Term_new\<rparr>
      else
        let p1 = (if isEndOfLineAssertion (m_floatingTerm p) then p\<lparr>m_hasProcessedEndOfLineAssertion := True\<rparr> else p)
        in if m_openGroups p1 \<noteq> []
           then p1\<lparr>m_openGroups := butlast (m_openGroups p1) @
                     [extendGroupSubpattern (m_floatingTerm p1) (last (m_openGroups p1))],
                   m_floatingTerm := Term_new\<rparr>
           else p1\<lparr>m_sunkTerms := m_sunkTerms p1 @ [m_floatingTerm p1], m_floatingTerm := Term_new\<rparr>)"

section \<open>Calls of the delegate\<close>

text \<open>The floating term is sunk and replaced by a new one.\<close>

definition float :: "Term option \<Rightarrow> PatternParser \<Rightarrow> PatternParser option" where
  "float t p = map_option (\<lambda>t. p\<lparr>m_floatingTerm := t\<rparr>) t"

definition atomPatternCharacter :: "nat \<Rightarrow> PatternParser \<Rightarrow> PatternParser option" where
  "atomPatternCharacter character p =
     (if hasError p then Some p
      else if \<not> character < 128 then Some (fail NonASCII p)
      else float (Term_character character (m_patternIsCaseSensitive p)) (sinkFloatingTermIfNecessary p))"

definition atomBuiltInCharacterClass :: "BuiltInCharacterClassID \<Rightarrow> bool \<Rightarrow> PatternParser \<Rightarrow> PatternParser option" where
  "atomBuiltInCharacterClass classID inverted p =
     (if hasError p then Some p
      else
        let p1 = sinkFloatingTermIfNecessary p
        in if classID = NewlineClassID \<and> inverted then float Term_UniversalTransition p1
           else Some (fail UnsupportedCharacterClass p1))"

definition quantifyAtom :: "nat \<Rightarrow> nat \<Rightarrow> PatternParser \<Rightarrow> PatternParser option" where
  "quantifyAtom minimum maximum p =
     (if hasError p then Some p
      else if minimum = 0 \<and> maximum = 1 then float (Some (quantify ZeroOrOne (m_floatingTerm p))) p
      else if minimum = 0 \<and> maximum = quantifyInfinite then float (Some (quantify ZeroOrMore (m_floatingTerm p))) p
      else if minimum = 1 \<and> maximum = quantifyInfinite then float (Some (quantify OneOrMore (m_floatingTerm p))) p
      else Some (fail InvalidQuantifier p))"

definition assertionBOL :: "PatternParser \<Rightarrow> PatternParser option" where
  "assertionBOL p =
     (if hasError p then Some p
      else if isValid (m_floatingTerm p) \<or> m_sunkTerms p \<noteq> [] \<or> m_openGroups p \<noteq> []
      then Some (fail MisplacedStartOfLine p)
      else Some (p\<lparr>m_hasBeginningOfLineAssertion := True\<rparr>))"

definition assertionEOL :: "PatternParser \<Rightarrow> PatternParser option" where
  "assertionEOL p =
     (if hasError p then Some p else float Term_EndOfLineAssertion (sinkFloatingTermIfNecessary p))"

definition atomCharacterClassBegin :: "bool \<Rightarrow> PatternParser \<Rightarrow> PatternParser option" where
  "atomCharacterClassBegin inverted p =
     (if hasError p then Some p
      else float (Some (Term_CharacterSet inverted)) (sinkFloatingTermIfNecessary p))"

definition atomCharacterClassAtom :: "nat \<Rightarrow> PatternParser \<Rightarrow> PatternParser option" where
  "atomCharacterClassAtom character p =
     (if hasError p then Some p
      else float (addCharacter character (m_patternIsCaseSensitive p) (m_floatingTerm p)) p)"

fun add_characters :: "bool \<Rightarrow> nat list \<Rightarrow> Term \<Rightarrow> Term option" where
  "add_characters isCaseSensitive [] t = Some t"
| "add_characters isCaseSensitive (i # xs) t =
     Option.bind (addCharacter i isCaseSensitive t) (add_characters isCaseSensitive xs)"

definition atomCharacterClassRange :: "nat \<Rightarrow> nat \<Rightarrow> PatternParser \<Rightarrow> PatternParser option" where
  "atomCharacterClassRange a b p =
     (if hasError p then Some p
      else float (add_characters (m_patternIsCaseSensitive p) [a..<b + 1] (m_floatingTerm p)) p)"

definition atomParenthesesSubpatternBegin :: "PatternParser \<Rightarrow> PatternParser option" where
  "atomParenthesesSubpatternBegin p =
     (if hasError p then Some p
      else
        let p1 = sinkFloatingTermIfNecessary p
        in Some (p1\<lparr>m_openGroups := m_openGroups p1 @ [Term_Group]\<rparr>))"

text \<open>\<open>takeLast\<close> needs an open group.\<close>

definition atomParenthesesEnd :: "PatternParser \<Rightarrow> PatternParser option" where
  "atomParenthesesEnd p =
     (if hasError p then Some p
      else
        let p1 = sinkFloatingTermIfNecessary p
        in if m_openGroups p1 = [] then None
           else Some (p1\<lparr>m_floatingTerm := last (m_openGroups p1), m_openGroups := butlast (m_openGroups p1)\<rparr>))"

fun PatternParser_call :: "token \<Rightarrow> PatternParser \<Rightarrow> PatternParser option" where
  "PatternParser_call AssertionBOL p = assertionBOL p"
| "PatternParser_call AssertionEOL p = assertionEOL p"
| "PatternParser_call (AssertionWordBoundary invert) p = Some (fail WordBoundary p)"
| "PatternParser_call (AtomPatternCharacter c) p = atomPatternCharacter c p"
| "PatternParser_call (AtomBuiltInCharacterClass classID invert) p = atomBuiltInCharacterClass classID invert p"
| "PatternParser_call (AtomCharacterClassBegin invert) p = atomCharacterClassBegin invert p"
| "PatternParser_call (AtomCharacterClassAtom c) p = atomCharacterClassAtom c p"
| "PatternParser_call (AtomCharacterClassRange a b) p = atomCharacterClassRange a b p"
| "PatternParser_call (AtomCharacterClassBuiltIn classID invert) p = Some (fail AtomCharacter p)"
| "PatternParser_call AtomCharacterClassEnd p = Some p"
| "PatternParser_call (AtomParenthesesSubpatternBegin capture) p = atomParenthesesSubpatternBegin p"
| "PatternParser_call (AtomParentheticalAssertionBegin invert) p = Some (fail GroupStatus p)"
| "PatternParser_call AtomParenthesesEnd p = atomParenthesesEnd p"
| "PatternParser_call (AtomBackReference n) p = Some (fail BackReference p)"
| "PatternParser_call (QuantifyAtom minimum maximum greedy) p = quantifyAtom minimum maximum p"
| "PatternParser_call Disjunction p = Some (fail DisjunctionStatus p)"

fun PatternParser_calls :: "token list \<Rightarrow> PatternParser \<Rightarrow> PatternParser option" where
  "PatternParser_calls [] p = Some p"
| "PatternParser_calls (t # ts) p = Option.bind (PatternParser_call t p) (PatternParser_calls ts)"

section \<open>Simplification of the terms\<close>

definition canonicalDotStar :: "Term option" where
  "canonicalDotStar = map_option (quantify ZeroOrMore) Term_UniversalTransition"

text \<open>The loop over the terms that replaces terms matching any string and drops their repetitions.\<close>

fun canonicalize :: "Term \<Rightarrow> bool \<Rightarrow> Term list \<Rightarrow> Term list" where
  "canonicalize dotStar isAfterDotStar [] = []"
| "canonicalize dotStar isAfterDotStar (t # ts) =
     (if isAfterDotStar \<and> isKnownToMatchAnyString t then canonicalize dotStar isAfterDotStar ts
      else if isKnownToMatchAnyString t then dotStar # canonicalize dotStar True ts
      else t # canonicalize dotStar False ts)"

definition add_leading :: "Term \<Rightarrow> bool \<Rightarrow> Term list \<Rightarrow> Term list" where
  "add_leading dotStar hasBeginningOfLineAssertion ts =
     (if \<not> hasBeginningOfLineAssertion \<and> \<not> isKnownToMatchAnyString (hd ts) then dotStar # ts else ts)"

definition remove_trailing_dot_star_end :: "Term list \<Rightarrow> Term list" where
  "remove_trailing_dot_star_end ts =
     (if 2 < length ts \<and> isEndOfLineAssertion (last ts) \<and> isKnownToMatchAnyString (ts ! (length ts - 2))
      then take (length ts - 2) ts else ts)"

definition remove_irrelevant :: "Term list \<Rightarrow> Term list" where
  "remove_irrelevant ts = rev (dropWhile (\<lambda>t. \<not> matchesAtLeastOneCharacter t) (rev ts))"

definition simplify_terms :: "Term \<Rightarrow> bool \<Rightarrow> Term list \<Rightarrow> Term list" where
  "simplify_terms dotStar hasBeginningOfLineAssertion ts =
     (if ts = [] then []
      else
        let ts1 = remove_trailing_dot_star_end
              (add_leading dotStar hasBeginningOfLineAssertion (canonicalize dotStar False ts))
        in if isEndOfLineAssertion (last ts1) then ts1 else remove_irrelevant ts1)"

definition simplifySunkTerms :: "PatternParser \<Rightarrow> PatternParser option" where
  "simplifySunkTerms p =
     map_option (\<lambda>dotStar. p\<lparr>m_sunkTerms := simplify_terms dotStar (m_hasBeginningOfLineAssertion p) (m_sunkTerms p)\<rparr>)
       canonicalDotStar"

text \<open>\<open>finalize\<close>, with the terms that it passes to \<open>CombinedURLFilters::addPattern\<close>.\<close>

definition PatternParser_finalize :: "PatternParser \<Rightarrow> (PatternParser \<times> Term list option) option" where
  "PatternParser_finalize p =
     (if hasError p then Some (p, None)
      else Option.bind (simplifySunkTerms (sinkFloatingTermIfNecessary p)) (\<lambda>p1.
        if \<not> list_ex matchesAtLeastOneCharacter (m_sunkTerms p1) then Some (fail MatchesEverything p1, None)
        else Some (p1, Some (m_sunkTerms p1))))"

text \<open>\<open>URLFilterParser::addPattern\<close>: the status, and the terms passed on for the pattern.\<close>

definition parse_url_filter :: "nat list \<Rightarrow> bool \<Rightarrow> (ParseStatus \<times> Term list option) option" where
  "parse_url_filter pattern patternIsCaseSensitive =
     (if \<not> list_all (\<lambda>c. c < 128) pattern then Some (NonASCII, None)
      else if pattern = [] then Some (EmptyPattern, None)
      else
        case Yarr_parse 0 pattern of (tokens, err) \<Rightarrow>
          Option.bind (PatternParser_calls tokens (PatternParser_new patternIsCaseSensitive)) (\<lambda>p.
            if err = NoError
            then map_option (\<lambda>(p1, terms). (m_parseStatus p1, terms)) (PatternParser_finalize p)
            else Some (YarrError, None)))"

section \<open>The parser returns\<close>

lemma CharacterSet_set_get:
  assumes "CharacterSet_set c cs = Some cs'" "cs_wf cs" "i < 128"
  shows "CharacterSet_get i cs' \<longleftrightarrow> i = c \<or> CharacterSet_get i cs"
proof -
  have c: "c < 128" using assms(1) by (simp add: CharacterSet_set_def split: if_splits)
  have d: "c div 64 < 2" "i div 64 < 2" using c assms(3) by simp_all
  have cs': "m_characters cs' = (m_characters cs)[c div 64 := (m_characters cs ! (c div 64)) OR push_bit (c mod 64) 1]"
    using assms(1) by (auto simp: CharacterSet_set_def split: if_splits)
  have "i = c \<longleftrightarrow> i div 64 = c div 64 \<and> i mod 64 = c mod 64" by (metis div_mult_mod_eq)
  moreover have "bit (push_bit (c mod 64) 1 :: u64) (i mod 64) \<longleftrightarrow> i mod 64 = c mod 64"
    by (auto simp: bit_simps)
  ultimately show ?thesis
    using d assms(2) by (auto simp: CharacterSet_get_bit cs' nth_list_update cs_wf_def bit_or_iff)
qed

lemma CharacterSet_set_wf: "CharacterSet_set c cs = Some cs' \<Longrightarrow> cs_wf cs' = cs_wf cs"
  by (auto simp: CharacterSet_set_def cs_wf_def split: if_splits)

lemma CharacterSet_set_Some: "c < 128 \<Longrightarrow> \<exists>cs'. CharacterSet_set c cs = Some cs'"
  by (simp add: CharacterSet_set_def)

lemma ascii_case: "c < 128 \<Longrightarrow> nat (toASCIIUpper (int c)) < 128" "c < 128 \<Longrightarrow> nat (toASCIILower (int c)) < 128"
  by (auto simp: toASCIIUpper_def toASCIILower_def)

lemma addCharacter_Some: "c < 128 \<Longrightarrow> \<exists>t'. addCharacter c s t = Some t'"
  by (cases t) (auto simp: CharacterSet_set_def ascii_case)

lemma add_characters_Some: "\<forall>c \<in> set xs. c < 128 \<Longrightarrow> \<exists>t'. add_characters s xs t = Some t'"
proof (induction xs arbitrary: t)
  case (Cons c xs)
  then show ?case using addCharacter_Some [of c s t] by auto
qed simp

lemma Term_character_Some: "c < 128 \<Longrightarrow> \<exists>t. Term_character c s = Some t"
  unfolding Term_character_def by (rule addCharacter_Some)

lemma set_characters_Some: "\<forall>c \<in> set xs. c < 128 \<Longrightarrow> \<exists>cs'. set_characters xs cs = Some cs'"
proof (induction xs arbitrary: cs)
  case (Cons c xs)
  then show ?case using CharacterSet_set_Some [of c cs] by auto
qed simp

lemma Term_UniversalTransition_Some: "\<exists>cs. Term_UniversalTransition = Some (CharacterSetTerm One cs)"
  using set_characters_Some [of "[1..<128]" CharacterSet_new] by (auto simp: Term_UniversalTransition_def)

lemma Term_EndOfLineAssertion_Some: "\<exists>t. Term_EndOfLineAssertion = Some t"
  by (simp add: Term_EndOfLineAssertion_def CharacterSet_set_def)

lemma fail_fields [simp]:
  "m_openGroups (fail r p) = m_openGroups p" "m_sunkTerms (fail r p) = m_sunkTerms p"
  "m_floatingTerm (fail r p) = m_floatingTerm p" "r \<noteq> Ok \<Longrightarrow> hasError (fail r p)"
  by (simp_all add: fail_def hasError_def)

lemma sink_open_groups: "length (m_openGroups (sinkFloatingTermIfNecessary p)) = length (m_openGroups p)"
  by (simp add: sinkFloatingTermIfNecessary_def Let_def)

text \<open>The open groups of the parser are those of the protocol, until there is an error.\<close>

definition follows :: "Protocol \<Rightarrow> PatternParser \<Rightarrow> bool" where
  "follows s p \<longleftrightarrow> hasError p \<or> length (m_openGroups p) = open_parentheses s"

fun class_characters :: "token \<Rightarrow> nat set" where
  "class_characters (AtomCharacterClassAtom c) = {c}"
| "class_characters (AtomCharacterClassRange a b) = {a..b}"
| "class_characters t = {}"

section \<open>Meaning of the terms\<close>

text \<open>
  The engine runs over the characters of the URL and then over a null character, which stands for the
  end of the line. A filter without \<open>^\<close> can start anywhere, and one without \<open>$\<close> can end anywhere.
\<close>

definition lmatch :: "bool \<Rightarrow> lang \<Rightarrow> cchar list \<Rightarrow> bool" where
  "lmatch atStart L url \<longleftrightarrow> (\<exists>x w y. url @ [0] = x @ w @ y \<and> (atStart \<longrightarrow> x = []) \<and> w \<in> L)"

definition terms_match :: "bool \<Rightarrow> Term list \<Rightarrow> cchar list \<Rightarrow> bool" where
  "terms_match atStart ts url = lmatch atStart (concs (map term_lang ts)) url"

text \<open>Terms that read only characters of the URL.\<close>

fun text_term :: "Term \<Rightarrow> bool" where
  "text_term (EmptyTerm q) = False"
| "text_term (CharacterSetTerm q cs) \<longleftrightarrow> cs_wf cs \<and> \<not> CharacterSet_get 0 cs"
| "text_term (GroupTerm q ts) = list_all text_term ts"

lemma conc_assoc: "conc (conc A B) C = conc A (conc B C)"
  by (auto simp: conc_def) (metis append.assoc)+

lemma concs_append: "concs (As @ Bs) = conc (concs As) (concs Bs)"
  by (induction As) (simp_all add: conc_assoc)

lemma concs_lists: "\<forall>L \<in> set Ls. L \<subseteq> lists X \<Longrightarrow> concs Ls \<subseteq> lists X"
  by (induction Ls) (simp_all add: conc_lists)

lemma conc_lists_idem: "conc (lists X) (lists X) = lists X"
proof (rule antisym)
  show "lists X \<subseteq> conc (lists X) (lists X)"
  proof
    fix w assume "w \<in> lists X"
    then show "w \<in> conc (lists X) (lists X)" using concI [of "[]" "lists X" w "lists X"] by simp
  qed
qed (simp add: conc_lists)

lemma text_lang: "text_term t \<Longrightarrow> term_lang t \<subseteq> lists any_chars"
proof (induction t)
  case (CharacterSetTerm q cs)
  then have "set_chars cs \<subseteq> any_chars"
    by (auto simp: set_chars_def any_chars_def split: if_splits) (metis nat_0 order_le_less zless_imp_add1_zle add_0)
  then have "(\<lambda>c. [c]) ` set_chars cs \<subseteq> lists any_chars" by auto
  then show ?case by (simp add: quantified_lists)
next
  case (GroupTerm q ts)
  then have "concs (map term_lang ts) \<subseteq> lists any_chars" by (intro concs_lists) (auto simp: list_all_iff)
  then show ?case by (simp add: quantified_lists)
qed simp

lemma text_not_eol: "text_term t \<Longrightarrow> \<not> isEndOfLineAssertion t"
  by (cases t) simp_all

lemma text_empty: "text_term t \<Longrightarrow> \<not> matchesAtLeastOneCharacter t \<Longrightarrow> [] \<in> term_lang t"
proof (induction t)
  case (CharacterSetTerm q cs)
  then show ?case by (cases q) (auto intro: star_Nil)
next
  case (GroupTerm q ts)
  show ?case
  proof (cases "q = ZeroOrOne \<or> q = ZeroOrMore")
    case True
    then show ?thesis by (auto intro: star_Nil)
  next
    case False
    then have "\<forall>t \<in> set ts. [] \<in> term_lang t" using GroupTerm by (auto simp: list_all_iff)
    then have "[] \<in> concs (map term_lang ts)" by (induction ts) (auto simp: conc_def)
    then show ?thesis using subset_quantified [of "concs (map term_lang ts)" q] by auto
  qed
qed simp

lemma texts_lang: "list_all text_term ts \<Longrightarrow> concs (map term_lang ts) \<subseteq> lists any_chars"
  by (intro concs_lists) (auto simp: list_all_iff text_lang)

lemma set_characters_get:
  assumes "set_characters xs cs = Some cs'" "cs_wf cs"
  shows "cs_wf cs' \<and> m_inverted cs' = m_inverted cs \<and>
    (\<forall>i < 128. CharacterSet_get i cs' \<longleftrightarrow> i \<in> set xs \<or> CharacterSet_get i cs)"
  using assms
proof (induction xs arbitrary: cs)
  case (Cons c xs)
  then obtain cs1 where 1: "CharacterSet_set c cs = Some cs1" "set_characters xs cs1 = Some cs'"
    by (auto split: Option.bind_splits)
  have "m_inverted cs1 = m_inverted cs" using 1(1) by (auto simp: CharacterSet_set_def split: if_splits)
  then show ?case using Cons.IH [OF 1(2)] CharacterSet_set_wf [OF 1(1)] CharacterSet_set_get [OF 1(1)] Cons.prems(2)
    by auto
qed simp

lemma cs_new: "cs_wf CharacterSet_new" "\<not> m_inverted CharacterSet_new" "i < 128 \<Longrightarrow> \<not> CharacterSet_get i CharacterSet_new"
proof -
  show "\<not> CharacterSet_get i CharacterSet_new" if "i < 128"
  proof -
    have "i div 64 = 0 \<or> i div 64 = 1" using that by auto
    then show ?thesis by (auto simp: CharacterSet_get_bit CharacterSet_new_def)
  qed
qed (simp_all add: CharacterSet_new_def cs_wf_def)

lemma universal_term:
  assumes "Term_UniversalTransition = Some t"
  obtains cs where "t = CharacterSetTerm One cs" "cs_wf cs" "set_chars cs = any_chars" "\<not> m_inverted cs" "\<not> CharacterSet_get 0 cs"
proof -
  obtain cs where cs: "t = CharacterSetTerm One cs" "set_characters [1..<128] CharacterSet_new = Some cs"
    using assms by (auto simp: Term_UniversalTransition_def)
  note g = set_characters_get [OF cs(2) cs_new(1)]
  then have get: "CharacterSet_get i cs \<longleftrightarrow> i \<noteq> 0" if "i < 128" for i using that cs_new(3) by auto
  have "set_chars cs = any_chars"
  proof (intro set_eqI)
    fix c show "c \<in> set_chars cs \<longleftrightarrow> c \<in> any_chars"
      using g cs_new(2) get [of "nat c"] by (cases "0 \<le> c \<and> c \<le> 127") (auto simp: set_chars_def any_chars_def)
  qed
  then show thesis using that [OF cs(1)] g get [of 0] cs_new(2) by simp
qed

lemma dot_star:
  assumes "canonicalDotStar = Some d"
  shows "term_lang d = lists any_chars" "isKnownToMatchAnyString d" "text_term d" "\<not> matchesAtLeastOneCharacter d"
proof -
  obtain t where t: "Term_UniversalTransition = Some t" "d = quantify ZeroOrMore t"
    using assms by (auto simp: canonicalDotStar_def)
  obtain cs where cs: "t = CharacterSetTerm One cs" "cs_wf cs" "set_chars cs = any_chars" "\<not> m_inverted cs" "\<not> CharacterSet_get 0 cs"
    by (rule universal_term [OF t(1)])
  have d: "d = CharacterSetTerm ZeroOrMore cs" using t(2) cs(1) by simp
  have "isUniversalTransition d" using universal_set [of ZeroOrMore cs] cs(3,4) d by blast
  then show k: "isKnownToMatchAnyString d" using d by simp
  show "term_lang d = lists any_chars" by (rule known_any [OF k])
  show "text_term d" "\<not> matchesAtLeastOneCharacter d" using d cs by simp_all
qed

lemma end_of_line:
  assumes "Term_EndOfLineAssertion = Some e"
  shows "term_lang e = {[0]}" "isEndOfLineAssertion e" "\<not> isKnownToMatchAnyString e"
proof -
  obtain cs where cs: "CharacterSet_set 0 CharacterSet_new = Some cs" "e = CharacterSetTerm One cs"
    using assms by (auto simp: Term_EndOfLineAssertion_def)
  have g: "CharacterSet_get i cs \<longleftrightarrow> i = 0" if "i < 128" for i
    using CharacterSet_set_get [OF cs(1) cs_new(1) that] cs_new(3) [OF that] by simp
  have inv: "\<not> m_inverted cs" using cs(1) by (auto simp: CharacterSet_set_def CharacterSet_new_def split: if_splits)
  have "set_chars cs = {0}"
    using g inv by (auto simp: set_chars_def)
  then show "term_lang e = {[0]}" by (simp add: cs(2))
  have "{i. i < 128 \<and> CharacterSet_get i cs} = {0}" using g by auto
  then show "isEndOfLineAssertion e" using g [of 0] by (simp add: cs(2) CharacterSet_bitCount_card)
  then show "\<not> isKnownToMatchAnyString e" by (simp add: cs(2))
qed

subsection \<open>The steps of the simplification\<close>

lemma lmatch_empty: "[] \<in> L \<Longrightarrow> lmatch b L url"
  unfolding lmatch_def by (intro exI [of _ "[]"] exI [of _ "url @ [0]"]) simp

lemma prefix_url:
  assumes "url @ [0] = x @ z" "z \<noteq> []" "url \<in> lists X"
  shows "x \<in> lists X"
proof -
  obtain z' a where "z = z' @ [a]" using assms(2) by (metis rev_exhaust)
  then have "url = x @ z'" using assms(1) by simp
  then show ?thesis using assms(3) by simp
qed

lemma lmatch_any_prefix:
  assumes "url \<in> lists X"
  shows "lmatch True (conc (lists X) L) url = lmatch False L url"
proof
  assume "lmatch True (conc (lists X) L) url"
  then obtain w y where w: "url @ [0] = w @ y" "w \<in> conc (lists X) L" by (auto simp: lmatch_def)
  from w(2) obtain u v where "w = u @ v" "v \<in> L" by (auto simp: conc_def)
  then have "url @ [0] = u @ v @ y" using w(1) by simp
  then show "lmatch False L url" using \<open>v \<in> L\<close> unfolding lmatch_def by blast
next
  assume "lmatch False L url"
  then obtain x w y where w: "url @ [0] = x @ w @ y" "w \<in> L" by (auto simp: lmatch_def)
  show "lmatch True (conc (lists X) L) url"
  proof (cases "w @ y = []")
    case True
    then have "[] \<in> conc (lists X) L" using w(2) concI [of "[]" "lists X" "[]" L] by simp
    then show ?thesis by (rule lmatch_empty)
  next
    case False
    have "x \<in> lists X" by (rule prefix_url [OF w(1) False assms])
    then have "x @ w \<in> conc (lists X) L" using w(2) by (rule concI)
    then show ?thesis unfolding lmatch_def using w(1) by (intro exI [of _ "[]"] exI [of _ "x @ w"] exI [of _ y]) simp
  qed
qed

lemma lmatch_any_end:
  assumes "url \<in> lists X" "L \<subseteq> lists X" "0 \<notin> X"
  shows "lmatch True (conc L (conc (lists X) {[0]})) url = lmatch True L url"
proof
  assume "lmatch True (conc L (conc (lists X) {[0]})) url"
  then obtain w y where w: "url @ [0] = w @ y" "w \<in> conc L (conc (lists X) {[0]})" by (auto simp: lmatch_def)
  from w(2) obtain u v where u: "w = u @ v" "u \<in> L" by (auto simp: conc_def)
  then have "url @ [0] = [] @ u @ (v @ y)" using w(1) by simp
  then show "lmatch True L url" unfolding lmatch_def using u(2) by blast
next
  assume "lmatch True L url"
  then obtain w y where w: "url @ [0] = w @ y" "w \<in> L" by (auto simp: lmatch_def)
  have "0 \<notin> set w" using w(2) assms(2,3) by auto
  then have "y \<noteq> []" using w(1) by (metis append_Nil2 in_set_conv_decomp)
  then obtain v a where y: "y = v @ [a]" by (metis rev_exhaust)
  then have v: "url = w @ v" "a = 0" using w(1) by simp_all
  then have "v \<in> lists X" using assms(1) by simp
  then have "w @ (v @ [0]) \<in> conc L (conc (lists X) {[0]})" using w(2) by (intro concI) simp_all
  then show "lmatch True (conc L (conc (lists X) {[0]})) url"
    unfolding lmatch_def using v by (intro exI [of _ "[]"] exI [of _ "w @ v @ [0]"]) simp
qed

lemma lmatch_drop:
  assumes "[] \<in> M"
  shows "lmatch True (conc L M) url = lmatch True L url"
proof
  assume "lmatch True (conc L M) url"
  then obtain w y where w: "url @ [0] = w @ y" "w \<in> conc L M" by (auto simp: lmatch_def)
  from w(2) obtain u v where u: "w = u @ v" "u \<in> L" by (auto simp: conc_def)
  then have "url @ [0] = [] @ u @ (v @ y)" using w(1) by simp
  then show "lmatch True L url" unfolding lmatch_def using u(2) by blast
next
  assume "lmatch True L url"
  moreover have "L \<subseteq> conc L M" using concI [OF _ assms, of _ L] by auto
  ultimately show "lmatch True (conc L M) url" unfolding lmatch_def by blast
qed

lemma canonicalize_lang:
  assumes "canonicalDotStar = Some d"
  shows "concs (map term_lang (canonicalize d False ts)) = concs (map term_lang ts) \<and>
    conc (lists any_chars) (concs (map term_lang (canonicalize d True ts))) = conc (lists any_chars) (concs (map term_lang ts))"
proof (induction ts)
  case (Cons t ts)
  let ?X = "lists any_chars"
  show ?case
  proof (cases "isKnownToMatchAnyString t")
    case True
    then have "term_lang t = ?X" by (rule known_any)
    moreover have "conc ?X (conc ?X L) = conc ?X L" for L by (simp flip: conc_assoc add: conc_lists_idem)
    ultimately show ?thesis using Cons True dot_star(1) [OF assms] by simp
  next
    case False
    then show ?thesis using Cons by simp
  qed
qed simp

lemma canonicalize_text:
  "text_term d \<Longrightarrow> list_all text_term ts \<Longrightarrow> list_all text_term (canonicalize d a ts)"
  by (induction d a ts rule: canonicalize.induct) simp_all

lemma canonicalize_snoc:
  "\<not> isKnownToMatchAnyString e \<Longrightarrow> canonicalize d a (ts @ [e]) = canonicalize d a ts @ [e]"
  by (induction d a ts rule: canonicalize.induct) simp_all

lemma canonicalize_nonempty: "ts \<noteq> [] \<Longrightarrow> canonicalize d False ts \<noteq> []"
  by (cases ts) simp_all

lemma add_leading_match:
  assumes "canonicalDotStar = Some d" "url \<in> lists any_chars" "ts \<noteq> []"
  shows "terms_match True (add_leading d b ts) url = terms_match b ts url"
proof (cases "b")
  case False
  let ?X = "lists any_chars"
  have f: "lmatch True (conc ?X L) url = lmatch False L url" for L by (rule lmatch_any_prefix [OF assms(2)])
  show ?thesis
  proof (cases "isKnownToMatchAnyString (hd ts)")
    case True
    then obtain t us where ts: "ts = t # us" "term_lang t = ?X" using assms(3) known_any by (cases ts) auto
    have "conc ?X (conc ?X L) = conc ?X L" for L by (simp flip: conc_assoc add: conc_lists_idem)
    then show ?thesis using f [of "conc ?X (concs (map term_lang us))"] ts True False
      by (simp add: add_leading_def terms_match_def)
  next
    case h: False
    then show ?thesis using f False dot_star(1) [OF assms(1)] by (simp add: add_leading_def terms_match_def)
  qed
qed (simp add: add_leading_def)

lemma remove_irrelevant_match:
  "list_all text_term ts \<Longrightarrow> terms_match True (remove_irrelevant ts) url = terms_match True ts url"
proof (induction ts rule: rev_induct)
  case (snoc t ts)
  show ?case
  proof (cases "matchesAtLeastOneCharacter t")
    case True
    then show ?thesis by (simp add: remove_irrelevant_def)
  next
    case False
    then have "[] \<in> term_lang t" using snoc.prems text_empty by simp
    then have "terms_match True (ts @ [t]) url = terms_match True ts url"
      by (simp add: terms_match_def concs_append lmatch_drop)
    moreover have "remove_irrelevant (ts @ [t]) = remove_irrelevant ts" using False by (simp add: remove_irrelevant_def)
    ultimately show ?thesis using snoc by simp
  qed
qed (simp add: remove_irrelevant_def)

lemma remove_trailing_match:
  assumes "url \<in> lists any_chars" "list_all text_term ts" "Term_EndOfLineAssertion = Some e"
    "2 < length (ts @ [e])" "isKnownToMatchAnyString ((ts @ [e]) ! (length (ts @ [e]) - 2))"
  shows "take (length (ts @ [e]) - 2) (ts @ [e]) = butlast ts"
    "terms_match True (butlast ts) url = terms_match True (ts @ [e]) url"
proof -
  obtain us k where ts: "ts = us @ [k]" using assms(4) by (cases ts rule: rev_cases) simp_all
  then have k: "term_lang k = lists any_chars" using assms(5) known_any by (simp add: nth_append)
  show "take (length (ts @ [e]) - 2) (ts @ [e]) = butlast ts" by (simp add: ts)
  have "concs (map term_lang us) \<subseteq> lists any_chars" using texts_lang assms(2) ts by simp
  from lmatch_any_end [OF assms(1) this] show "terms_match True (butlast ts) url = terms_match True (ts @ [e]) url"
    by (simp add: ts terms_match_def concs_append k end_of_line(1) [OF assms(3)] conc_assoc any_chars_def)
qed

lemma simplify_text:
  assumes d: "canonicalDotStar = Some d" and u: "url \<in> lists any_chars" and ts: "list_all text_term ts" "ts \<noteq> []"
  shows "terms_match True (simplify_terms d b ts) url = terms_match b ts url"
proof -
  define us where "us = add_leading d b (canonicalize d False ts)"
  have us: "list_all text_term us" "us \<noteq> []"
    using canonicalize_text [OF dot_star(3) [OF d] ts(1)] canonicalize_nonempty [OF ts(2)] dot_star(3) [OF d]
    by (auto simp: us_def add_leading_def)
  have "text_term (last us)" using us by (simp add: list_all_iff)
  then have "\<not> isEndOfLineAssertion (last us)" by (rule text_not_eol)
  then have "simplify_terms d b ts = remove_irrelevant us"
    using ts(2) by (simp add: simplify_terms_def remove_trailing_dot_star_end_def us_def [symmetric])
  moreover have "terms_match True us url = terms_match b (canonicalize d False ts) url"
    unfolding us_def by (rule add_leading_match [OF d u canonicalize_nonempty [OF ts(2)]])
  moreover have "terms_match b (canonicalize d False ts) url = terms_match b ts url"
    using canonicalize_lang [OF d, of ts] by (simp add: terms_match_def)
  ultimately show ?thesis using remove_irrelevant_match [OF us(1)] by simp
qed

lemma simplify_end:
  assumes d: "canonicalDotStar = Some d" and u: "url \<in> lists any_chars" and ts: "list_all text_term ts"
    and e: "Term_EndOfLineAssertion = Some e"
  shows "terms_match True (simplify_terms d b (ts @ [e])) url = terms_match b (ts @ [e]) url"
proof -
  let ?all = "canonicalize d False (ts @ [e])"
  define us where "us = butlast (add_leading d b ?all)"
  have snoc: "?all = canonicalize d False ts @ [e]" by (rule canonicalize_snoc [OF end_of_line(3) [OF e]])
  have us: "add_leading d b ?all = us @ [e]" "list_all text_term us"
    using canonicalize_text [OF dot_star(3) [OF d] ts] dot_star(3) [OF d]
    by (auto simp: us_def add_leading_def snoc butlast_append)
  have m: "terms_match True (us @ [e]) url = terms_match b (ts @ [e]) url"
    using add_leading_match [OF d u canonicalize_nonempty [of "ts @ [e]" d], of b] canonicalize_lang [OF d, of "ts @ [e]"] us(1)
    by (simp add: terms_match_def)
  note eol = end_of_line(2) [OF e]
  show ?thesis
  proof (cases "2 < length (us @ [e]) \<and> isKnownToMatchAnyString ((us @ [e]) ! (length (us @ [e]) - 2))")
    case True
    note r = remove_trailing_match [OF u us(2) e True [THEN conjunct1] True [THEN conjunct2]]
    have "butlast us \<noteq> []" using True by (cases us rule: rev_cases) auto
    moreover have b: "list_all text_term (butlast us)" using us(2) by (auto simp: list_all_iff dest: in_set_butlastD)
    ultimately have "\<not> isEndOfLineAssertion (last (butlast us))" by (intro text_not_eol) (simp add: list_all_iff)
    then have "simplify_terms d b (ts @ [e]) = remove_irrelevant (butlast us)"
      using True r(1) eol us(1) by (simp add: simplify_terms_def remove_trailing_dot_star_end_def)
    then show ?thesis using remove_irrelevant_match [OF b] r(2) m by simp
  next
    case False
    then have "simplify_terms d b (ts @ [e]) = us @ [e]"
      using eol us(1) by (auto simp: simplify_terms_def remove_trailing_dot_star_end_def)
    then show ?thesis using m by simp
  qed
qed

section \<open>The terms that the parser collects\<close>

fun token_characters :: "token \<Rightarrow> nat set" where
  "token_characters (AtomPatternCharacter c) = {c}"
| "token_characters t = class_characters t"

definition group_text :: "Term \<Rightarrow> bool" where
  "group_text g \<longleftrightarrow> (\<exists>ts. g = GroupTerm One ts \<and> list_all text_term ts)"

text \<open>
  Until there is an error, the terms read only characters, except that the last sunk term may be the end
  of line assertion. An end of line assertion inside a group ends up in a floating term, which cannot be
  sunk any more.
\<close>

definition collected :: "Term \<Rightarrow> PatternParser \<Rightarrow> bool" where
  "collected e p \<longleftrightarrow> hasError p \<or>
     (if m_hasProcessedEndOfLineAssertion p
      then list_all isValid (m_openGroups p) \<and>
        ((\<exists>ts. m_sunkTerms p = ts @ [e] \<and> list_all text_term ts) \<or> m_openGroups p \<noteq> [] \<or> isValid (m_floatingTerm p))
      else list_all text_term (m_sunkTerms p) \<and> list_all group_text (m_openGroups p) \<and>
        (m_floatingTerm p = Term_new \<or> text_term (m_floatingTerm p) \<or> m_floatingTerm p = e))"

definition floating_ok :: "Protocol \<Rightarrow> PatternParser \<Rightarrow> bool" where
  "floating_ok s p \<longleftrightarrow> hasError p \<or> m_hasProcessedEndOfLineAssertion p \<or>
     ((after_atom s \<or> in_class s) \<longrightarrow> text_term (m_floatingTerm p))"

lemma text_valid: "text_term t \<Longrightarrow> isValid t"
  by (cases t) simp_all

lemma eol_valid: "Term_EndOfLineAssertion = Some e \<Longrightarrow> isValid e"
  by (auto simp: Term_EndOfLineAssertion_def)

lemma Term_new_invalid [simp]: "\<not> isValid Term_new"
  by (simp add: Term_new_def)

lemma isValid_quantify [simp]: "isValid (quantify q t) = isValid t"
  by (cases t) simp_all

lemma text_quantify [simp]: "text_term (quantify q t) = text_term t"
  by (cases t) simp_all

lemma extend_group_text: "group_text g \<Longrightarrow> text_term t \<Longrightarrow> group_text (extendGroupSubpattern t g)"
  by (auto simp: group_text_def)

lemma isValid_extend [simp]: "isValid (extendGroupSubpattern t g) = isValid g"
  by (cases g) simp_all

lemma group_text_valid: "group_text g \<Longrightarrow> isValid g \<and> text_term g"
  by (auto simp: group_text_def)

lemma set_text:
  assumes "CharacterSet_set c cs = Some cs'" "c \<noteq> 0"
  shows "cs_wf cs \<and> \<not> CharacterSet_get 0 cs \<longrightarrow> cs_wf cs' \<and> \<not> CharacterSet_get 0 cs'"
  using CharacterSet_set_get [OF assms(1), of 0] CharacterSet_set_wf [OF assms(1)] assms(2) by auto

lemma ascii_nonzero: "c \<noteq> 0 \<Longrightarrow> nat (toASCIIUpper (int c)) \<noteq> 0" "c \<noteq> 0 \<Longrightarrow> nat (toASCIILower (int c)) \<noteq> 0"
  by (auto simp: toASCIIUpper_def toASCIILower_def)

lemma addCharacter_text: "addCharacter c s t = Some t' \<Longrightarrow> c \<noteq> 0 \<Longrightarrow> (text_term t \<longrightarrow> text_term t') \<and> isValid t' = isValid t"
proof (cases t)
  case (CharacterSetTerm q cs)
  assume a: "addCharacter c s t = Some t'" "c \<noteq> 0"
  show ?thesis
  proof (cases "s \<or> \<not> isASCIIAlpha (int c)")
    case True
    then show ?thesis using a CharacterSetTerm set_text [of c cs] by auto
  next
    case False
    then obtain cs1 cs2 where "CharacterSet_set (nat (toASCIIUpper (int c))) cs = Some cs1"
      "CharacterSet_set (nat (toASCIILower (int c))) cs1 = Some cs2" "t' = CharacterSetTerm q cs2"
      using a(1) CharacterSetTerm by (auto split: Option.bind_splits)
    then show ?thesis using set_text ascii_nonzero [OF a(2)] CharacterSetTerm by fastforce
  qed
qed simp_all

lemma add_characters_text:
  "add_characters s xs t = Some t' \<Longrightarrow> 0 \<notin> set xs \<Longrightarrow> (text_term t \<longrightarrow> text_term t') \<and> isValid t' = isValid t"
proof (induction xs arbitrary: t)
  case (Cons c xs)
  then obtain t1 where "addCharacter c s t = Some t1" "add_characters s xs t1 = Some t'"
    by (auto split: Option.bind_splits)
  then show ?case using Cons.IH [of t1] Cons.prems(2) addCharacter_text [of c s t t1] by auto
qed simp

lemma empty_class_text: "text_term (Term_CharacterSet v)"
  by (simp add: Term_CharacterSet_def CharacterSet_invert_def cs_wf_def CharacterSet_get_def CharacterSet_new_def)

lemma character_text: "Term_character c s = Some t \<Longrightarrow> c \<noteq> 0 \<Longrightarrow> text_term t"
  unfolding Term_character_def using addCharacter_text [of c s "CharacterSetTerm One CharacterSet_new" t] cs_new by auto

lemma universal_text: "Term_UniversalTransition = Some t \<Longrightarrow> text_term t"
  by (erule universal_term) simp

lemma sink_collected:
  assumes e: "Term_EndOfLineAssertion = Some e" and c: "collected e p" and ok: "\<not> hasError p"
  shows "collected e (sinkFloatingTermIfNecessary p)"
    "hasError (sinkFloatingTermIfNecessary p) \<or> \<not> isValid (m_floatingTerm (sinkFloatingTermIfNecessary p))"
proof -
  let ?f = "m_floatingTerm p" and ?s = "sinkFloatingTermIfNecessary p"
  show "hasError ?s \<or> \<not> isValid (m_floatingTerm ?s)"
    by (simp add: sinkFloatingTermIfNecessary_def Let_def)
  show "collected e ?s"
  proof (cases "isValid ?f \<and> \<not> m_hasProcessedEndOfLineAssertion p")
    case False
    then show ?thesis using c by (auto simp: sinkFloatingTermIfNecessary_def collected_def hasError_def fail_def)
  next
    case True
    then have b: "list_all text_term (m_sunkTerms p)" "list_all group_text (m_openGroups p)" "text_term ?f \<or> ?f = e"
      using c ok by (auto simp: collected_def)
    show ?thesis
    proof (cases "?f = e")
      case h: True
      have "list_all isValid (m_openGroups p)" using b(2) group_text_valid by (auto simp: list_all_iff)
      moreover have "m_openGroups p \<noteq> [] \<Longrightarrow> list_all isValid (butlast (m_openGroups p)) \<and> isValid (last (m_openGroups p))"
        using calculation by (auto simp: list_all_iff dest: in_set_butlastD)
      ultimately show ?thesis using h True b end_of_line(2) [OF e]
        by (auto simp: sinkFloatingTermIfNecessary_def collected_def Let_def)
    next
      case h: False
      then have "text_term ?f" using b(3) by simp
      moreover have "\<not> isEndOfLineAssertion ?f" using calculation by (rule text_not_eol)
      moreover have "m_openGroups p \<noteq> [] \<Longrightarrow> list_all group_text (butlast (m_openGroups p)) \<and> group_text (last (m_openGroups p))"
        using b(2) by (auto simp: list_all_iff dest: in_set_butlastD)
      ultimately show ?thesis using True b extend_group_text
        by (auto simp: sinkFloatingTermIfNecessary_def collected_def Let_def)
    qed
  qed
qed

lemma float_collected:
  assumes "Term_EndOfLineAssertion = Some e" "collected e p" "text_term t \<or> t = e"
  shows "collected e (p\<lparr>m_floatingTerm := t\<rparr>)"
  using assms eol_valid [OF assms(1)] text_valid [of t] by (auto simp: collected_def hasError_def)

lemma text_floating_ok: "text_term t \<Longrightarrow> floating_ok s (p\<lparr>m_floatingTerm := t\<rparr>)"
  by (simp add: floating_ok_def)

lemma failed_collected: "hasError p \<Longrightarrow> collected e p \<and> floating_ok s p"
  by (simp add: collected_def floating_ok_def)

lemma call_error: "hasError p \<Longrightarrow> PatternParser_call t p = Some p"
  by (cases t) (simp_all add: atomPatternCharacter_def atomBuiltInCharacterClass_def quantifyAtom_def assertionBOL_def
      assertionEOL_def atomCharacterClassBegin_def atomCharacterClassAtom_def atomCharacterClassRange_def
      atomParenthesesSubpatternBegin_def atomParenthesesEnd_def fail_def)

lemma call_collected:
  assumes step: "protocol_step t s = Some s'" and e: "Term_EndOfLineAssertion = Some e"
    and c: "collected e p" "floating_ok s p" and nz: "0 \<notin> token_characters t" and call: "PatternParser_call t p = Some p'"
  shows "collected e p' \<and> floating_ok s' p'"
proof (cases "hasError p")
  case True
  then show ?thesis using call call_error failed_collected by simp
next
  case ok: False
  note sc = sink_collected [OF e c(1) ok]
  have floated: "collected e (p1\<lparr>m_floatingTerm := u\<rparr>) \<and> floating_ok s' (p1\<lparr>m_floatingTerm := u\<rparr>)"
    if "collected e p1" "text_term u" for p1 u
    using float_collected [OF e that(1)] text_floating_ok that(2) by blast
  show ?thesis
  proof (cases t)
    case AssertionBOL
    show ?thesis
    proof (cases "isValid (m_floatingTerm p) \<or> m_sunkTerms p \<noteq> [] \<or> m_openGroups p \<noteq> []")
      case False
      then have "p' = p\<lparr>m_hasBeginningOfLineAssertion := True\<rparr>" using call ok AssertionBOL by (auto simp: assertionBOL_def)
      moreover have "collected e (p\<lparr>m_hasBeginningOfLineAssertion := True\<rparr>) = collected e p"
        unfolding collected_def hasError_def by simp
      moreover have "\<not> after_atom s' \<and> \<not> in_class s'" using step AssertionBOL by (auto split: if_splits)
      ultimately show ?thesis using c(1) by (simp add: floating_ok_def)
    qed (use call ok AssertionBOL failed_collected in \<open>auto simp: assertionBOL_def\<close>)
  next
    case AssertionEOL
    then have "PatternParser_call t p = Some ((sinkFloatingTermIfNecessary p)\<lparr>m_floatingTerm := e\<rparr>)"
      using ok by (simp add: assertionEOL_def float_def e)
    then have "p' = (sinkFloatingTermIfNecessary p)\<lparr>m_floatingTerm := e\<rparr>" using call by simp
    then show ?thesis using float_collected [OF e sc(1), of e] step AssertionEOL
      by (auto simp: floating_ok_def split: if_splits)
  next
    case (AtomPatternCharacter ch)
    show ?thesis
    proof (cases "ch < 128")
      case True
      then obtain u where "Term_character ch (m_patternIsCaseSensitive p) = Some u"
        "p' = (sinkFloatingTermIfNecessary p)\<lparr>m_floatingTerm := u\<rparr>"
        using call ok AtomPatternCharacter by (auto simp: atomPatternCharacter_def float_def)
      then show ?thesis using floated [OF sc(1)] character_text nz AtomPatternCharacter by auto
    qed (use call ok AtomPatternCharacter failed_collected in \<open>auto simp: atomPatternCharacter_def\<close>)
  next
    case (AtomBuiltInCharacterClass i v)
    show ?thesis
    proof (cases "i = NewlineClassID \<and> v")
      case True
      then obtain u where "Term_UniversalTransition = Some u" "p' = (sinkFloatingTermIfNecessary p)\<lparr>m_floatingTerm := u\<rparr>"
        using call ok AtomBuiltInCharacterClass by (auto simp: atomBuiltInCharacterClass_def float_def Let_def)
      then show ?thesis using floated [OF sc(1)] universal_text by auto
    qed (use call ok AtomBuiltInCharacterClass failed_collected in \<open>auto simp: atomBuiltInCharacterClass_def Let_def\<close>)
  next
    case (AtomCharacterClassBegin v)
    then have "p' = (sinkFloatingTermIfNecessary p)\<lparr>m_floatingTerm := Term_CharacterSet v\<rparr>"
      using call ok by (auto simp: atomCharacterClassBegin_def float_def)
    then show ?thesis using floated [OF sc(1)] empty_class_text by auto
  next
    case (AtomCharacterClassAtom ch)
    then obtain u where u: "addCharacter ch (m_patternIsCaseSensitive p) (m_floatingTerm p) = Some u" "p' = p\<lparr>m_floatingTerm := u\<rparr>"
      using call ok by (auto simp: atomCharacterClassAtom_def float_def)
    moreover have "in_class s" "s' = s" using step AtomCharacterClassAtom by (auto split: if_splits)
    moreover have "(text_term (m_floatingTerm p) \<longrightarrow> text_term u) \<and> isValid u = isValid (m_floatingTerm p)"
      using addCharacter_text [OF u(1)] nz AtomCharacterClassAtom by simp
    ultimately show ?thesis using c ok by (auto simp: collected_def floating_ok_def hasError_def)
  next
    case (AtomCharacterClassRange a b)
    then obtain u where u: "add_characters (m_patternIsCaseSensitive p) [a..<b + 1] (m_floatingTerm p) = Some u"
      "p' = p\<lparr>m_floatingTerm := u\<rparr>"
      using call ok by (auto simp: atomCharacterClassRange_def float_def simp del: upt_Suc)
    moreover have "in_class s" "s' = s" using step AtomCharacterClassRange by (auto split: if_splits)
    moreover have "(text_term (m_floatingTerm p) \<longrightarrow> text_term u) \<and> isValid u = isValid (m_floatingTerm p)"
      using add_characters_text [OF u(1)] nz AtomCharacterClassRange by (simp del: upt_Suc)
    ultimately show ?thesis using c ok by (auto simp: collected_def floating_ok_def hasError_def)
  next
    case (AtomParenthesesSubpatternBegin b)
    then have "p' = (sinkFloatingTermIfNecessary p)\<lparr>m_openGroups := m_openGroups (sinkFloatingTermIfNecessary p) @ [Term_Group]\<rparr>"
      using call ok by (auto simp: atomParenthesesSubpatternBegin_def Let_def)
    then show ?thesis using sc(1) step AtomParenthesesSubpatternBegin
      by (auto simp: collected_def floating_ok_def hasError_def group_text_def Term_Group_def split: if_splits)
  next
    case AtomParenthesesEnd
    let ?p1 = "sinkFloatingTermIfNecessary p"
    have p': "m_openGroups ?p1 \<noteq> []" "p' = ?p1\<lparr>m_floatingTerm := last (m_openGroups ?p1), m_openGroups := butlast (m_openGroups ?p1)\<rparr>"
      using call ok AtomParenthesesEnd by (auto simp: atomParenthesesEnd_def Let_def split: if_splits)
    have v: "isValid (last (m_openGroups ?p1))" "\<not> m_hasProcessedEndOfLineAssertion ?p1 \<Longrightarrow> text_term (last (m_openGroups ?p1))"
      "\<not> m_hasProcessedEndOfLineAssertion ?p1 \<Longrightarrow> list_all group_text (butlast (m_openGroups ?p1))"
      "list_all isValid (butlast (m_openGroups ?p1))" if "\<not> hasError ?p1"
      using sc(1) that p'(1) group_text_valid
      by (auto simp: collected_def list_all_iff dest: in_set_butlastD split: if_splits)
    show ?thesis
    proof (cases "hasError ?p1")
      case True
      then have "hasError p'" by (simp add: p'(2) hasError_def)
      then show ?thesis by (rule failed_collected)
    next
      case False
      show ?thesis using v [OF False] sc(1) False
        by (simp add: p'(2) collected_def floating_ok_def hasError_def split: if_splits)
    qed
  next
    case (QuantifyAtom mi ma g)
    then have "after_atom s" "\<not> in_class s" "s' = s\<lparr>after_atom := False\<rparr>" using step by (auto split: if_splits)
    then show ?thesis using call ok c QuantifyAtom failed_collected
      by (auto simp: quantifyAtom_def float_def collected_def floating_ok_def hasError_def fail_def split: if_splits)
  next
    case AtomCharacterClassEnd
    then show ?thesis using call ok c step by (auto simp: floating_ok_def split: if_splits)
  qed (use call ok failed_collected in auto)
qed

lemma calls_collected:
  "protocol_run ts s = Some s' \<Longrightarrow> Term_EndOfLineAssertion = Some e \<Longrightarrow> collected e p \<Longrightarrow> floating_ok s p \<Longrightarrow>
   \<forall>t \<in> set ts. 0 \<notin> token_characters t \<Longrightarrow> PatternParser_calls ts p = Some p' \<Longrightarrow> collected e p'"
proof (induction ts arbitrary: s p)
  case (Cons t ts)
  obtain s1 where s1: "protocol_step t s = Some s1" "protocol_run ts s1 = Some s'"
    using Cons.prems(1) by (auto simp del: protocol_step.simps split: Option.bind_splits)
  obtain p1 where p1: "PatternParser_call t p = Some p1" "PatternParser_calls ts p1 = Some p'"
    using Cons.prems(6) by (auto split: Option.bind_splits)
  have "collected e p1 \<and> floating_ok s1 p1"
    using call_collected [OF s1(1) Cons.prems(2-4) _ p1(1)] Cons.prems(5) by simp
  then show ?case using Cons.IH [OF s1(2) Cons.prems(2) _ _ _ p1(2)] Cons.prems(5) by simp
qed simp

lemma call_keeps_follows:
  assumes "protocol_step t s = Some s'" "follows s p" "PatternParser_call t p = Some p'"
  shows "follows s' p'"
proof (cases "hasError p")
  case True
  then show ?thesis using assms(3) call_error by (simp add: follows_def)
next
  case False
  then have len: "length (m_openGroups p) = open_parentheses s" using assms(2) by (simp add: follows_def)
  note sink = sink_open_groups [of p]
  show ?thesis using False len sink assms(1,3)
    by (cases t) (auto simp: atomPatternCharacter_def atomBuiltInCharacterClass_def quantifyAtom_def assertionBOL_def
        assertionEOL_def atomCharacterClassBegin_def atomCharacterClassAtom_def atomCharacterClassRange_def
        atomParenthesesSubpatternBegin_def atomParenthesesEnd_def float_def follows_def Let_def simp del: upt_Suc
        split: if_splits)
qed

lemma calls_keep_follows:
  "protocol_run ts s = Some s' \<Longrightarrow> follows s p \<Longrightarrow> PatternParser_calls ts p = Some p' \<Longrightarrow> follows s' p'"
proof (induction ts arbitrary: s p)
  case (Cons t ts)
  obtain s1 where s1: "protocol_step t s = Some s1" "protocol_run ts s1 = Some s'"
    using Cons.prems(1) by (auto simp del: protocol_step.simps split: Option.bind_splits)
  obtain p1 where p1: "PatternParser_call t p = Some p1" "PatternParser_calls ts p1 = Some p'"
    using Cons.prems(3) by (auto split: Option.bind_splits)
  show ?case by (rule Cons.IH [OF s1(2) call_keeps_follows [OF s1(1) Cons.prems(2) p1(1)] p1(2)])
qed simp

lemma new_follows: "follows protocol_start (PatternParser_new b)"
  by (simp add: follows_def protocol_start_def PatternParser_new_def)

lemma new_collected: "collected e (PatternParser_new b)" "floating_ok protocol_start (PatternParser_new b)"
  by (simp_all add: collected_def floating_ok_def protocol_start_def PatternParser_new_def)

lemma yarr_protocol:
  "Yarr_parse limit pattern = (ts, err) \<Longrightarrow> \<exists>s. protocol_run ts protocol_start = Some s \<and>
    (err = NoError \<longrightarrow> \<not> in_class s \<and> open_parentheses s = 0)"
  using parse_tokens_run [of limit False 0 pattern ts err]
  by (auto simp: Yarr_parse_def outside_def protocol_start_def split: if_splits)

lemma finalize_returns: "\<exists>p' terms. PatternParser_finalize p = Some (p', terms)"
proof -
  obtain u where u: "Term_UniversalTransition = Some u" using Term_UniversalTransition_Some by blast
  have d: "canonicalDotStar = Some (quantify ZeroOrMore u)" by (simp add: canonicalDotStar_def u)
  show ?thesis by (simp add: PatternParser_finalize_def simplifySunkTerms_def d)
qed

lemma universal_value:
  "Term_UniversalTransition = Some (CharacterSetTerm One \<lparr>m_inverted = False, m_characters = [0xFFFFFFFFFFFFFFFE, 0xFFFFFFFFFFFFFFFF]\<rparr>)"
proof -
  obtain t where t: "Term_UniversalTransition = Some t" using Term_UniversalTransition_Some by blast
  obtain cs where cs: "t = CharacterSetTerm One cs" "cs_wf cs" "set_chars cs = any_chars" "\<not> m_inverted cs" "\<not> CharacterSet_get 0 cs"
    by (rule universal_term [OF t])
  obtain a b where ab: "m_characters cs = [a, b]" using cs(2) by (auto simp: cs_wf_def length_Suc_conv numeral_2_eq_2)
  have g: "CharacterSet_get i cs \<longleftrightarrow> i \<noteq> 0" if "i < 128" for i
  proof -
    have "int i \<in> set_chars cs \<longleftrightarrow> int i \<in> any_chars" using cs(3) by simp
    then show ?thesis using cs(4) that by (auto simp: set_chars_def any_chars_def)
  qed
  have "bit a i \<longleftrightarrow> i \<noteq> 0" if "i < 64" for i using g [of i] that ab by (simp add: CharacterSet_get_bit)
  then have a: "a = NOT 1" by (intro bit_word_eqI) (simp add: bit_not_iff bit_1_iff)
  have "bit b i" if "i < 64" for i using g [of "i + 64"] that ab by (simp add: CharacterSet_get_bit div_add_self2)
  then have b: "b = NOT 0" by (intro bit_word_eqI) (simp add: bit_not_iff)
  have "cs = \<lparr>m_inverted = False, m_characters = [a, b]\<rparr>" using cs(4) ab by (cases cs) simp
  moreover have "NOT 1 = (0xFFFFFFFFFFFFFFFE :: u64)" "NOT 0 = (0xFFFFFFFFFFFFFFFF :: u64)" by code_simp+
  ultimately show ?thesis using t cs(1) a b by (simp only:)
qed

lemma canonicalDotStar_value:
  "canonicalDotStar = Some (CharacterSetTerm ZeroOrMore \<lparr>m_inverted = False, m_characters = [0xFFFFFFFFFFFFFFFE, 0xFFFFFFFFFFFFFFFF]\<rparr>)"
  by (simp add: canonicalDotStar_def universal_value)

lemmas filter_eval = PatternParser_new_def hasError_def fail_def sinkFloatingTermIfNecessary_def float_def
  atomPatternCharacter_def quantifyAtom_def assertionBOL_def assertionEOL_def Term_character_def CharacterSet_set_def
  CharacterSet_get_def CharacterSet_new_def Term_new_def Term_EndOfLineAssertion_def CharacterSet_bitCount_def
  bitCount64_def bitCount32_def PatternParser_finalize_def simplifySunkTerms_def canonicalDotStar_value
  simplify_terms_def remove_trailing_dot_star_end_def add_leading_def remove_irrelevant_def quantifyInfinite_def
  Let_def isASCIIAlpha_def

section \<open>Assertions\<close>

text \<open>
  The debug and release assertions on the way of a call: those of the delegate, of
  \<open>Term::addCharacter\<close>, \<open>extendGroupSubpattern\<close> and \<open>quantify\<close>, of \<open>CharacterSet::set\<close> and of
  \<open>Deque::takeLast\<close>. Each condition is evaluated in the state before the call.
\<close>

fun is_character_set :: "Term \<Rightarrow> bool" where
  "is_character_set (CharacterSetTerm q cs) = True"
| "is_character_set t = False"

fun is_group :: "Term \<Rightarrow> bool" where
  "is_group (GroupTerm q ts) = True"
| "is_group t = False"

definition sink_asserts :: "PatternParser \<Rightarrow> bool" where
  "sink_asserts p \<longleftrightarrow>
     (if isValid (m_floatingTerm p) \<and> \<not> m_hasProcessedEndOfLineAssertion p \<and> m_openGroups p \<noteq> []
      then is_group (last (m_openGroups p)) else True) \<and>
     \<not> isValid (m_floatingTerm (sinkFloatingTermIfNecessary p))"

definition quantify_asserts :: "nat \<Rightarrow> nat \<Rightarrow> PatternParser \<Rightarrow> bool" where
  "quantify_asserts minimum maximum p \<longleftrightarrow> isValid (m_floatingTerm p) \<and>
     (if minimum = 0 \<and> maximum = 1 \<or> minimum = 0 \<and> maximum = quantifyInfinite \<or>
         minimum = 1 \<and> maximum = quantifyInfinite
      then m_quantifier (m_floatingTerm p) = One else True)"

fun call_asserts :: "token \<Rightarrow> PatternParser \<Rightarrow> bool" where
  "call_asserts (AtomPatternCharacter c) p = (hasError p \<or> \<not> c < 128 \<or> sink_asserts p)"
| "call_asserts (AtomBuiltInCharacterClass classID invert) p = (hasError p \<or> sink_asserts p)"
| "call_asserts (QuantifyAtom minimum maximum greedy) p = (hasError p \<or> quantify_asserts minimum maximum p)"
| "call_asserts AssertionEOL p = (hasError p \<or> sink_asserts p)"
| "call_asserts (AtomCharacterClassBegin invert) p = (hasError p \<or> sink_asserts p)"
| "call_asserts (AtomCharacterClassAtom c) p =
     (hasError p \<or> c < 128 \<and> is_character_set (m_floatingTerm p))"
| "call_asserts (AtomCharacterClassRange a b) p =
     (hasError p \<or> a \<noteq> 0 \<and> b \<noteq> 0 \<and> a < 128 \<and> b < 128 \<and> is_character_set (m_floatingTerm p))"
| "call_asserts (AtomParenthesesSubpatternBegin capture) p = (hasError p \<or> sink_asserts p)"
| "call_asserts AtomParenthesesEnd p = (hasError p \<or> sink_asserts p \<and> m_openGroups p \<noteq> [])"
| "call_asserts t p = True"

fun calls_assert :: "token list \<Rightarrow> PatternParser \<Rightarrow> bool" where
  "calls_assert [] p = True"
| "calls_assert (t # ts) p \<longleftrightarrow> call_asserts t p \<and>
     (case PatternParser_call t p of None \<Rightarrow> False | Some p' \<Rightarrow> calls_assert ts p')"

text \<open>
  \<open>finalize\<close> sinks the floating term and asks the questions about terms, which assert that the terms and
  the members of their groups are valid. \<open>CombinedURLFilters::addPattern\<close> asserts that it gets a term.
\<close>

fun term_valid :: "Term \<Rightarrow> bool" where
  "term_valid (EmptyTerm q) = False"
| "term_valid (CharacterSetTerm q cs) = True"
| "term_valid (GroupTerm q ts) = list_all term_valid ts"

definition finalize_asserts :: "PatternParser \<Rightarrow> bool" where
  "finalize_asserts p \<longleftrightarrow> hasError p \<or>
     sink_asserts p \<and> list_all term_valid (m_sunkTerms (sinkFloatingTermIfNecessary p)) \<and>
     (case PatternParser_finalize p of
        Some (p1, Some terms) \<Rightarrow> terms \<noteq> [] \<and> list_all term_valid terms
      | Some (p1, None) \<Rightarrow> list_all term_valid (m_sunkTerms p1)
      | None \<Rightarrow> False)"

definition filter_asserts :: "nat list \<Rightarrow> bool \<Rightarrow> bool" where
  "filter_asserts pattern patternIsCaseSensitive \<longleftrightarrow>
     (if \<not> list_all (\<lambda>c. c < 128) pattern \<or> pattern = [] then True
      else
        case Yarr_parse 0 pattern of (tokens, err) \<Rightarrow>
          calls_assert tokens (PatternParser_new patternIsCaseSensitive) \<and>
          (case PatternParser_calls tokens (PatternParser_new patternIsCaseSensitive) of
             None \<Rightarrow> False
           | Some p \<Rightarrow> (if err = NoError then finalize_asserts p else True)))"

text \<open>The calls that break an assertion: a class with a character above ASCII, or a range from the null character.\<close>

fun beyond_ascii :: "token \<Rightarrow> bool" where
  "beyond_ascii (AtomCharacterClassAtom c) = (128 \<le> c)"
| "beyond_ascii (AtomCharacterClassRange a b) = (128 \<le> b)"
| "beyond_ascii t = False"

fun from_null :: "token \<Rightarrow> bool" where
  "from_null (AtomCharacterClassRange a b) = (a = 0)"
| "from_null t = False"

definition good_group :: "Term \<Rightarrow> bool" where
  "good_group g \<longleftrightarrow> is_group g \<and> m_quantifier g = One \<and> term_valid g"

definition assert_inv :: "Protocol \<Rightarrow> PatternParser \<Rightarrow> bool" where
  "assert_inv s p \<longleftrightarrow> hasError p \<or>
     length (m_openGroups p) = open_parentheses s \<and> list_all good_group (m_openGroups p) \<and>
     list_all term_valid (m_sunkTerms p) \<and> (isValid (m_floatingTerm p) \<longrightarrow> term_valid (m_floatingTerm p)) \<and>
     (in_class s \<longrightarrow> is_character_set (m_floatingTerm p) \<and> m_quantifier (m_floatingTerm p) = One) \<and>
     (after_atom s \<and> \<not> in_class s \<longrightarrow> isValid (m_floatingTerm p) \<and> m_quantifier (m_floatingTerm p) = One)"

lemma good_extend: "good_group g \<Longrightarrow> term_valid t \<Longrightarrow> good_group (extendGroupSubpattern t g)"
  by (cases g) (auto simp: good_group_def)


lemma sink_inv:
  assumes "assert_inv s p" "\<not> hasError p"
  shows "sink_asserts p" "\<not> isValid (m_floatingTerm (sinkFloatingTermIfNecessary p))"
    "length (m_openGroups (sinkFloatingTermIfNecessary p)) = open_parentheses s"
    "list_all good_group (m_openGroups (sinkFloatingTermIfNecessary p))"
    "list_all term_valid (m_sunkTerms (sinkFloatingTermIfNecessary p))"
proof -
  have i: "length (m_openGroups p) = open_parentheses s" "list_all good_group (m_openGroups p)"
    "list_all term_valid (m_sunkTerms p)" "isValid (m_floatingTerm p) \<Longrightarrow> term_valid (m_floatingTerm p)"
    using assms by (simp_all add: assert_inv_def)
  have l: "good_group (last (m_openGroups p))" if "m_openGroups p \<noteq> []"
    using i(2) that by (simp add: list_all_iff)
  have b: "list_all good_group (butlast (m_openGroups p))"
    using i(2) by (auto simp: list_all_iff dest: in_set_butlastD)
  show v: "\<not> isValid (m_floatingTerm (sinkFloatingTermIfNecessary p))"
    by (simp add: sinkFloatingTermIfNecessary_def Let_def)
  show "sink_asserts p" using v l by (simp add: sink_asserts_def good_group_def)
  show "length (m_openGroups (sinkFloatingTermIfNecessary p)) = open_parentheses s"
    using i(1) sink_open_groups by simp
  show "list_all good_group (m_openGroups (sinkFloatingTermIfNecessary p))"
    using i(2,4) l b good_extend by (simp add: sinkFloatingTermIfNecessary_def Let_def)
  show "list_all term_valid (m_sunkTerms (sinkFloatingTermIfNecessary p))"
    using i(3,4) by (simp add: sinkFloatingTermIfNecessary_def Let_def)
qed

lemma addCharacter_set:
  "is_character_set t \<Longrightarrow> addCharacter c b t = Some t' \<Longrightarrow>
     is_character_set t' \<and> m_quantifier t' = m_quantifier t"
  by (cases t) (auto split: if_splits Option.bind_splits)

lemma addCharacter_None: "is_character_set t \<Longrightarrow> 128 \<le> c \<Longrightarrow> addCharacter c b t = None"
  by (cases t) (auto simp: CharacterSet_set_def isASCIIAlpha_def)

lemma add_characters_set:
  "is_character_set t \<Longrightarrow> add_characters b xs t = Some t' \<Longrightarrow>
     is_character_set t' \<and> m_quantifier t' = m_quantifier t"
proof (induction xs arbitrary: t)
  case (Cons x xs)
  then show ?case using addCharacter_set [of t x b] by (fastforce split: Option.bind_splits)
qed simp

lemma add_characters_None: "is_character_set t \<Longrightarrow> \<exists>c \<in> set xs. 128 \<le> c \<Longrightarrow> add_characters b xs t = None"
proof (induction xs arbitrary: t)
  case (Cons x xs)
  show ?case
  proof (cases "addCharacter x b t")
    case (Some t1)
    then have "\<not> 128 \<le> x" using addCharacter_None [OF Cons.prems(1)] by auto
    then show ?thesis using Some Cons addCharacter_set [OF Cons.prems(1) Some] by simp
  qed simp
qed simp

lemma set_valid: "is_character_set t \<Longrightarrow> isValid t \<and> term_valid t"
  by (cases t) simp_all

lemma call_beyond_ascii:
  assumes "protocol_step t s = Some s'" "assert_inv s p" "\<not> hasError p" "beyond_ascii t"
  shows "PatternParser_call t p = None"
proof (cases t)
  case (AtomCharacterClassAtom c)
  then have "is_character_set (m_floatingTerm p)" using assms by (auto simp: assert_inv_def split: if_splits)
  then show ?thesis using AtomCharacterClassAtom assms(3,4) by (simp add: atomCharacterClassAtom_def float_def addCharacter_None)
next
  case (AtomCharacterClassRange a b)
  then have i: "is_character_set (m_floatingTerm p)" "a \<le> b" using assms by (auto simp: assert_inv_def split: if_splits)
  moreover have "b \<in> set [a..<b + 1]" "128 \<le> b" using i AtomCharacterClassRange assms(4) by auto
  ultimately have "add_characters (m_patternIsCaseSensitive p) [a..<b + 1] (m_floatingTerm p) = None"
    by (intro add_characters_None) blast+
  then show ?thesis using AtomCharacterClassRange assms(3) by (simp add: atomCharacterClassRange_def float_def del: upt_Suc)
qed (use assms(4) in auto)

lemma character_terms:
  "Term_character c b = Some t \<Longrightarrow> is_character_set t \<and> m_quantifier t = One"
  "Term_UniversalTransition = Some t \<Longrightarrow> is_character_set t \<and> m_quantifier t = One"
  "Term_EndOfLineAssertion = Some t \<Longrightarrow> is_character_set t \<and> m_quantifier t = One"
  "is_character_set (Term_CharacterSet v) \<and> m_quantifier (Term_CharacterSet v) = One"
  using addCharacter_set [of "CharacterSetTerm One CharacterSet_new" c b t]
  by (auto simp: Term_character_def Term_UniversalTransition_def Term_EndOfLineAssertion_def Term_CharacterSet_def)

lemma float_inv:
  assumes "assert_inv s p" "\<not> hasError p" "is_character_set t" "m_quantifier t = One"
    "open_parentheses s' = open_parentheses s"
  shows "assert_inv s' ((sinkFloatingTermIfNecessary p)\<lparr>m_floatingTerm := t\<rparr>)"
  using sink_inv [OF assms(1,2)] assms(3-5) set_valid [OF assms(3)] by (simp add: assert_inv_def)

lemma failed_inv: "hasError p \<Longrightarrow> assert_inv s p"
  by (simp add: assert_inv_def)

lemma call_inv:
  assumes step: "protocol_step t s = Some s'" and i: "assert_inv s p" and ok: "\<not> hasError p" and b: "\<not> beyond_ascii t"
  shows "\<exists>p'. PatternParser_call t p = Some p' \<and> assert_inv s' p' \<and> (call_asserts t p \<longleftrightarrow> \<not> from_null t)"
proof -
  note sink = sink_inv [OF i ok]
  note fl = float_inv [OF i ok]
  have set: "is_character_set (m_floatingTerm p)" "m_quantifier (m_floatingTerm p) = One" "s' = s"
    if "class_token t" using that step i ok by (cases t; auto simp: assert_inv_def split: if_splits)+
  show ?thesis
  proof (cases t)
    case (AtomPatternCharacter c)
    show ?thesis
    proof (cases "c < 128")
      case True
      then obtain u where u: "Term_character c (m_patternIsCaseSensitive p) = Some u" using Term_character_Some by blast
      have "open_parentheses s' = open_parentheses s" using step AtomPatternCharacter by (auto split: if_splits)
      then show ?thesis using AtomPatternCharacter True ok u sink(1) fl [of u s'] character_terms(1) [OF u]
        by (simp add: atomPatternCharacter_def float_def)
    next
      case False
      then show ?thesis using AtomPatternCharacter ok failed_inv by (simp add: atomPatternCharacter_def)
    qed
  next
    case (AtomBuiltInCharacterClass c v)
    obtain u where u: "Term_UniversalTransition = Some u" using Term_UniversalTransition_Some by blast
    have "open_parentheses s' = open_parentheses s" using step AtomBuiltInCharacterClass by (auto split: if_splits)
    then show ?thesis using AtomBuiltInCharacterClass ok u sink(1) fl [of u s'] character_terms(2) [OF u] failed_inv
      by (auto simp: atomBuiltInCharacterClass_def float_def Let_def)
  next
    case AssertionEOL
    obtain u where u: "Term_EndOfLineAssertion = Some u" using Term_EndOfLineAssertion_Some by blast
    have "open_parentheses s' = open_parentheses s" using step AssertionEOL by (auto split: if_splits)
    then show ?thesis using AssertionEOL ok u sink(1) fl [of u s'] character_terms(3) [OF u]
      by (auto simp: assertionEOL_def float_def)
  next
    case (AtomCharacterClassBegin v)
    have "open_parentheses s' = open_parentheses s" using step AtomCharacterClassBegin by (auto split: if_splits)
    then show ?thesis using AtomCharacterClassBegin ok sink(1) fl [of "Term_CharacterSet v" s'] character_terms(4) [of v]
      by (simp add: atomCharacterClassBegin_def float_def)
  next
    case (AtomCharacterClassAtom c)
    then obtain u where u: "addCharacter c (m_patternIsCaseSensitive p) (m_floatingTerm p) = Some u"
      using addCharacter_Some b by fastforce
    have "assert_inv s (p\<lparr>m_floatingTerm := u\<rparr>)"
      using i ok addCharacter_set [OF _ u] set AtomCharacterClassAtom set_valid [of u] by (simp add: assert_inv_def hasError_def)
    then show ?thesis using AtomCharacterClassAtom ok u b set by (simp add: atomCharacterClassAtom_def float_def)
  next
    case (AtomCharacterClassRange a c)
    then have ac: "a \<le> c" using step by (auto split: if_splits)
    have "\<forall>x \<in> set [a..<c + 1]. x < 128" using AtomCharacterClassRange b by auto
    then obtain u where u: "add_characters (m_patternIsCaseSensitive p) [a..<c + 1] (m_floatingTerm p) = Some u"
      using add_characters_Some by blast
    have "assert_inv s (p\<lparr>m_floatingTerm := u\<rparr>)"
      using i ok add_characters_set [OF _ u] set AtomCharacterClassRange set_valid [of u] ac by (simp add: assert_inv_def hasError_def)
    then show ?thesis using AtomCharacterClassRange ok u b set ac
      by (auto simp: atomCharacterClassRange_def float_def simp del: upt_Suc)
  next
    case (QuantifyAtom mi ma g)
    then have s: "\<not> in_class s" "after_atom s" "s' = s\<lparr>after_atom := False\<rparr>" using step by (auto split: if_splits)
    have f: "term_valid (quantify q (m_floatingTerm p))" "isValid (m_floatingTerm p)" "m_quantifier (m_floatingTerm p) = One" for q
      using i ok s(1,2) by (cases "m_floatingTerm p"; simp add: assert_inv_def)+
    have "assert_inv s' (p\<lparr>m_floatingTerm := quantify q (m_floatingTerm p)\<rparr>)" for q
      using i ok s f by (simp add: assert_inv_def)
    then show ?thesis using QuantifyAtom ok f failed_inv
      by (simp add: quantifyAtom_def quantify_asserts_def float_def)
  next
    case (AtomParenthesesSubpatternBegin c)
    have "s' = s\<lparr>open_parentheses := open_parentheses s + 1, after_atom := False\<rparr>" "\<not> in_class s"
      using step AtomParenthesesSubpatternBegin by (auto split: if_splits)
    then have "assert_inv s' ((sinkFloatingTermIfNecessary p)\<lparr>m_openGroups := m_openGroups (sinkFloatingTermIfNecessary p) @ [Term_Group]\<rparr>)"
      using sink by (simp add: assert_inv_def good_group_def Term_Group_def)
    then show ?thesis using AtomParenthesesSubpatternBegin ok sink(1) by (simp add: atomParenthesesSubpatternBegin_def Let_def)
  next
    case AtomParenthesesEnd
    have s: "s' = s\<lparr>open_parentheses := open_parentheses s - 1, after_atom := True\<rparr>" "\<not> in_class s" "0 < open_parentheses s"
      using step AtomParenthesesEnd by (auto split: if_splits)
    let ?p = "sinkFloatingTermIfNecessary p"
    have ne: "m_openGroups ?p \<noteq> []" "m_openGroups p \<noteq> []" using sink(3) sink_open_groups [of p] s(3) by auto
    have l: "good_group (last (m_openGroups ?p))" using sink(4) ne by (simp add: list_all_iff)
    then have "isValid (last (m_openGroups ?p))" by (cases "last (m_openGroups ?p)") (simp_all add: good_group_def)
    moreover have "list_all good_group (butlast (m_openGroups ?p))"
      using sink(4) by (auto simp: list_all_iff dest: in_set_butlastD)
    ultimately have "assert_inv s' (?p\<lparr>m_floatingTerm := last (m_openGroups ?p), m_openGroups := butlast (m_openGroups ?p)\<rparr>)"
      using sink l s by (simp add: assert_inv_def good_group_def)
    then show ?thesis using AtomParenthesesEnd ok sink(1) ne by (simp add: atomParenthesesEnd_def Let_def)
  next
    case AssertionBOL
    have "s' = s\<lparr>after_atom := False\<rparr>" "\<not> in_class s" using step AssertionBOL by (auto split: if_splits)
    then have "assert_inv s' (p\<lparr>m_hasBeginningOfLineAssertion := True\<rparr>)" using i ok by (simp add: assert_inv_def hasError_def)
    then show ?thesis using AssertionBOL ok failed_inv by (simp add: assertionBOL_def)
  next
    case AtomCharacterClassEnd
    have "s' = s\<lparr>in_class := False, after_atom := True\<rparr>" "in_class s" using step AtomCharacterClassEnd by (auto split: if_splits)
    then show ?thesis using AtomCharacterClassEnd i ok set_valid [of "m_floatingTerm p"] by (auto simp: assert_inv_def)
  qed (use failed_inv in simp_all)
qed


text \<open>A call that breaks an assertion is reached when the calls before it return without an error.\<close>

definition reaches :: "(token \<Rightarrow> bool) \<Rightarrow> token list \<Rightarrow> PatternParser \<Rightarrow> bool" where
  "reaches bad ts p \<longleftrightarrow> (\<exists>pre t post p'. ts = pre @ t # post \<and> PatternParser_calls pre p = Some p' \<and>
     \<not> hasError p' \<and> bad t)"

lemma reaches_Nil [simp]: "\<not> reaches bad [] p"
  by (simp add: reaches_def)

lemma reaches_Cons:
  "reaches bad (t # ts) p \<longleftrightarrow> \<not> hasError p \<and> bad t \<or>
     (\<exists>p'. PatternParser_call t p = Some p' \<and> reaches bad ts p')"
proof
  assume "reaches bad (t # ts) p"
  then obtain pre u post p' where h: "t # ts = pre @ u # post" "PatternParser_calls pre p = Some p'" "\<not> hasError p'" "bad u"
    by (auto simp: reaches_def)
  then show "\<not> hasError p \<and> bad t \<or> (\<exists>p'. PatternParser_call t p = Some p' \<and> reaches bad ts p')"
    by (cases pre) (auto simp: reaches_def split: Option.bind_splits)
next
  assume "\<not> hasError p \<and> bad t \<or> (\<exists>p'. PatternParser_call t p = Some p' \<and> reaches bad ts p')"
  then show "reaches bad (t # ts) p"
  proof
    assume "\<not> hasError p \<and> bad t"
    then show ?thesis unfolding reaches_def by (intro exI [of _ "[]"]) auto
  next
    assume "\<exists>p'. PatternParser_call t p = Some p' \<and> reaches bad ts p'"
    then obtain p1 pre u post p' where "PatternParser_call t p = Some p1" "ts = pre @ u # post"
      "PatternParser_calls pre p1 = Some p'" "\<not> hasError p'" "bad u"
      by (auto simp: reaches_def)
    then show ?thesis unfolding reaches_def by (intro exI [of _ "t # pre"]) auto
  qed
qed

lemma error_asserts: "hasError p \<Longrightarrow> call_asserts t p"
  by (cases t) simp_all

lemma error_calls: "hasError p \<Longrightarrow> PatternParser_calls ts p = Some p" "hasError p \<Longrightarrow> calls_assert ts p"
  "hasError p \<Longrightarrow> \<not> reaches bad ts p"
  by (induction ts) (simp_all add: call_error error_asserts reaches_Cons)

definition breaks_assertion :: "token \<Rightarrow> bool" where
  "breaks_assertion t \<longleftrightarrow> beyond_ascii t \<or> from_null t"

lemma calls_exact:
  assumes "protocol_run ts s = Some s'" "assert_inv s p"
  shows "(calls_assert ts p \<longleftrightarrow> \<not> reaches breaks_assertion ts p) \<and>
    (PatternParser_calls ts p = None \<longleftrightarrow> reaches beyond_ascii ts p) \<and>
    (\<forall>p'. PatternParser_calls ts p = Some p' \<longrightarrow> assert_inv s' p')"
  using assms
proof (induction ts arbitrary: s p)
  case (Cons t ts)
  then obtain s1 where s1: "protocol_step t s = Some s1" "protocol_run ts s1 = Some s'"
    by (auto simp del: protocol_step.simps split: Option.bind_splits)
  show ?case
  proof (cases "hasError p")
    case True
    then show ?thesis using error_calls failed_inv by (auto simp del: PatternParser_calls.simps calls_assert.simps)
  next
    case ok: False
    show ?thesis
    proof (cases "beyond_ascii t")
      case True
      then show ?thesis using call_beyond_ascii [OF s1(1) Cons.prems(2) ok] ok
        by (simp add: reaches_Cons breaks_assertion_def)
    next
      case False
      obtain p1 where p1: "PatternParser_call t p = Some p1" "assert_inv s1 p1" "call_asserts t p \<longleftrightarrow> \<not> from_null t"
        using call_inv [OF s1(1) Cons.prems(2) ok False] by blast
      then show ?thesis using Cons.IH [OF s1(2) p1(2)] ok False by (auto simp: reaches_Cons breaks_assertion_def)
    qed
  qed
qed simp

lemma new_inv: "assert_inv protocol_start (PatternParser_new b)"
  by (simp add: assert_inv_def protocol_start_def PatternParser_new_def)

lemma canonicalize_valid: "term_valid d \<Longrightarrow> list_all term_valid ts \<Longrightarrow> list_all term_valid (canonicalize d a ts)"
  by (induction d a ts rule: canonicalize.induct) auto

lemma simplify_members:
  "set (remove_irrelevant ts) \<subseteq> set ts" "set (remove_trailing_dot_star_end ts) \<subseteq> set ts"
  "set (add_leading d b ts) \<subseteq> insert d (set ts)"
  by (auto simp: remove_irrelevant_def remove_trailing_dot_star_end_def add_leading_def
      dest: set_dropWhileD in_set_takeD)

lemma simplify_valid: "term_valid d \<Longrightarrow> list_all term_valid ts \<Longrightarrow> list_all term_valid (simplify_terms d b ts)"
  using canonicalize_valid [of d ts False] simplify_members
  unfolding simplify_terms_def Let_def list_all_iff by (smt (verit) insert_iff subsetD empty_iff empty_set)

lemma finalize_ok_asserts:
  assumes "assert_inv s p"
  shows "finalize_asserts p"
proof (cases "hasError p")
  case False
  let ?s = "sinkFloatingTermIfNecessary p"
  obtain u where u: "Term_UniversalTransition = Some u" using Term_UniversalTransition_Some by blast
  have d: "canonicalDotStar = Some (quantify ZeroOrMore u)" by (simp add: canonicalDotStar_def u)
  have "term_valid (quantify ZeroOrMore u)" using character_terms(2) [OF u] by (cases u) simp_all
  note v = simplify_valid [OF this sink_inv(5) [OF assms False]]
  show ?thesis
    using sink_inv [OF assms False] v False
    by (auto simp: finalize_asserts_def PatternParser_finalize_def simplifySunkTerms_def d list_ex_iff)
qed (simp add: finalize_asserts_def)

lemma filter_exact:
  assumes "list_all (\<lambda>c. c < 128) pattern" "pattern \<noteq> []"
  shows "parse_url_filter pattern b = None \<longleftrightarrow> reaches beyond_ascii (fst (Yarr_parse 0 pattern)) (PatternParser_new b)"
    "filter_asserts pattern b \<longleftrightarrow> \<not> reaches breaks_assertion (fst (Yarr_parse 0 pattern)) (PatternParser_new b)"
proof -
  obtain ts err where y: "Yarr_parse 0 pattern = (ts, err)" by (cases "Yarr_parse 0 pattern")
  obtain s where s: "protocol_run ts protocol_start = Some s" using yarr_protocol [OF y] by blast
  note ex = calls_exact [OF s new_inv [of b]]
  show "parse_url_filter pattern b = None \<longleftrightarrow> reaches beyond_ascii (fst (Yarr_parse 0 pattern)) (PatternParser_new b)"
  proof (cases "PatternParser_calls ts (PatternParser_new b)")
    case None
    then show ?thesis using ex assms y by (simp add: parse_url_filter_def)
  next
    case (Some p)
    then show ?thesis using ex assms y finalize_returns [of p] by (auto simp: parse_url_filter_def)
  qed
  show "filter_asserts pattern b \<longleftrightarrow> \<not> reaches breaks_assertion (fst (Yarr_parse 0 pattern)) (PatternParser_new b)"
  proof (cases "PatternParser_calls ts (PatternParser_new b)")
    case None
    then have "reaches beyond_ascii ts (PatternParser_new b)" using ex by blast
    then have "reaches breaks_assertion ts (PatternParser_new b)" by (auto simp: reaches_def breaks_assertion_def)
    then show ?thesis using None assms y by (simp add: filter_asserts_def)
  next
    case (Some p)
    then show ?thesis using ex assms y finalize_ok_asserts [of s p] by (auto simp: filter_asserts_def)
  qed
qed

section \<open>Properties\<close>

text \<open>
  C17. A filter whose classes have only ASCII characters is parsed to the end without a failed release
  assertion: whatever the pattern, the parser answers with a status. When in addition no range of a class
  starts at the null character, all the debug assertions of the calls, of the terms and of \<open>finalize\<close> hold
  as well.
\<close>

theorem parse_url_filter_returns:
  assumes "list_all (\<lambda>t. \<not> beyond_ascii t) (fst (Yarr_parse 0 pattern))"
  shows "(\<exists>status terms. parse_url_filter pattern patternIsCaseSensitive = Some (status, terms)) \<and>
    (list_all (\<lambda>t. \<not> from_null t) (fst (Yarr_parse 0 pattern)) \<longrightarrow> filter_asserts pattern patternIsCaseSensitive)"
proof (cases "list_all (\<lambda>c. c < 128) pattern \<and> pattern \<noteq> []")
  case True
  have "\<not> reaches beyond_ascii (fst (Yarr_parse 0 pattern)) (PatternParser_new patternIsCaseSensitive)"
    using assms by (auto simp: reaches_def)
  moreover have "\<not> reaches breaks_assertion (fst (Yarr_parse 0 pattern)) (PatternParser_new patternIsCaseSensitive)"
    if "list_all (\<lambda>t. \<not> from_null t) (fst (Yarr_parse 0 pattern))"
    using assms that by (auto simp: reaches_def breaks_assertion_def)
  ultimately show ?thesis
    using filter_exact [of pattern patternIsCaseSensitive] True by auto
next
  case False
  then show ?thesis by (auto simp: parse_url_filter_def filter_asserts_def)
qed

theorem parse_url_filter_returns_witness:
  "(\<exists>status terms. parse_url_filter example_pattern True = Some (status, terms)) \<and> filter_asserts example_pattern True"
proof -
  have "list_all (\<lambda>t. \<not> beyond_ascii t) (fst (Yarr_parse 0 example_pattern))"
    "list_all (\<lambda>t. \<not> from_null t) (fst (Yarr_parse 0 example_pattern))" by code_simp+
  then show ?thesis using parse_url_filter_returns by blast
qed

text \<open>
  C18. The simplification of the terms does not change what a filter matches: when a filter without null
  characters is accepted, the terms passed on match a URL from its start exactly when the terms as they
  were read match it, from the start for a filter with \<open>^\<close> and from anywhere for one without.
\<close>

theorem simplified_filter_matches_same:
  assumes "parse_url_filter pattern patternIsCaseSensitive = Some (Ok, Some terms)"
    "\<forall>t \<in> set (fst (Yarr_parse 0 pattern)). 0 \<notin> token_characters t"
  shows "\<exists>p. PatternParser_calls (fst (Yarr_parse 0 pattern)) (PatternParser_new patternIsCaseSensitive) = Some p \<and>
    (\<forall>url \<in> lists {1..127}. terms_match True terms url =
       terms_match (m_hasBeginningOfLineAssertion p) (m_sunkTerms (sinkFloatingTermIfNecessary p)) url)"
proof -
  obtain ts err where y: "Yarr_parse 0 pattern = (ts, err)" by (cases "Yarr_parse 0 pattern")
  then obtain p p1 where p: "PatternParser_calls ts (PatternParser_new patternIsCaseSensitive) = Some p" "err = NoError"
    "PatternParser_finalize p = Some (p1, Some terms)" "m_parseStatus p1 = Ok"
    using assms(1) by (auto simp: parse_url_filter_def split: if_splits Option.bind_splits)
  let ?s = "sinkFloatingTermIfNecessary p"
  obtain d where dot: "canonicalDotStar = Some d"
    using p(3) by (auto simp: PatternParser_finalize_def simplifySunkTerms_def split: if_splits Option.bind_splits)
  have d: "canonicalDotStar = Some d" "terms = simplify_terms d (m_hasBeginningOfLineAssertion ?s) (m_sunkTerms ?s)"
    "\<not> hasError p" "\<not> hasError ?s" "terms \<noteq> []"
    using p(3,4) by (auto simp: PatternParser_finalize_def simplifySunkTerms_def hasError_def list_ex_iff dot
        split: if_splits)
  obtain s where s: "protocol_run ts protocol_start = Some s" "open_parentheses s = 0"
    using yarr_protocol [OF y] p(2) by blast
  obtain e where e: "Term_EndOfLineAssertion = Some e" using Term_EndOfLineAssertion_Some by blast
  have "collected e p" using calls_collected [OF s(1) e new_collected _ p(1)] assms(2) y by simp
  note c = sink_collected [OF e this d(3)]
  have "m_openGroups ?s = []"
    using calls_keep_follows [OF s(1) new_follows p(1)] s(2) d(3) sink_open_groups [of p] by (simp add: follows_def)
  then have "list_all text_term (m_sunkTerms ?s) \<or> (\<exists>us. m_sunkTerms ?s = us @ [e] \<and> list_all text_term us)"
    using c d(4) by (auto simp: collected_def split: if_splits)
  moreover have "m_sunkTerms ?s \<noteq> []" using d(2,5) by (auto simp: simplify_terms_def)
  moreover have "m_hasBeginningOfLineAssertion ?s = m_hasBeginningOfLineAssertion p"
    by (simp add: sinkFloatingTermIfNecessary_def fail_def Let_def)
  ultimately have "terms_match True terms url = terms_match (m_hasBeginningOfLineAssertion p) (m_sunkTerms ?s) url"
    if "url \<in> lists any_chars" for url
    using simplify_text [OF d(1) that] simplify_end [OF d(1) that _ e] d(2) by auto
  then show ?thesis using p(1) y by (auto simp: any_chars_def)
qed

text \<open>The filter \<open>^ab?\<close>.\<close>

definition optional_filter :: "nat list" where
  "optional_filter = [94, 97, 98, 63]"

theorem simplified_filter_matches_same_witness:
  "\<exists>terms p. parse_url_filter optional_filter True = Some (Ok, Some terms) \<and> length terms = 1 \<and>
     PatternParser_calls (fst (Yarr_parse 0 optional_filter)) (PatternParser_new True) = Some p \<and>
     (\<forall>url \<in> lists {1..127}. terms_match True terms url =
       terms_match (m_hasBeginningOfLineAssertion p) (m_sunkTerms (sinkFloatingTermIfNecessary p)) url)"
proof -
  define terms where "terms = [CharacterSetTerm One \<lparr>m_inverted = False, m_characters = [0, 0x200000000]\<rparr>]"
  have y: "Yarr_parse 0 optional_filter = ([AssertionBOL, AtomPatternCharacter 97, AtomPatternCharacter 98, QuantifyAtom 0 1 True], NoError)"
    by code_simp
  have h: "parse_url_filter optional_filter True = Some (Ok, Some terms)"
    unfolding parse_url_filter_def y terms_def by (simp add: filter_eval optional_filter_def)
  have "\<forall>t \<in> set (fst (Yarr_parse 0 optional_filter)). 0 \<notin> token_characters t" by (simp add: y)
  then show ?thesis using simplified_filter_matches_same [OF h] h by (auto simp: terms_def)
qed

text \<open>
  C19. A class with a character above ASCII, which an escape can name in an ASCII filter, is not rejected
  with a status: the parser has no result, because the release assertion of \<open>CharacterSet::set\<close> fails,
  exactly for the filters in which such a class is reached before any error. An assertion fails in a
  debug build exactly when such a class or a range from the null character is reached. The instances:
  \<open>[\xff]\<close> and \<open>[\0-a]\<close>.
\<close>

theorem class_escape_fails_assertion:
  assumes "list_all (\<lambda>c. c < 128) pattern" "pattern \<noteq> []" "Yarr_parse 0 pattern = (ts, err)"
  shows "(parse_url_filter pattern patternIsCaseSensitive = None \<longleftrightarrow>
      (\<exists>pre t post p. ts = pre @ t # post \<and> PatternParser_calls pre (PatternParser_new patternIsCaseSensitive) = Some p \<and>
         \<not> hasError p \<and> beyond_ascii t)) \<and>
    (\<not> filter_asserts pattern patternIsCaseSensitive \<longleftrightarrow>
      (\<exists>pre t post p. ts = pre @ t # post \<and> PatternParser_calls pre (PatternParser_new patternIsCaseSensitive) = Some p \<and>
         \<not> hasError p \<and> (beyond_ascii t \<or> from_null t)))"
  using filter_exact [OF assms(1,2), of patternIsCaseSensitive] assms(3)
  by (simp add: reaches_def breaks_assertion_def)

theorem class_escape_fails_assertion_witness:
  "parse_url_filter [91, 92, 120, 102, 102, 93] True = None \<and>
   parse_url_filter [91, 92, 48, 45, 97, 93] True \<noteq> None \<and> \<not> filter_asserts [91, 92, 48, 45, 97, 93] True"
proof -
  have y1: "Yarr_parse 0 [91, 92, 120, 102, 102, 93] =
      ([AtomCharacterClassBegin False] @ AtomCharacterClassAtom 255 # [AtomCharacterClassEnd], NoError)" by code_simp
  have y2: "Yarr_parse 0 [91, 92, 48, 45, 97, 93] =
      ([AtomCharacterClassBegin False] @ AtomCharacterClassRange 0 97 # [AtomCharacterClassEnd], NoError)" by code_simp
  obtain p where p: "PatternParser_calls [AtomCharacterClassBegin False] (PatternParser_new True) = Some p" "\<not> hasError p"
    by (simp add: filter_eval atomCharacterClassBegin_def)
  have ascii: "list_all (\<lambda>c. c < 128) [91, 92, 120, 102, 102, 93 :: nat]" "list_all (\<lambda>c. c < 128) [91, 92, 48, 45, 97, 93 :: nat]"
    by simp_all
  have 1: "parse_url_filter [91, 92, 120, 102, 102, 93] True = None"
    by (rule iffD2 [OF conjunct1 [OF class_escape_fails_assertion [OF ascii(1) _ y1]]])
      (simp, rule exI [of _ "[AtomCharacterClassBegin False]"], rule exI [of _ "AtomCharacterClassAtom 255"],
        rule exI [of _ "[AtomCharacterClassEnd]"], rule exI [of _ p], use p in simp)
  have 2: "\<not> filter_asserts [91, 92, 48, 45, 97, 93] True"
    by (rule iffD2 [OF conjunct2 [OF class_escape_fails_assertion [OF ascii(2) _ y2]]])
      (simp, rule exI [of _ "[AtomCharacterClassBegin False]"], rule exI [of _ "AtomCharacterClassRange 0 97"],
        rule exI [of _ "[AtomCharacterClassEnd]"], rule exI [of _ p], use p in simp)
  have "\<not> beyond_ascii t" if "[AtomCharacterClassBegin False] @ AtomCharacterClassRange 0 97 # [AtomCharacterClassEnd] = pre @ t # post" for pre t post
  proof -
    have "t \<in> set ([AtomCharacterClassBegin False] @ AtomCharacterClassRange 0 97 # [AtomCharacterClassEnd])" unfolding that by simp
    then show ?thesis by auto
  qed
  then have "parse_url_filter [91, 92, 48, 45, 97, 93] True \<noteq> None"
    using conjunct1 [OF class_escape_fails_assertion [OF ascii(2) _ y2, of True]] by blast
  then show ?thesis using 1 2 by blast
qed

text \<open>
  C20. The filter \<open>^a?$\<close> is rejected with the status that it matches everything, although its terms as
  they were read do not match the URL \<open>b\<close>: the end of line assertion does not count as a term that
  restricts the matches. (The parser passes no terms on for it; \<open>compileRuleList\<close> takes the status for a
  rule whose actions apply to every URL.)
\<close>

theorem anchored_filter_matches_everything:
  "parse_url_filter [94, 97, 63, 36] True = Some (MatchesEverything, None) \<and>
   (\<exists>p. PatternParser_calls (fst (Yarr_parse 0 [94, 97, 63, 36])) (PatternParser_new True) = Some p \<and>
     m_hasBeginningOfLineAssertion p \<and> \<not> terms_match True (m_sunkTerms (sinkFloatingTermIfNecessary p)) [98])"
proof -
  have y: "Yarr_parse 0 [94, 97, 63, 36] =
      ([AssertionBOL, AtomPatternCharacter 97, QuantifyAtom 0 1 True, AssertionEOL], NoError)" by code_simp
  define cs where "cs = \<lparr>m_inverted = False, m_characters = [0, 0x200000000 :: u64]\<rparr>"
  obtain e where e: "Term_EndOfLineAssertion = Some e" using Term_EndOfLineAssertion_Some by blast
  have p: "\<exists>p. PatternParser_calls (fst (Yarr_parse 0 [94, 97, 63, 36])) (PatternParser_new True) = Some p \<and>
      m_hasBeginningOfLineAssertion p \<and> m_sunkTerms (sinkFloatingTermIfNecessary p) = [CharacterSetTerm ZeroOrOne cs, e]"
    using e by (auto simp: y filter_eval cs_def)
  have "98 \<notin> set_chars cs" by (simp add: set_chars_def CharacterSet_get_def cs_def)
  then have "\<not> terms_match True [CharacterSetTerm ZeroOrOne cs, e] [98]"
    by (auto simp: terms_match_def lmatch_def end_of_line(1) [OF e] conc_def Cons_eq_append_conv)
  moreover have "parse_url_filter [94, 97, 63, 36] True = Some (MatchesEverything, None)"
    unfolding parse_url_filter_def y by (simp add: filter_eval)
  ultimately show ?thesis using p by fastforce
qed



end
