(* ===== verification/Rule_Actions.thy ===== *)
theory Rule_Actions
  imports Prelude "HOL-Library.Monad_Syntax"
begin

text \<open>
  \<open>ContentExtensionActions.h\<close>, \<open>ContentExtensionRule.h\<close>, \<open>ContentExtensionRule.cpp\<close> and
  \<open>serializeSelector\<close> of \<open>ContentExtensionCompiler.cpp\<close>: rules, their actions, and the bytes an action
  is stored in. A vector of serialized actions is the concatenation of items; a location is the offset
  of an item. The last section shows that reading at the location of an item gives the item back.
\<close>

section \<open>Strings\<close>

text \<open>
  \<open>WTF::String\<close>: its UTF-16 code units and whether it stores them in 8 bits. Two strings are equal when
  their characters are. Where the width is not observable a string is the list of its code units.
\<close>

type_synonym UChars = "nat list"

record WString =
  characters :: UChars
  is8Bit :: bool

definition string_equal :: "WString \<Rightarrow> WString \<Rightarrow> bool" where
  "string_equal s t \<longleftrightarrow> characters s = characters t"

definition string_wf :: "WString \<Rightarrow> bool" where
  "string_wf s \<longleftrightarrow> list_all (\<lambda>c. c < (if is8Bit s then 2 ^ 8 else 2 ^ 16)) (characters s)"

text \<open>\<open>StringBuilder\<close>: appending a 16-bit string widens the buffer, appending nothing does not.\<close>

definition StringBuilder_new :: WString where
  "StringBuilder_new = \<lparr>characters = [], is8Bit = True\<rparr>"

definition StringBuilder_append :: "WString \<Rightarrow> WString \<Rightarrow> WString" where
  "StringBuilder_append b s =
     (if characters s = [] then b
      else \<lparr>characters = characters b @ characters s, is8Bit = (is8Bit b \<and> is8Bit s)\<rparr>)"

definition StringBuilder_append_char :: "WString \<Rightarrow> nat \<Rightarrow> WString" where
  "StringBuilder_append_char b c =
     \<lparr>characters = characters b @ [c], is8Bit = (is8Bit b \<and> c < 2 ^ 8)\<rparr>"

section \<open>Rules\<close>

datatype ActionType = BlockLoad | BlockCookies | CSSDisplayNoneSelector | CSSDisplayNoneStyleSheet
  | IgnorePreviousRules | MakeHTTPS | InvalidAction

type_synonym ResourceFlags = u16

datatype DomainCondition = NoDomainCondition | IfDomain | UnlessDomain

record Trigger =
  urlFilter :: UChars
  urlFilterIsCaseSensitive :: bool
  trigger_flags :: ResourceFlags
  domains :: "UChars list"
  domainCondition :: DomainCondition

definition Trigger_new :: Trigger where
  "Trigger_new = \<lparr>urlFilter = [], urlFilterIsCaseSensitive = False, trigger_flags = 0, domains = [],
     domainCondition = NoDomainCondition\<rparr>"

definition Trigger_isEmpty :: "Trigger \<Rightarrow> bool" where
  "Trigger_isEmpty t \<longleftrightarrow> urlFilter t = [] \<and> \<not> urlFilterIsCaseSensitive t \<and> trigger_flags t = 0
     \<and> domains t = [] \<and> domainCondition t = NoDomainCondition"

record Action =
  m_extensionIdentifier :: "UChars option"
  m_type :: ActionType
  m_actionID :: nat
  m_stringArgument :: "WString option"

definition Action_new :: Action where
  "Action_new = \<lparr>m_extensionIdentifier = None, m_type = InvalidAction, m_actionID = u32_max,
     m_stringArgument = None\<rparr>"

definition Action_of_string :: "ActionType \<Rightarrow> WString \<Rightarrow> nat \<Rightarrow> Action" where
  "Action_of_string type stringArgument actionID =
     \<lparr>m_extensionIdentifier = None, m_type = type, m_actionID = actionID,
      m_stringArgument = Some stringArgument\<rparr>"

definition Action_of_type :: "ActionType \<Rightarrow> nat \<Rightarrow> Action" where
  "Action_of_type type actionID =
     \<lparr>m_extensionIdentifier = None, m_type = type, m_actionID = actionID, m_stringArgument = None\<rparr>"

definition Action_equal :: "Action \<Rightarrow> Action \<Rightarrow> bool" where
  "Action_equal a b \<longleftrightarrow> m_type a = m_type b
     \<and> m_extensionIdentifier a = m_extensionIdentifier b
     \<and> m_actionID a = m_actionID b
     \<and> rel_option string_equal (m_stringArgument a) (m_stringArgument b)"

definition setExtensionIdentifier :: "UChars \<Rightarrow> Action \<Rightarrow> Action" where
  "setExtensionIdentifier extensionIdentifier a = a\<lparr>m_extensionIdentifier := Some extensionIdentifier\<rparr>"

record ContentExtensionRule =
  m_trigger :: Trigger
  m_action :: Action

section \<open>Serialized actions\<close>

definition byte_of_type :: "ActionType \<Rightarrow> u8" where
  "byte_of_type type = (case type of BlockLoad \<Rightarrow> 0 | BlockCookies \<Rightarrow> 1 | CSSDisplayNoneSelector \<Rightarrow> 2
     | CSSDisplayNoneStyleSheet \<Rightarrow> 3 | IgnorePreviousRules \<Rightarrow> 4 | MakeHTTPS \<Rightarrow> 5 | InvalidAction \<Rightarrow> 6)"

text \<open>The conversion of a byte to the enumeration; \<open>None\<close> is a value outside it.\<close>

definition type_of_byte :: "u8 \<Rightarrow> ActionType option" where
  "type_of_byte b =
     (if b = 0 then Some BlockLoad else if b = 1 then Some BlockCookies
      else if b = 2 then Some CSSDisplayNoneSelector else if b = 3 then Some CSSDisplayNoneStyleSheet
      else if b = 4 then Some IgnorePreviousRules else if b = 5 then Some MakeHTTPS
      else if b = 6 then Some InvalidAction else None)"

definition serializeSelector :: "u8 list \<Rightarrow> WString \<Rightarrow> u8 list" where
  "serializeSelector actions selector =
     (let actions = actions @ [byte_of_type CSSDisplayNoneSelector];
          selectorLength = u32 (length (characters selector));
          actions = actions @ encode_le 4 (int selectorLength);
          wideCharacters = (\<not> is8Bit selector);
          actions = actions @ [if wideCharacters then 1 else 0]
      in if wideCharacters
         then actions @ concat (map (\<lambda>i. encode_le 2 (int (characters selector ! i))) [0 ..< selectorLength])
         else actions @ map (\<lambda>i. word_of_nat (characters selector ! i)) [0 ..< selectorLength])"

text \<open>
  Reading: \<open>*reinterpret_cast<const unsigned*>(&actions[i])\<close> and the characters of a selector. A read
  outside the vector is \<open>None\<close>.
\<close>

definition read_unsigned :: "u8 list \<Rightarrow> nat \<Rightarrow> nat option" where
  "read_unsigned bytes i =
     (if i + 4 \<le> length bytes then Some (nat (decode_le (vec_slice i 4 bytes))) else None)"

definition read_byte :: "u8 list \<Rightarrow> nat \<Rightarrow> u8 option" where
  "read_byte bytes i = (if i < length bytes then Some (bytes ! i) else None)"

definition read_UChars :: "u8 list \<Rightarrow> nat \<Rightarrow> nat \<Rightarrow> WString option" where
  "read_UChars bytes start len =
     (if start + 2 * len \<le> length bytes
      then Some \<lparr>characters = map (\<lambda>i. nat (decode_le (vec_slice (start + 2 * i) 2 bytes))) [0 ..< len],
        is8Bit = (len = 0)\<rparr>
      else None)"

definition read_LChars :: "u8 list \<Rightarrow> nat \<Rightarrow> nat \<Rightarrow> WString option" where
  "read_LChars bytes start len =
     (if start + len \<le> length bytes
      then Some \<lparr>characters = map (\<lambda>i. unat (bytes ! (start + i))) [0 ..< len], is8Bit = True\<rparr>
      else None)"

definition headerLength :: nat where
  "headerLength = 1 + 4 + 1"

definition deserialize_selector :: "u8 list \<Rightarrow> nat \<Rightarrow> nat \<Rightarrow> Action option" where
  "deserialize_selector actions actionsLength location =
     (let stringStartIndex = u32 (location + headerLength)
      in if actionsLength < stringStartIndex then None
         else do {
           selectorLength \<leftarrow> read_unsigned actions (location + 1);
           wideCharacters \<leftarrow> read_byte actions (location + 1 + 4);
           if wideCharacters \<noteq> 0
           then if actionsLength < stringStartIndex + selectorLength * 2 then None
                else do {
                  s \<leftarrow> read_UChars actions stringStartIndex selectorLength;
                  Some (Action_of_string CSSDisplayNoneSelector s location)
                }
           else if actionsLength < stringStartIndex + selectorLength * 1 then None
                else do {
                  s \<leftarrow> read_LChars actions stringStartIndex selectorLength;
                  Some (Action_of_string CSSDisplayNoneSelector s location)
                }
         })"

definition deserialize :: "u8 list \<Rightarrow> nat \<Rightarrow> nat \<Rightarrow> Action option" where
  "deserialize actions actionsLength location =
     (if actionsLength \<le> location then None
      else do {
        b \<leftarrow> read_byte actions location;
        case type_of_byte b of
          Some BlockCookies \<Rightarrow> Some (Action_of_type BlockCookies location)
        | Some BlockLoad \<Rightarrow> Some (Action_of_type BlockLoad location)
        | Some IgnorePreviousRules \<Rightarrow> Some (Action_of_type IgnorePreviousRules location)
        | Some MakeHTTPS \<Rightarrow> Some (Action_of_type MakeHTTPS location)
        | Some CSSDisplayNoneSelector \<Rightarrow> deserialize_selector actions actionsLength location
        | _ \<Rightarrow> None
      })"

definition deserializeType :: "u8 list \<Rightarrow> nat \<Rightarrow> nat \<Rightarrow> ActionType option" where
  "deserializeType actions actionsLength location =
     (if actionsLength \<le> location then None
      else do {
        b \<leftarrow> read_byte actions location;
        type \<leftarrow> type_of_byte b;
        if type \<in> {BlockCookies, BlockLoad, IgnorePreviousRules, CSSDisplayNoneSelector, MakeHTTPS}
        then Some type else None
      })"

definition serializedLength :: "u8 list \<Rightarrow> nat \<Rightarrow> nat \<Rightarrow> nat option" where
  "serializedLength actions actionsLength location =
     (if actionsLength \<le> location then None
      else do {
        b \<leftarrow> read_byte actions location;
        type \<leftarrow> type_of_byte b;
        if type \<in> {BlockCookies, BlockLoad, IgnorePreviousRules, MakeHTTPS} then Some 1
        else if type = CSSDisplayNoneSelector
        then if actionsLength < u32 (location + headerLength) then None
             else do {
               selectorLength \<leftarrow> read_unsigned actions (location + 1);
               wideCharacters \<leftarrow> read_byte actions (location + 1 + 4);
               Some (if wideCharacters \<noteq> 0 then u32 (headerLength + selectorLength * 2)
                     else u32 (headerLength + selectorLength * 1))
             }
        else None
      })"

section \<open>Items\<close>

datatype action_item = Simple ActionType | Selector WString

fun item_bytes :: "action_item \<Rightarrow> u8 list" where
  "item_bytes (Simple type) = [byte_of_type type]"
| "item_bytes (Selector s) = serializeSelector [] s"

fun item_type :: "action_item \<Rightarrow> ActionType" where
  "item_type (Simple type) = type"
| "item_type (Selector s) = CSSDisplayNoneSelector"

fun item_wf :: "action_item \<Rightarrow> bool" where
  "item_wf (Simple type) \<longleftrightarrow> type \<in> {BlockLoad, BlockCookies, IgnorePreviousRules, MakeHTTPS}"
| "item_wf (Selector s) \<longleftrightarrow> string_wf s \<and> length (characters s) < 2 ^ 32"

fun item_action :: "nat \<Rightarrow> action_item \<Rightarrow> Action" where
  "item_action location (Simple type) = Action_of_type type location"
| "item_action location (Selector s) = Action_of_string CSSDisplayNoneSelector s location"

lemma type_of_byte_of_type [simp]: "type_of_byte (byte_of_type type) = Some type"
  by (cases type) (simp_all add: type_of_byte_def byte_of_type_def)

lemma serializeSelector_append: "serializeSelector pre s = pre @ item_bytes (Selector s)"
  by (simp add: serializeSelector_def Let_def)

lemma length_concat_const: "(\<And>x. x \<in> set xs \<Longrightarrow> length (f x) = k) \<Longrightarrow> length (concat (map f xs)) = length xs * k"
  by (induction xs) auto

definition char_bytes :: "WString \<Rightarrow> u8 list" where
  "char_bytes s =
     (if is8Bit s then map word_of_nat (characters s)
      else concat (map (\<lambda>c. encode_le 2 (int c)) (characters s)))"

lemma item_bytes_Selector:
  assumes "length (characters s) < 2 ^ 32"
  shows "item_bytes (Selector s) = byte_of_type CSSDisplayNoneSelector #
    encode_le 4 (int (length (characters s))) @ (if is8Bit s then 0 else 1) # char_bytes s"
proof -
  have 1: "map (\<lambda>i. f (characters s ! i)) [0 ..< length (characters s)] = map f (characters s)"
    for f :: "nat \<Rightarrow> 'b"
    using arg_cong [OF map_nth [of "characters s"], of "map f"] by (simp add: comp_def)
  show ?thesis using assms
    by (simp add: serializeSelector_def Let_def u32_id char_bytes_def 1 [of "\<lambda>c. word_of_nat c"]
        1 [of "\<lambda>c. encode_le 2 (int c)"])
qed

lemma length_char_bytes:
  "length (char_bytes s) = length (characters s) * (if is8Bit s then 1 else 2)"
  by (simp add: char_bytes_def length_concat_const)

lemma read_UChars_concat:
  assumes "list_all (\<lambda>c. c < 2 ^ 16) cs"
  shows "read_UChars (pre @ concat (map (\<lambda>c. encode_le 2 (int c)) cs) @ post) (length pre) (length cs) =
    Some \<lparr>characters = cs, is8Bit = (cs = [])\<rparr>"
proof -
  let ?b = "\<lambda>cs. concat (map (\<lambda>c. encode_le 2 (int c)) cs)"
  have len: "length (?b xs) = 2 * length xs" for xs by (simp add: length_concat_const)
  have "nat (decode_le (vec_slice (length pre + 2 * i) 2 (pre @ ?b cs @ post))) = cs ! i"
    if i: "i < length cs" for i
  proof -
    have cs: "cs = take i cs @ cs ! i # drop (Suc i) cs" using i by (rule id_take_nth_drop)
    have "?b cs = ?b (take i cs) @ encode_le 2 (int (cs ! i)) @ ?b (drop (Suc i) cs)"
      by (subst cs) (simp only: map_append concat_append list.map concat.simps)
    then have "vec_slice (length pre + 2 * i) 2 (pre @ ?b cs @ post) = encode_le 2 (int (cs ! i))"
      using vec_slice_append [of "pre @ ?b (take i cs)" "encode_le 2 (int (cs ! i))"
          "?b (drop (Suc i) cs) @ post"] i by (simp add: len del: encode_le.simps)
    moreover have "cs ! i < 2 ^ 16" using assms i by (auto simp: list_all_length)
    ultimately show ?thesis by (simp add: decode_encode_le)
  qed
  then show ?thesis
    by (auto simp: read_UChars_def len intro!: nth_equalityI)
qed

lemma read_LChars_map:
  assumes "list_all (\<lambda>c. c < 2 ^ 8) cs"
  shows "read_LChars (pre @ map word_of_nat cs @ post) (length pre) (length cs) =
    Some \<lparr>characters = cs, is8Bit = True\<rparr>"
  using assms
  by (auto simp: read_LChars_def nth_append unat_of_nat list_all_length take_bit_nat_eq_self
      intro!: nth_equalityI)

text \<open>Reading at the location of an item.\<close>

lemma selector_header:
  assumes "bytes = pre @ item_bytes (Selector s) @ post" "length (characters s) < 2 ^ 32"
  shows "length pre + 6 + length (char_bytes s) + length post = length bytes"
    and "read_byte bytes (length pre) = Some (byte_of_type CSSDisplayNoneSelector)"
    and "read_unsigned bytes (length pre + 1) = Some (length (characters s))"
    and "read_byte bytes (length pre + 1 + 4) = Some (if is8Bit s then 0 else 1)"
proof -
  let ?n = "length (characters s)"
  let ?w = "if is8Bit s then 0 else (1::u8)"
  have b: "bytes = pre @ byte_of_type CSSDisplayNoneSelector # encode_le 4 (int ?n) @ ?w # char_bytes s @ post"
    using assms(1) unfolding item_bytes_Selector [OF assms(2)] by simp
  show l: "length pre + 6 + length (char_bytes s) + length post = length bytes"
    unfolding b by (simp del: encode_le.simps)
  show "read_byte bytes (length pre) = Some (byte_of_type CSSDisplayNoneSelector)"
    unfolding b by (simp add: read_byte_def)
  have "vec_slice (length pre + 1) 4 bytes = encode_le 4 (int ?n)"
    using vec_slice_append [of "pre @ [byte_of_type CSSDisplayNoneSelector]" "encode_le 4 (int ?n)"
        "?w # char_bytes s @ post"] unfolding b by (simp del: encode_le.simps)
  then show "read_unsigned bytes (length pre + 1) = Some ?n"
    using assms(2) l by (simp add: read_unsigned_def decode_encode_le del: encode_le.simps)
  have "bytes ! (length (pre @ byte_of_type CSSDisplayNoneSelector # encode_le 4 (int ?n))) = ?w"
    unfolding b using nth_append_length [of "pre @ byte_of_type CSSDisplayNoneSelector # encode_le 4 (int ?n)"
        ?w "char_bytes s @ post"] by (simp del: encode_le.simps)
  then show "read_byte bytes (length pre + 1 + 4) = Some ?w"
    using l by (simp add: read_byte_def add.commute del: encode_le.simps)
qed

lemma deserialize_item:
  assumes bytes: "bytes = pre @ item_bytes it @ post" and wf: "item_wf it" and len: "length bytes < 2 ^ 32"
  shows "\<exists>a. deserialize bytes (length bytes) (length pre) = Some a \<and>
    Action_equal a (item_action (length pre) it)"
proof (cases it)
  case (Simple type)
  then have "read_byte bytes (length pre) = Some (byte_of_type type)" "length pre < length bytes"
    using bytes by (simp_all add: read_byte_def)
  then show ?thesis using wf Simple
    by (auto simp: deserialize_def Action_equal_def Action_of_type_def)
next
  case (Selector s)
  have n: "length (characters s) < 2 ^ 32" and s: "string_wf s" using wf Selector by auto
  note h = selector_header [OF bytes [unfolded Selector] n]
  have lb: "length (char_bytes s) = length (characters s) * (if is8Bit s then 1 else 2)"
    by (rule length_char_bytes)
  have start: "u32 (length pre + headerLength) = length pre + 6"
    using h(1) len by (simp add: u32_id headerLength_def)
  define pre' where "pre' = pre @ byte_of_type CSSDisplayNoneSelector #
    encode_le 4 (int (length (characters s))) @ [if is8Bit s then 0 else 1]"
  have pre': "length pre' = length pre + 6" by (simp add: pre'_def del: encode_le.simps)
  have b: "bytes = pre' @ char_bytes s @ post"
    using bytes Selector item_bytes_Selector [OF n] by (simp add: pre'_def del: encode_le.simps)
  have "(if is8Bit s then read_LChars else read_UChars) bytes (length pre + 6) (length (characters s)) =
    Some \<lparr>characters = characters s, is8Bit = (is8Bit s \<or> characters s = [])\<rparr>"
  proof (cases "is8Bit s")
    case True
    then show ?thesis using read_LChars_map [of "characters s" pre' post] s
      by (simp add: b char_bytes_def string_wf_def flip: pre')
  next
    case False
    then show ?thesis using read_UChars_concat [of "characters s" pre' post] s
      by (simp add: b char_bytes_def string_wf_def flip: pre')
  qed
  then show ?thesis using h lb start
    by (auto simp: deserialize_def deserialize_selector_def Selector Let_def Action_equal_def
        Action_of_string_def string_equal_def split: if_splits)
qed

lemma deserializeType_item:
  assumes "bytes = pre @ item_bytes it @ post" "item_wf it"
  shows "deserializeType bytes (length bytes) (length pre) = Some (item_type it)"
proof (cases it)
  case (Simple type)
  then have "read_byte bytes (length pre) = Some (byte_of_type type)" "length pre < length bytes"
    using assms by (simp_all add: read_byte_def)
  then show ?thesis using assms Simple by (auto simp: deserializeType_def)
next
  case (Selector s)
  have n: "length (characters s) < 2 ^ 32" using assms Selector by auto
  note h = selector_header [OF assms(1) [unfolded Selector] n]
  have "length pre < length bytes" using h(1) by simp
  then show ?thesis using h(2) Selector by (simp add: deserializeType_def)
qed

lemma serializedLength_item:
  assumes "bytes = pre @ item_bytes it @ post" "item_wf it" "length bytes < 2 ^ 32"
  shows "serializedLength bytes (length bytes) (length pre) = Some (length (item_bytes it))"
proof (cases it)
  case (Simple type)
  then have "read_byte bytes (length pre) = Some (byte_of_type type)" "length pre < length bytes"
    using assms by (simp_all add: read_byte_def)
  then show ?thesis using assms Simple by (auto simp: serializedLength_def)
next
  case (Selector s)
  have n: "length (characters s) < 2 ^ 32" using assms Selector by auto
  note h = selector_header [OF assms(1) [unfolded Selector] n]
  have "length (item_bytes it) = 6 + length (char_bytes s)"
    unfolding Selector item_bytes_Selector [OF n] by (simp del: encode_le.simps)
  then show ?thesis using h length_char_bytes [of s] assms(3)
    by (auto simp: serializedLength_def headerLength_def u32_id split: if_splits)
qed

lemma item_bytes_ne: "item_bytes it \<noteq> []"
  by (cases it) (simp_all add: serializeSelector_def Let_def)

text \<open>
  C22: an action read back. Where the vector of actions holds a serialized selector or the byte of a
  simple action at a location, \<open>Action::deserialize\<close> returns an action equal to the one that was
  serialized, with the location as its identifier; \<open>deserializeType\<close> gives its type and
  \<open>serializedLength\<close> the number of its bytes. No release assertion fails.
\<close>

theorem action_round_trip:
  assumes "bytes = pre @ item_bytes it @ post" "item_wf it" "length bytes < 2 ^ 32"
  shows "(\<exists>a. deserialize bytes (length bytes) (length pre) = Some a \<and>
            Action_equal a (item_action (length pre) it))
    \<and> deserializeType bytes (length bytes) (length pre) = Some (item_type it)
    \<and> serializedLength bytes (length bytes) (length pre) = Some (length (item_bytes it))"
  using deserialize_item [OF assms] deserializeType_item [OF assms(1,2)] serializedLength_item [OF assms]
  by blast

theorem action_round_trip_witness:
  "(\<exists>a. deserialize ([0] @ item_bytes (Selector \<lparr>characters = [35, 8364], is8Bit = False\<rparr>) @ [4]) 12 1 = Some a \<and>
      Action_equal a (item_action 1 (Selector \<lparr>characters = [35, 8364], is8Bit = False\<rparr>)))"
proof -
  let ?it = "Selector \<lparr>characters = [35, 8364], is8Bit = False\<rparr>"
  have wf: "item_wf ?it" by (simp add: string_wf_def)
  have l: "length ([0] @ item_bytes ?it @ [4]) = 12"
    by (simp add: serializeSelector_def Let_def u32_def upt_rec)
  show ?thesis using action_round_trip [of "[0] @ item_bytes ?it @ [4]" "[0]" ?it "[4]", OF refl wf] l
    by (simp del: item_bytes.simps)
qed

end
