(* ===== verification/Rule_Serializer.thy ===== *)
theory Rule_Serializer
  imports Rule_Actions
begin

text \<open>
  \<open>serializeActions\<close> of \<open>ContentExtensionCompiler.cpp\<close>: the actions of a rule list become one vector of
  bytes, and every rule gets the location of its action. Equal actions between two
  ignore-previous-rules rules share a location, and the selectors of rules with the same trigger are
  joined into one. The lemmas show what lies at the location of each rule and that the order of the
  locations agrees with the order of the rules wherever that order matters.
\<close>

section \<open>Definitions\<close>

type_synonym ActionMap = "ResourceFlags \<rightharpoonup> nat"

record PendingDisplayNoneActions =
  selectors :: "WString list"
  clientLocations :: "nat list"

type_synonym PendingDisplayNoneActionsMap = "(Trigger \<times> PendingDisplayNoneActions) list"

text \<open>\<open>String\<close> of a null string is empty.\<close>

definition stringArgument :: "Action \<Rightarrow> WString" where
  "stringArgument a = (case m_stringArgument a of None \<Rightarrow> StringBuilder_new | Some s \<Rightarrow> s)"

fun append_selectors :: "WString \<Rightarrow> nat \<Rightarrow> WString list \<Rightarrow> WString" where
  "append_selectors b i [] = b"
| "append_selectors b i (s # ss) =
     (let b = (if i \<noteq> 0 then StringBuilder_append_char b 44 else b)
      in append_selectors (StringBuilder_append b s) (i + 1) ss)"

definition combinedSelectors :: "WString list \<Rightarrow> WString" where
  "combinedSelectors ss = append_selectors StringBuilder_new 0 ss"

text \<open>\<open>StringBuilder::toString\<close>: the length of a string is 32 bits wide, a longer one crashes.\<close>

definition StringBuilder_toString :: "WString \<Rightarrow> WString option" where
  "StringBuilder_toString b = (if length (characters b) < 2 ^ 32 then Some b else None)"

text \<open>
  A vector of bytes that would need \<open>2 ^ 32\<close> elements or rest is not allocated: \<open>Vector\<close> crashes.
\<close>

definition vector_of :: "u8 list \<Rightarrow> u8 list option" where
  "vector_of bytes = (if length bytes < 2 ^ 32 then Some bytes else None)"

fun resolvePendingDisplayNoneActions ::
  "u8 list \<Rightarrow> nat list \<Rightarrow> PendingDisplayNoneActionsMap \<Rightarrow> (u8 list \<times> nat list) option" where
  "resolvePendingDisplayNoneActions actions actionLocations [] = Some (actions, actionLocations)"
| "resolvePendingDisplayNoneActions actions actionLocations ((trigger, pendingActions) # slots) =
     do {
       let actionLocation = u32 (length actions);
       combined \<leftarrow> StringBuilder_toString (combinedSelectors (selectors pendingActions));
       actions \<leftarrow> vector_of (serializeSelector actions combined);
       let actionLocations = foldl (\<lambda>locs clientLocation. locs[clientLocation := actionLocation])
                               actionLocations (clientLocations pendingActions);
       resolvePendingDisplayNoneActions actions actionLocations slots
     }"

record Serializer =
  s_actions :: "u8 list"
  actionLocations :: "nat list"
  blockLoadActionsMap :: ActionMap
  blockCookiesActionsMap :: ActionMap
  cssDisplayNoneActionsMap :: PendingDisplayNoneActionsMap
  ignorePreviousRuleActionsMap :: ActionMap
  makeHTTPSActionsMap :: ActionMap

definition Serializer_new :: Serializer where
  "Serializer_new = \<lparr>s_actions = [], actionLocations = [], blockLoadActionsMap = Map.empty,
     blockCookiesActionsMap = Map.empty, cssDisplayNoneActionsMap = [],
     ignorePreviousRuleActionsMap = Map.empty, makeHTTPSActionsMap = Map.empty\<rparr>"

definition resolve_pending :: "Serializer \<Rightarrow> Serializer option" where
  "resolve_pending s =
     do {
       (acts, locs) \<leftarrow> resolvePendingDisplayNoneActions (s_actions s) (actionLocations s) (cssDisplayNoneActionsMap s);
       Some (s\<lparr>s_actions := acts, actionLocations := locs, cssDisplayNoneActionsMap := []\<rparr>)
     }"

definition clear_maps :: "Serializer \<Rightarrow> Serializer" where
  "clear_maps s = s\<lparr>blockLoadActionsMap := Map.empty, blockCookiesActionsMap := Map.empty,
     cssDisplayNoneActionsMap := [], makeHTTPSActionsMap := Map.empty\<rparr>"

text \<open>The lambda \<open>findOrMakeActionLocation\<close>: the location, the bytes and the map after it.\<close>

definition findOrMakeActionLocation ::
  "ActionType \<Rightarrow> ResourceFlags \<Rightarrow> u8 list \<Rightarrow> ActionMap \<Rightarrow> (nat \<times> u8 list \<times> ActionMap) option" where
  "findOrMakeActionLocation actionType flags actions actionMap =
     (case actionMap flags of
        None \<Rightarrow>
          do {
            let actionLocation = u32 (length actions);
            actions \<leftarrow> vector_of (actions @ [byte_of_type actionType]);
            Some (actionLocation, actions, actionMap(flags \<mapsto> actionLocation))
          }
      | Some location \<Rightarrow> Some (location, actions, actionMap))"

text \<open>\<open>HashMap::add\<close> followed by the two appends to the entry it returns.\<close>

fun add_pending ::
  "Trigger \<Rightarrow> WString \<Rightarrow> nat \<Rightarrow> PendingDisplayNoneActionsMap \<Rightarrow> PendingDisplayNoneActionsMap" where
  "add_pending trigger selector location [] =
     [(trigger, \<lparr>selectors = [selector], clientLocations = [location]\<rparr>)]"
| "add_pending trigger selector location ((t, p) # slots) =
     (if t = trigger
      then (t, \<lparr>selectors = selectors p @ [selector], clientLocations = clientLocations p @ [location]\<rparr>) # slots
      else (t, p) # add_pending trigger selector location slots)"

definition serialize_with_domains :: "ContentExtensionRule \<Rightarrow> Serializer \<Rightarrow> Serializer option" where
  "serialize_with_domains rule s =
     do {
       let actionType = m_type (m_action rule);
       acts \<leftarrow> vector_of (if actionType = CSSDisplayNoneSelector
                then serializeSelector (s_actions s) (stringArgument (m_action rule))
                else s_actions s @ [byte_of_type actionType]);
       Some (s\<lparr>actionLocations := actionLocations s @ [u32 (length (s_actions s))], s_actions := acts\<rparr>)
     }"

definition serialize_without_domains :: "ContentExtensionRule \<Rightarrow> Serializer \<Rightarrow> Serializer option" where
  "serialize_without_domains rule s =
     (let actionType = m_type (m_action rule); flags = trigger_flags (m_trigger rule) in
      case actionType of
        CSSDisplayNoneStyleSheet \<Rightarrow> None
      | InvalidAction \<Rightarrow> None
      | CSSDisplayNoneSelector \<Rightarrow>
          Some (s\<lparr>cssDisplayNoneActionsMap := add_pending (m_trigger rule) (stringArgument (m_action rule))
                    (u32 (length (actionLocations s))) (cssDisplayNoneActionsMap s),
                  actionLocations := actionLocations s @ [u32_max]\<rparr>)
      | IgnorePreviousRules \<Rightarrow>
          do {
            (loc, acts, m) \<leftarrow> findOrMakeActionLocation actionType flags (s_actions s) (ignorePreviousRuleActionsMap s);
            Some (s\<lparr>s_actions := acts, actionLocations := actionLocations s @ [loc],
                    ignorePreviousRuleActionsMap := m\<rparr>)
          }
      | BlockLoad \<Rightarrow>
          do {
            (loc, acts, m) \<leftarrow> findOrMakeActionLocation actionType flags (s_actions s) (blockLoadActionsMap s);
            Some (s\<lparr>s_actions := acts, actionLocations := actionLocations s @ [loc], blockLoadActionsMap := m\<rparr>)
          }
      | BlockCookies \<Rightarrow>
          do {
            (loc, acts, m) \<leftarrow> findOrMakeActionLocation actionType flags (s_actions s) (blockCookiesActionsMap s);
            Some (s\<lparr>s_actions := acts, actionLocations := actionLocations s @ [loc], blockCookiesActionsMap := m\<rparr>)
          }
      | MakeHTTPS \<Rightarrow>
          do {
            (loc, acts, m) \<leftarrow> findOrMakeActionLocation actionType flags (s_actions s) (makeHTTPSActionsMap s);
            Some (s\<lparr>s_actions := acts, actionLocations := actionLocations s @ [loc], makeHTTPSActionsMap := m\<rparr>)
          })"

text \<open>The body of the loop over the rules.\<close>

definition serialize_rule :: "ContentExtensionRule \<Rightarrow> Serializer \<Rightarrow> Serializer option" where
  "serialize_rule rule s =
     do {
       s \<leftarrow> (if m_type (m_action rule) = IgnorePreviousRules
             then map_option clear_maps (resolve_pending s)
             else Some (s\<lparr>ignorePreviousRuleActionsMap := Map.empty\<rparr>));
       if domains (m_trigger rule) \<noteq> [] then serialize_with_domains rule s
       else serialize_without_domains rule s
     }"

fun serialize_rules :: "ContentExtensionRule list \<Rightarrow> Serializer \<Rightarrow> Serializer option" where
  "serialize_rules [] s = Some s"
| "serialize_rules (rule # rules) s = Option.bind (serialize_rule rule s) (serialize_rules rules)"

definition serializeActions :: "ContentExtensionRule list \<Rightarrow> (u8 list \<times> nat list) option" where
  "serializeActions ruleList =
     do {
       s \<leftarrow> serialize_rules ruleList Serializer_new;
       s \<leftarrow> resolve_pending s;
       Some (s_actions s, actionLocations s)
     }"

section \<open>What the locations mean\<close>

definition isIgnore :: "ContentExtensionRule \<Rightarrow> bool" where
  "isIgnore r \<longleftrightarrow> m_type (m_action r) = IgnorePreviousRules"

text \<open>A rule whose selector is joined with others.\<close>

definition joins :: "ContentExtensionRule \<Rightarrow> bool" where
  "joins r \<longleftrightarrow> m_type (m_action r) = CSSDisplayNoneSelector \<and> domains (m_trigger r) = []"

definition epoch :: "ContentExtensionRule list \<Rightarrow> nat \<Rightarrow> nat" where
  "epoch rules i = length (filter isIgnore (take i rules))"

text \<open>The rules without domains, in the stretch \<open>e\<close> between two ignore-previous-rules rules, that hide
  elements and have the trigger \<open>t\<close>.\<close>

definition joined :: "ContentExtensionRule list \<Rightarrow> nat \<Rightarrow> Trigger \<Rightarrow> nat list" where
  "joined rules e t =
     filter (\<lambda>j. joins (rules ! j) \<and> m_trigger (rules ! j) = t \<and> epoch rules j = e) [0 ..< length rules]"

definition rule_item :: "ContentExtensionRule list \<Rightarrow> nat \<Rightarrow> action_item" where
  "rule_item rules i =
     (let r = rules ! i in
      if m_type (m_action r) \<noteq> CSSDisplayNoneSelector then Simple (m_type (m_action r))
      else if domains (m_trigger r) \<noteq> [] then Selector (stringArgument (m_action r))
      else Selector (combinedSelectors
             (map (\<lambda>j. stringArgument (m_action (rules ! j))) (joined rules (epoch rules i) (m_trigger r)))))"

definition rule_wf :: "ContentExtensionRule \<Rightarrow> bool" where
  "rule_wf r \<longleftrightarrow>
     m_type (m_action r) \<in> {BlockLoad, BlockCookies, CSSDisplayNoneSelector, IgnorePreviousRules, MakeHTTPS} \<and>
     string_wf (stringArgument (m_action r)) \<and> length (characters (stringArgument (m_action r))) < 2 ^ 32"

section \<open>Items at locations\<close>

definition items_bytes :: "action_item list \<Rightarrow> u8 list" where
  "items_bytes its = concat (map item_bytes its)"

definition item_at :: "action_item list \<Rightarrow> nat \<Rightarrow> action_item \<Rightarrow> bool" where
  "item_at its loc it \<longleftrightarrow> (\<exists>xs ys. its = xs @ it # ys \<and> loc = length (items_bytes xs))"

lemma items_bytes_simps [simp]:
  "items_bytes [] = []" "items_bytes (xs @ ys) = items_bytes xs @ items_bytes ys"
  "items_bytes (it # xs) = item_bytes it @ items_bytes xs"
  by (simp_all add: items_bytes_def)

lemma item_at_append: "item_at its loc it \<Longrightarrow> item_at (its @ rest) loc it"
  unfolding item_at_def by (metis append_Cons append_assoc)

lemma item_at_end: "item_at (its @ it # rest) (length (items_bytes its)) it"
  unfolding item_at_def by blast

lemma item_at_appendD:
  assumes "item_at (its @ ext) l it"
  shows "item_at its l it \<or> (\<exists>xs ys. ext = xs @ it # ys \<and> l = length (items_bytes (its @ xs)))"
proof -
  obtain xs ys where xy: "its @ ext = xs @ it # ys" "l = length (items_bytes xs)"
    using assms by (auto simp: item_at_def)
  show ?thesis
  proof (cases "length xs < length its")
    case True
    then have "its = xs @ it # drop (Suc (length xs)) its"
      using arg_cong [OF xy(1), of "take (length its)"]
      by (metis append_eq_append_conv_if id_take_nth_drop less_imp_le nth_append nth_append_length xy(1))
    then show ?thesis using xy by (auto simp: item_at_def)
  next
    case False
    then have "xs = its @ drop (length its) xs"
      using xy(1) by (metis append_eq_append_conv_if append_take_drop_id not_less)
    then obtain zs where "xs = its @ zs" by blast
    then show ?thesis using xy by auto
  qed
qed

lemma item_at_less: "item_at its loc it \<Longrightarrow> loc < length (items_bytes its)"
  using item_bytes_ne by (auto simp: item_at_def)

lemma item_at_bytes:
  assumes "item_at its loc it"
  obtains pre post where "items_bytes its = pre @ item_bytes it @ post" "length pre = loc"
  using assms by (auto simp: item_at_def)

section \<open>Resolving\<close>

lemma foldl_update_length: "length (foldl (\<lambda>l c. l[c := v]) locs cs) = length locs"
  by (induction cs arbitrary: locs) auto

lemma foldl_update_nth:
  "i < length locs \<Longrightarrow> foldl (\<lambda>l c. l[c := v]) locs cs ! i = (if i \<in> set cs then v else locs ! i)"
  by (induction cs arbitrary: locs) (auto simp: nth_list_update)

lemma vector_of_Some: "vector_of bytes = Some b \<longleftrightarrow> b = bytes \<and> length bytes < 2 ^ 32"
  by (auto simp: vector_of_def)

lemma toString_Some: "StringBuilder_toString b = Some s \<longleftrightarrow> s = b \<and> length (characters b) < 2 ^ 32"
  by (auto simp: StringBuilder_toString_def)

lemma append_selectors_wf:
  "string_wf b \<Longrightarrow> list_all string_wf ss \<Longrightarrow> string_wf (append_selectors b i ss)"
proof (induction ss arbitrary: b i)
  case (Cons s ss)
  have wide: "list_all (\<lambda>c. c < 2 ^ 16) (characters s)" if "string_wf s" for s
    using that by (auto simp: string_wf_def list_all_iff split: if_splits)
  have "string_wf (StringBuilder_append b s)" if "string_wf b" for b
    using that Cons.prems(2) wide [of b] wide [of s]
    by (auto simp: StringBuilder_append_def string_wf_def list_all_iff)
  moreover have "string_wf (StringBuilder_append_char b 44)"
    using Cons.prems(1) wide [of b] by (auto simp: StringBuilder_append_char_def string_wf_def list_all_iff)
  ultimately show ?case using Cons by (simp add: Let_def)
qed simp

lemma combinedSelectors_wf: "list_all string_wf ss \<Longrightarrow> string_wf (combinedSelectors ss)"
  unfolding combinedSelectors_def
  by (rule append_selectors_wf) (simp_all add: string_wf_def StringBuilder_new_def)

lemma resolve_items:
  assumes "resolvePendingDisplayNoneActions (items_bytes its) locs slots = Some (acts', locs')"
    and "length (items_bytes its) < 2 ^ 32"
    and "list_all (\<lambda>(t, p). list_all (\<lambda>c. c < length locs) (clientLocations p)) slots"
    and "distinct (map fst slots)" and "list_all (\<lambda>(t, p). list_all string_wf (selectors p)) slots"
    and "\<And>t t' p p' c. \<lbrakk>(t, p) \<in> set slots; (t', p') \<in> set slots; c \<in> set (clientLocations p);
       c \<in> set (clientLocations p')\<rbrakk> \<Longrightarrow> t = t'"
  shows "\<exists>rest. acts' = items_bytes (its @ rest) \<and> length acts' < 2 ^ 32 \<and> length locs' = length locs \<and>
    list_all item_wf rest \<and> list_all (\<lambda>it. item_type it = CSSDisplayNoneSelector) rest \<and>
    (\<forall>(t, p) \<in> set slots. \<forall>c \<in> set (clientLocations p).
       item_at (its @ rest) (locs' ! c) (Selector (combinedSelectors (selectors p))) \<and>
       length (items_bytes its) \<le> locs' ! c) \<and>
    (\<forall>i < length locs. (\<forall>(t, p) \<in> set slots. i \<notin> set (clientLocations p)) \<longrightarrow> locs' ! i = locs ! i)"
  using assms
proof (induction slots arbitrary: its locs)
  case Nil
  then show ?case by (intro exI [of _ "[]"]) auto
next
  case (Cons slot slots)
  obtain t p where slot: "slot = (t, p)" by (cases slot)
  let ?it = "Selector (combinedSelectors (selectors p))"
  let ?loc = "length (items_bytes its)"
  define locs1 where "locs1 = foldl (\<lambda>l c. l[c := ?loc]) locs (clientLocations p)"
  have len1 [simp]: "length locs1 = length locs" by (simp add: locs1_def foldl_update_length)
  from Cons.prems(1) have r: "resolvePendingDisplayNoneActions (items_bytes (its @ [?it])) locs1 slots = Some (acts', locs')"
    and l: "length (items_bytes (its @ [?it])) < 2 ^ 32"
    and b: "length (characters (combinedSelectors (selectors p))) < 2 ^ 32"
    using Cons.prems(2)
    by (auto simp: slot Let_def serializeSelector_append vector_of_Some toString_Some bind_eq_Some_conv u32_id
        locs1_def simp del: item_bytes.simps)
  have wf: "item_wf ?it" using Cons.prems(5) b by (simp add: slot combinedSelectors_wf)
  have "list_all (\<lambda>(t, p). list_all (\<lambda>c. c < length locs1) (clientLocations p)) slots"
    "distinct (map fst slots)" "list_all (\<lambda>(t, p). list_all string_wf (selectors p)) slots"
    using Cons.prems(3,4,5) by auto
  from Cons.IH [OF r l this] Cons.prems(6) obtain rest where
    rest: "acts' = items_bytes ((its @ [?it]) @ rest)" "length acts' < 2 ^ 32" "length locs' = length locs"
      "list_all item_wf rest" "list_all (\<lambda>it. item_type it = CSSDisplayNoneSelector) rest"
    and new: "\<And>t p c. (t, p) \<in> set slots \<Longrightarrow> c \<in> set (clientLocations p) \<Longrightarrow>
       item_at ((its @ [?it]) @ rest) (locs' ! c) (Selector (combinedSelectors (selectors p))) \<and>
       length (items_bytes (its @ [?it])) \<le> locs' ! c"
    and old: "\<And>i. i < length locs \<Longrightarrow> (\<forall>(t, p) \<in> set slots. i \<notin> set (clientLocations p)) \<Longrightarrow> locs' ! i = locs1 ! i"
    by (fastforce simp: slot)
  have here: "locs' ! c = ?loc" if "c \<in> set (clientLocations p)" for c
  proof -
    have "c < length locs" using Cons.prems(3) that by (auto simp: slot list_all_iff)
    moreover have "\<forall>(t', p') \<in> set slots. c \<notin> set (clientLocations p')"
      using Cons.prems(4) Cons.prems(6) [of t p _ _ c] that by (force simp: slot)
    ultimately show ?thesis using old [of c] that by (simp add: locs1_def foldl_update_nth)
  qed
  have other: "locs' ! i = locs ! i"
    if "i < length locs" "\<forall>(t, p) \<in> set (slot # slots). i \<notin> set (clientLocations p)" for i
    using old [of i] that by (simp add: locs1_def foldl_update_nth slot)
  show ?case
  proof (intro exI [of _ "?it # rest"] conjI)
    show "\<forall>(t, p) \<in> set (slot # slots). \<forall>c \<in> set (clientLocations p).
       item_at (its @ ?it # rest) (locs' ! c) (Selector (combinedSelectors (selectors p))) \<and>
       length (items_bytes its) \<le> locs' ! c"
      using here new item_at_end [of its ?it rest] by (fastforce simp: slot)
  qed (use rest other wf in \<open>auto simp del: item_bytes.simps item_wf.simps\<close>)
qed

section \<open>The invariant of the loop\<close>

text \<open>
  \<open>pend\<close> is the set of the rules that wait for their location. The order between the locations of an
  ignore-previous-rules rule and of another rule is the order of the two rules.
\<close>

definition core_inv ::
  "ContentExtensionRule list \<Rightarrow> nat set \<Rightarrow> action_item list \<Rightarrow> u8 list \<Rightarrow> nat list \<Rightarrow> bool" where
  "core_inv rs pend its acts locs \<longleftrightarrow>
     list_all rule_wf rs \<and> list_all item_wf its \<and>
     acts = items_bytes its \<and> length acts < 2 ^ 32 \<and> length locs = length rs \<and> pend \<subseteq> {..<length rs} \<and>
     (\<forall>i \<in> pend. locs ! i = u32_max \<and> joins (rs ! i)) \<and>
     (\<forall>i < length rs. i \<notin> pend \<longrightarrow> item_at its (locs ! i) (rule_item rs i)) \<and>
     (\<forall>i < length rs. \<forall>j < length rs. isIgnore (rs ! j) \<longrightarrow> \<not> isIgnore (rs ! i) \<longrightarrow> i \<notin> pend \<longrightarrow>
        (i < j \<longleftrightarrow> locs ! i < locs ! j)) \<and>
     (\<forall>l. item_at its l (Simple IgnorePreviousRules) \<longrightarrow> (\<exists>j < length rs. isIgnore (rs ! j) \<and> locs ! j = l))"

definition map_inv ::
  "ContentExtensionRule list \<Rightarrow> action_item list \<Rightarrow> nat list \<Rightarrow> ActionType \<Rightarrow> ActionMap \<Rightarrow> bool" where
  "map_inv rs its locs type m \<longleftrightarrow>
     (\<forall>f l. m f = Some l \<longrightarrow> item_at its l (Simple type) \<and>
       (\<forall>i < length rs. isIgnore (rs ! i) \<noteq> (type = IgnorePreviousRules) \<longrightarrow> locs ! i < l))"

definition pending :: "ContentExtensionRule list \<Rightarrow> nat set" where
  "pending rs = {i. i < length rs \<and> joins (rs ! i) \<and> epoch rs i = epoch rs (length rs)}"

definition css_inv :: "ContentExtensionRule list \<Rightarrow> PendingDisplayNoneActionsMap \<Rightarrow> bool" where
  "css_inv rs slots \<longleftrightarrow> distinct (map fst slots) \<and>
     (\<forall>t. map_of slots t =
        (let js = joined rs (epoch rs (length rs)) t in
         if js = [] then None
         else Some \<lparr>selectors = map (\<lambda>j. stringArgument (m_action (rs ! j))) js, clientLocations = js\<rparr>))"

definition maps_inv :: "ContentExtensionRule list \<Rightarrow> action_item list \<Rightarrow> Serializer \<Rightarrow> bool" where
  "maps_inv rs its s \<longleftrightarrow>
     map_inv rs its (actionLocations s) BlockLoad (blockLoadActionsMap s) \<and>
     map_inv rs its (actionLocations s) BlockCookies (blockCookiesActionsMap s) \<and>
     map_inv rs its (actionLocations s) MakeHTTPS (makeHTTPSActionsMap s) \<and>
     map_inv rs its (actionLocations s) IgnorePreviousRules (ignorePreviousRuleActionsMap s)"

definition ser_inv :: "ContentExtensionRule list \<Rightarrow> action_item list \<Rightarrow> Serializer \<Rightarrow> bool" where
  "ser_inv rs its s \<longleftrightarrow>
     core_inv rs (pending rs) its (s_actions s) (actionLocations s) \<and> maps_inv rs its s \<and>
     css_inv rs (cssDisplayNoneActionsMap s)"

lemma map_inv_empty [simp]: "map_inv rs its locs type Map.empty"
  by (simp add: map_inv_def)

lemma epoch_append: "i \<le> length rs \<Longrightarrow> epoch (rs @ [r]) i = epoch rs i"
  by (simp add: epoch_def)

lemma epoch_last: "epoch (rs @ [r]) (Suc (length rs)) = epoch rs (length rs) + (if isIgnore r then 1 else 0)"
  by (simp add: epoch_def)

lemma epoch_le: "i \<le> j \<Longrightarrow> epoch rs i \<le> epoch rs j"
  unfolding epoch_def using filter_append [of isIgnore "take i rs" "take (j - i) (drop i rs)"]
  by (metis le_add1 le_add_diff_inverse length_append take_add)

lemma joins_not_ignore: "joins r \<Longrightarrow> \<not> isIgnore r"
  by (simp add: joins_def isIgnore_def)

lemma joined_append:
  "joined (rs @ [r]) e t = joined rs e t @
     (if joins r \<and> m_trigger r = t \<and> epoch rs (length rs) = e then [length rs] else [])"
proof -
  have "filter (\<lambda>j. joins ((rs @ [r]) ! j) \<and> m_trigger ((rs @ [r]) ! j) = t \<and> epoch (rs @ [r]) j = e)
      [0 ..< length rs] = joined rs e t"
    unfolding joined_def by (rule filter_cong) (auto simp: nth_append epoch_append)
  then show ?thesis by (simp add: joined_def epoch_append)
qed

lemma set_joined: "set (joined rs e t) = {j. j < length rs \<and> joins (rs ! j) \<and> m_trigger (rs ! j) = t \<and> epoch rs j = e}"
  by (auto simp: joined_def)

lemma pending_ignore:
  assumes "isIgnore r"
  shows "pending (rs @ [r]) = {}"
proof -
  have "\<not> (joins ((rs @ [r]) ! i) \<and> epoch (rs @ [r]) i = epoch (rs @ [r]) (Suc (length rs)))"
    if "i < Suc (length rs)" for i
  proof (cases "i = length rs")
    case True
    then show ?thesis using assms joins_not_ignore [of r] by auto
  next
    case False
    then have "epoch rs i \<le> epoch rs (length rs)" using that by (intro epoch_le) simp
    then show ?thesis using assms that False by (simp add: epoch_last epoch_append)
  qed
  then show ?thesis by (auto simp: pending_def)
qed

lemma joined_arguments:
  "map (\<lambda>j. stringArgument (m_action ((rs @ [r]) ! j))) (joined rs e t) =
   map (\<lambda>j. stringArgument (m_action (rs ! j))) (joined rs e t)"
  by (rule map_cong) (auto simp: set_joined nth_append)

lemma pending_append:
  "\<not> isIgnore r \<Longrightarrow> pending (rs @ [r]) = pending rs \<union> (if joins r then {length rs} else {})"
  by (auto simp: pending_def epoch_last epoch_append nth_append less_Suc_eq)

lemma rule_item_append:
  assumes "i < length rs" "i \<notin> pending rs \<or> isIgnore r"
  shows "rule_item (rs @ [r]) i = rule_item rs i"
proof (cases "joins (rs ! i)")
  case True
  then have "joined (rs @ [r]) (epoch rs i) (m_trigger (rs ! i)) = joined rs (epoch rs i) (m_trigger (rs ! i))"
    using assms joins_not_ignore [of r] by (auto simp: joined_append pending_def)
  moreover have "(rs @ [r]) ! i = rs ! i" using assms(1) by (simp add: nth_append)
  ultimately show ?thesis using assms(1)
    by (simp add: rule_item_def Let_def epoch_append joined_arguments)
next
  case False
  then show ?thesis using assms(1) by (auto simp: rule_item_def Let_def nth_append joins_def)
qed

text \<open>A rule with a location of its own.\<close>

lemma core_inv_push:
  assumes inv: "core_inv rs pend its acts locs" and pend: "pending rs \<subseteq> pend \<or> isIgnore r"
    and bytes: "length (items_bytes (its @ ext)) < 2 ^ 32" and wf: "rule_wf r" "list_all item_wf ext"
    and new: "item_at (its @ ext) l (rule_item (rs @ [r]) (length rs))"
    and ext: "ext = [] \<or> ext = [rule_item (rs @ [r]) (length rs)] \<and> l = length (items_bytes its)"
    and order: "\<And>i. i < length rs \<Longrightarrow> isIgnore (rs ! i) \<noteq> isIgnore r \<Longrightarrow> locs ! i < l"
  shows "core_inv (rs @ [r]) pend (its @ ext) (items_bytes (its @ ext)) (locs @ [l])"
proof -
  have L: "length locs = length rs" "pend \<subseteq> {..<length rs}" using inv by (auto simp: core_inv_def)
  have items: "item_at (its @ ext) ((locs @ [l]) ! i) (rule_item (rs @ [r]) i)"
    if "i < length (rs @ [r])" "i \<notin> pend" for i
  proof (cases "i < length rs")
    case True
    then have "item_at its (locs ! i) (rule_item rs i)" using inv that by (simp add: core_inv_def)
    moreover have "rule_item (rs @ [r]) i = rule_item rs i"
      using True pend that by (intro rule_item_append) auto
    ultimately show ?thesis using True L by (simp add: nth_append item_at_append)
  next
    case False
    then show ?thesis using new L that by (auto simp: nth_append less_Suc_eq)
  qed
  have ord: "i < j \<longleftrightarrow> (locs @ [l]) ! i < (locs @ [l]) ! j"
    if "i < length (rs @ [r])" "j < length (rs @ [r])" "isIgnore ((rs @ [r]) ! j)"
       "\<not> isIgnore ((rs @ [r]) ! i)" "i \<notin> pend" for i j
  proof -
    have ne: "i \<noteq> j" using that by auto
    have b: "i < Suc (length rs)" "j < Suc (length rs)" using that by simp_all
    consider "i < length rs" "j < length rs" | "i = length rs" "j < length rs" | "i < length rs" "j = length rs"
      using ne b by (auto simp: less_Suc_eq)
    then show ?thesis
    proof cases
      case 1
      then show ?thesis using inv that L by (auto simp: core_inv_def nth_append)
    next
      case 2
      then show ?thesis using order [of j] that L by (auto simp: nth_append)
    next
      case 3
      then show ?thesis using order [of i] that L by (auto simp: nth_append)
    qed
  qed
  have P: "\<forall>i \<in> pend. (locs @ [l]) ! i = u32_max \<and> joins ((rs @ [r]) ! i)"
    using inv L by (auto simp: core_inv_def nth_append)
  have W: "list_all rule_wf (rs @ [r])" "list_all item_wf (its @ ext)"
    using inv wf by (simp_all add: core_inv_def)
  have B: "pend \<subseteq> {..<length (rs @ [r])}" "length (locs @ [l]) = length (rs @ [r])" using L by auto
  have "\<exists>j < length (rs @ [r]). isIgnore ((rs @ [r]) ! j) \<and> (locs @ [l]) ! j = l'"
    if at: "item_at (its @ ext) l' (Simple IgnorePreviousRules)" for l'
  proof (cases "item_at its l' (Simple IgnorePreviousRules)")
    case True
    then obtain j where "j < length rs" "isIgnore (rs ! j)" "locs ! j = l'"
      using inv by (auto simp: core_inv_def)
    then show ?thesis using L by (intro exI [of _ j]) (simp add: nth_append)
  next
    case False
    then obtain xs ys where "ext = xs @ Simple IgnorePreviousRules # ys" "l' = length (items_bytes (its @ xs))"
      using item_at_appendD [OF at] by blast
    then have "rule_item (rs @ [r]) (length rs) = Simple IgnorePreviousRules" "l' = l"
      using ext by (cases xs; auto)+
    then show ?thesis using L
      by (intro exI [of _ "length rs"]) (auto simp: rule_item_def Let_def isIgnore_def nth_append split: if_splits)
  qed
  then show ?thesis unfolding core_inv_def using P W B bytes items ord by blast
qed

lemma core_inv_pending:
  assumes inv: "core_inv rs (pending rs) its acts locs" and r: "joins r" and wf: "rule_wf r"
  shows "core_inv (rs @ [r]) (pending (rs @ [r])) its acts (locs @ [u32_max])"
proof -
  have L: "length locs = length rs" and P: "pending (rs @ [r]) = insert (length rs) (pending rs)"
    using inv r by (auto simp: core_inv_def pending_append joins_not_ignore)
  show ?thesis using inv r wf joins_not_ignore [OF r] unfolding core_inv_def P
    by (auto simp: nth_append less_Suc_eq L rule_item_append)
qed

lemma map_inv_push:
  assumes "map_inv rs its locs type m" "length locs = length rs"
    and "isIgnore r \<noteq> (type = IgnorePreviousRules) \<Longrightarrow> m = Map.empty"
  shows "map_inv (rs @ [r]) (its @ ext) (locs @ [l]) type m"
  using assms by (fastforce simp: map_inv_def item_at_append nth_append less_Suc_eq)

lemma css_inv_other:
  assumes "css_inv rs slots" "\<not> joins r" "\<not> isIgnore r"
  shows "css_inv (rs @ [r]) slots"
  using assms by (simp add: css_inv_def joined_append epoch_last Let_def joined_arguments)

lemma css_inv_ignore: "isIgnore r \<Longrightarrow> css_inv (rs @ [r]) []"
  using pending_ignore [of r rs]
  by (auto simp: css_inv_def Let_def pending_def joined_def filter_empty_conv)

lemma map_of_add_pending:
  "map_of (add_pending trigger s l slots) =
     (map_of slots)(trigger \<mapsto>
        (case map_of slots trigger of
           None \<Rightarrow> \<lparr>selectors = [s], clientLocations = [l]\<rparr>
         | Some p \<Rightarrow> \<lparr>selectors = selectors p @ [s], clientLocations = clientLocations p @ [l]\<rparr>))"
  by (induction slots) (auto simp: fun_eq_iff)

lemma fst_add_pending:
  "fst ` set (add_pending trigger s l slots) = insert trigger (fst ` set slots)"
  by (induction trigger s l slots rule: add_pending.induct) auto

lemma distinct_add_pending: "distinct (map fst slots) \<Longrightarrow> distinct (map fst (add_pending trigger s l slots))"
proof (induction slots)
  case (Cons slot slots)
  then show ?case using fst_add_pending [of trigger s l slots] by (cases slot) auto
qed simp

lemma css_inv_joins:
  assumes inv: "css_inv rs slots" and r: "joins r"
  shows "css_inv (rs @ [r]) (add_pending (m_trigger r) (stringArgument (m_action r)) (length rs) slots)"
  using inv r joins_not_ignore [OF r]
  by (auto simp: css_inv_def joined_append epoch_last Let_def map_of_add_pending distinct_add_pending
      joined_arguments split: if_splits)

section \<open>The steps of the loop\<close>

lemma pending_after_ignore:
  assumes "i \<in> pending rs" "j < length rs" "isIgnore (rs ! j)"
  shows "j < i"
proof (rule ccontr)
  assume "\<not> j < i"
  then have "epoch rs i \<le> epoch rs j" by (intro epoch_le) simp
  also have "epoch rs j < epoch rs (Suc j)" using assms by (simp add: epoch_def take_Suc_conv_app_nth)
  also have "\<dots> \<le> epoch rs (length rs)" using assms by (intro epoch_le) simp
  finally show False using assms by (simp add: pending_def)
qed

lemma css_inv_slot:
  assumes "css_inv rs slots" "(t, p) \<in> set slots"
  shows "p = \<lparr>selectors = map (\<lambda>j. stringArgument (m_action (rs ! j))) (joined rs (epoch rs (length rs)) t),
    clientLocations = joined rs (epoch rs (length rs)) t\<rparr>"
proof -
  have "distinct (map fst slots)" using assms(1) unfolding css_inv_def by (rule conjunct1)
  then have "map_of slots t = Some p" using assms(2) by (rule map_of_is_SomeI)
  then show ?thesis using assms by (auto simp: css_inv_def Let_def split: if_splits)
qed

lemma css_inv_pending:
  assumes "css_inv rs slots" "i \<in> pending rs"
  shows "\<exists>p. (m_trigger (rs ! i), p) \<in> set slots \<and> i \<in> set (clientLocations p)"
proof -
  let ?js = "joined rs (epoch rs (length rs)) (m_trigger (rs ! i))"
  have i: "i \<in> set ?js" using assms(2) by (simp add: pending_def set_joined)
  then have "?js \<noteq> []" by auto
  then have "map_of slots (m_trigger (rs ! i)) =
      Some \<lparr>selectors = map (\<lambda>j. stringArgument (m_action (rs ! j))) ?js, clientLocations = ?js\<rparr>"
    using assms(1) by (simp add: css_inv_def Let_def)
  then show ?thesis using i by (auto dest!: map_of_SomeD)
qed

lemma core_inv_resolve:
  assumes inv: "core_inv rs (pending rs) its acts locs" and css: "css_inv rs slots"
    and r: "resolvePendingDisplayNoneActions acts locs slots = Some (acts', locs')"
  shows "\<exists>rest. core_inv rs {} (its @ rest) acts' locs' \<and>
    (\<forall>i < length rs. i \<notin> pending rs \<longrightarrow> locs' ! i = locs ! i)"
proof -
  let ?e = "epoch rs (length rs)"
  have acts: "acts = items_bytes its" "length acts < 2 ^ 32" and L: "length locs = length rs"
    using inv by (auto simp: core_inv_def)
  have slot: "set (clientLocations p) = {j. j < length rs \<and> joins (rs ! j) \<and> m_trigger (rs ! j) = t \<and> epoch rs j = ?e}"
    if "(t, p) \<in> set slots" for t p
    using css_inv_slot [OF css that] by (simp add: set_joined)
  have "list_all (\<lambda>(t, p). list_all (\<lambda>c. c < length locs) (clientLocations p)) slots"
    using slot L by (fastforce simp: list_all_iff)
  moreover have "distinct (map fst slots)" using css by (simp add: css_inv_def)
  moreover have "list_all (\<lambda>(t, p). list_all string_wf (selectors p)) slots"
  proof -
    have "list_all string_wf (selectors p)" if "(t, p) \<in> set slots" for t p
    proof -
      have "list_all rule_wf rs" using inv by (simp add: core_inv_def)
      then show ?thesis unfolding css_inv_slot [OF css that]
        by (auto simp: list_all_iff set_joined rule_wf_def)
    qed
    then show ?thesis by (auto simp: list_all_iff)
  qed
  moreover have "t = t'" if "(t, p) \<in> set slots" "(t', p') \<in> set slots" "c \<in> set (clientLocations p)"
    "c \<in> set (clientLocations p')" for t t' p p' c
    using that(3,4) unfolding slot [OF that(1)] slot [OF that(2)] by auto
  ultimately obtain rest where rest: "acts' = items_bytes (its @ rest)" "length acts' < 2 ^ 32"
      "length locs' = length locs" "list_all item_wf rest"
      "list_all (\<lambda>it. item_type it = CSSDisplayNoneSelector) rest"
    and new: "\<And>t p c. (t, p) \<in> set slots \<Longrightarrow> c \<in> set (clientLocations p) \<Longrightarrow>
       item_at (its @ rest) (locs' ! c) (Selector (combinedSelectors (selectors p))) \<and>
       length (items_bytes its) \<le> locs' ! c"
    and old: "\<And>i. i < length locs \<Longrightarrow> (\<forall>(t, p) \<in> set slots. i \<notin> set (clientLocations p)) \<Longrightarrow> locs' ! i = locs ! i"
    using resolve_items [of its locs slots acts' locs'] r acts by (fastforce simp: Ball_def)
  have keep: "locs' ! i = locs ! i" if "i < length rs" "i \<notin> pending rs" for i
    using that slot by (intro old) (auto simp: L pending_def)
  have pend: "item_at (its @ rest) (locs' ! i) (rule_item rs i) \<and> length acts \<le> locs' ! i"
    if i: "i \<in> pending rs" for i
  proof -
    obtain p where p: "(m_trigger (rs ! i), p) \<in> set slots" "i \<in> set (clientLocations p)"
      using css_inv_pending [OF css i] by blast
    have "rule_item rs i = Selector (combinedSelectors (selectors p))"
      using i unfolding css_inv_slot [OF css p(1)]
      by (simp add: rule_item_def Let_def pending_def joins_def)
    then show ?thesis using new [OF p] acts by simp
  qed
  have item: "item_at (its @ rest) (locs' ! i) (rule_item rs i)" if "i < length rs" for i
  proof (cases "i \<in> pending rs")
    case False
    then show ?thesis using inv that keep by (auto simp: core_inv_def intro: item_at_append)
  qed (use pend in blast)
  have "i < j \<longleftrightarrow> locs' ! i < locs' ! j"
    if ij: "i < length rs" "j < length rs" "isIgnore (rs ! j)" "\<not> isIgnore (rs ! i)" for i j
  proof -
    have j: "j \<notin> pending rs" using ij joins_not_ignore by (auto simp: pending_def)
    show ?thesis
    proof (cases "i \<in> pending rs")
      case True
      have "locs ! j < length acts" using inv ij j acts by (auto simp: core_inv_def intro: item_at_less)
      then show ?thesis using pending_after_ignore [OF True ij(2,3)] pend [OF True] keep [OF ij(2) j] by simp
    next
      case False
      then show ?thesis using inv ij j keep by (auto simp: core_inv_def)
    qed
  qed
  moreover have "\<exists>j < length rs. isIgnore (rs ! j) \<and> locs' ! j = l"
    if at: "item_at (its @ rest) l (Simple IgnorePreviousRules)" for l
  proof -
    have "item_at its l (Simple IgnorePreviousRules)"
      using item_at_appendD [OF at] rest(5) by auto
    then obtain j where j: "j < length rs" "isIgnore (rs ! j)" "locs ! j = l" using inv by (auto simp: core_inv_def)
    then have "j \<notin> pending rs" using joins_not_ignore by (auto simp: pending_def)
    then show ?thesis using j keep by auto
  qed
  moreover have "list_all rule_wf rs" "list_all item_wf its" using inv by (simp_all add: core_inv_def)
  ultimately have "core_inv rs {} (its @ rest) acts' locs'"
    using rest item L unfolding core_inv_def by auto
  then show ?thesis using rest keep by blast
qed

text \<open>The map of the ignore-previous-rules actions is kept; while a rule is pending it is empty.\<close>

lemma ignore_map_resolve:
  assumes core: "core_inv rs (pending rs) its acts locs"
    and m: "map_inv rs its locs IgnorePreviousRules m"
    and keep: "\<forall>i < length rs. i \<notin> pending rs \<longrightarrow> locs' ! i = locs ! i"
  shows "map_inv rs (its @ rest) locs' IgnorePreviousRules m"
proof (cases "pending rs = {}")
  case True
  then show ?thesis using m keep by (auto simp: map_inv_def item_at_append)
next
  case False
  then obtain i where i: "i \<in> pending rs" by blast
  then have i': "i < length rs" "\<not> isIgnore (rs ! i)" "locs ! i = u32_max"
    using core joins_not_ignore by (auto simp: core_inv_def pending_def)
  have "m f = None" for f
  proof (rule ccontr)
    assume "m f \<noteq> None"
    then obtain l where l: "m f = Some l" by auto
    then have "locs ! i < l" "item_at its l (Simple IgnorePreviousRules)"
      using m i'(1,2) unfolding map_inv_def by blast+
    moreover have "length (items_bytes its) < 2 ^ 32" using core by (auto simp: core_inv_def)
    ultimately show False using item_at_less [of its l] i'(3) by (fastforce simp: u32_max_def)
  qed
  then show ?thesis by (simp add: map_inv_def)
qed

lemma findOrMake_inv:
  assumes core: "core_inv rs pend its acts locs" and pend: "pending rs \<subseteq> pend \<or> isIgnore r"
    and noPend: "isIgnore r \<Longrightarrow> pend = {}"
    and m: "map_inv rs its locs type m" and type: "m_type (m_action r) = type" "type \<noteq> CSSDisplayNoneSelector"
    and wf: "rule_wf r"
    and f: "findOrMakeActionLocation type flags acts m = Some (l, acts', m')"
  shows "\<exists>ext. core_inv (rs @ [r]) pend (its @ ext) acts' (locs @ [l]) \<and>
    map_inv (rs @ [r]) (its @ ext) (locs @ [l]) type m'"
proof -
  have acts: "acts = items_bytes its" "length acts < 2 ^ 32" and L: "length locs = length rs"
    using core by (auto simp: core_inv_def)
  have it: "rule_item (rs @ [r]) (length rs) = Simple type" using type by (simp add: rule_item_def Let_def)
  have ign: "isIgnore r \<longleftrightarrow> type = IgnorePreviousRules" using type by (simp add: isIgnore_def)
  show ?thesis
  proof (cases "m flags")
    case None
    have l: "l = length acts" "acts' = items_bytes (its @ [Simple type])" "length acts' < 2 ^ 32"
      "m' = m(flags \<mapsto> length acts)"
      using f None acts by (auto simp: findOrMakeActionLocation_def Let_def bind_eq_Some_conv vector_of_Some u32_id)
    have at: "item_at (its @ [Simple type]) l (Simple type)" using item_at_end [of its _ "[]"] acts l by simp
    have less: "locs ! i < l" if "i < length rs" "isIgnore (rs ! i) \<noteq> isIgnore r" for i
    proof -
      have "i \<notin> pend" using core noPend that joins_not_ignore by (auto simp: core_inv_def)
      then show ?thesis using core that acts l by (auto simp: core_inv_def intro: item_at_less)
    qed
    have "core_inv (rs @ [r]) pend (its @ [Simple type]) acts' (locs @ [l])"
      unfolding l(2) using core_inv_push [OF core pend _ _ _ _ _ less, of "[Simple type]"] at it l acts wf type by (auto simp: rule_wf_def)
    moreover have "map_inv (rs @ [r]) (its @ [Simple type]) (locs @ [l]) type m'"
      unfolding map_inv_def
    proof (intro allI impI conjI)
      fix f l' assume f: "m' f = Some l'"
      show "item_at (its @ [Simple type]) l' (Simple type)"
        using f l at m by (auto simp: map_inv_def intro: item_at_append split: if_splits)
      fix i assume i: "i < length (rs @ [r])" "isIgnore ((rs @ [r]) ! i) \<noteq> (type = IgnorePreviousRules)"
      then have i': "i < length rs" using ign by (cases "i = length rs") auto
      show "(locs @ [l]) ! i < l'"
        using f l less [of i] m i i' L ign by (auto simp: map_inv_def nth_append split: if_splits)
    qed
    ultimately show ?thesis by blast
  next
    case (Some l0)
    then have l: "l = l0" "acts' = acts" "m' = m" using f by (auto simp: findOrMakeActionLocation_def)
    have m': "item_at its l (Simple type)"
      "\<And>i. i < length rs \<Longrightarrow> isIgnore (rs ! i) \<noteq> (type = IgnorePreviousRules) \<Longrightarrow> locs ! i < l"
      using m Some l by (auto simp: map_inv_def)
    have "core_inv (rs @ [r]) pend (its @ []) (items_bytes (its @ [])) (locs @ [l])"
      using core_inv_push [OF core pend, of "[]" l] m' it acts ign wf by simp
    moreover have "map_inv (rs @ [r]) (its @ []) (locs @ [l]) type m'"
      using map_inv_push [OF m L, of r "[]" l] ign l by simp
    ultimately show ?thesis using acts l by (intro exI [of _ "[]"]) simp
  qed
qed

lemma maps_inv_push:
  assumes "maps_inv rs its s" "length (actionLocations s) = length rs"
    and "isIgnore r \<Longrightarrow> blockLoadActionsMap s = Map.empty \<and>
      blockCookiesActionsMap s = Map.empty \<and> makeHTTPSActionsMap s = Map.empty"
    and "\<not> isIgnore r \<Longrightarrow> ignorePreviousRuleActionsMap s = Map.empty"
  shows "map_inv (rs @ [r]) (its @ ext) (actionLocations s @ [l]) BlockLoad (blockLoadActionsMap s)"
    and "map_inv (rs @ [r]) (its @ ext) (actionLocations s @ [l]) BlockCookies (blockCookiesActionsMap s)"
    and "map_inv (rs @ [r]) (its @ ext) (actionLocations s @ [l]) MakeHTTPS (makeHTTPSActionsMap s)"
    and "map_inv (rs @ [r]) (its @ ext) (actionLocations s @ [l]) IgnorePreviousRules (ignorePreviousRuleActionsMap s)"
proof -
  note m = assms(1) [unfolded maps_inv_def]
  show "map_inv (rs @ [r]) (its @ ext) (actionLocations s @ [l]) BlockLoad (blockLoadActionsMap s)"
    by (rule map_inv_push) (use m assms(2-) in auto)
  show "map_inv (rs @ [r]) (its @ ext) (actionLocations s @ [l]) BlockCookies (blockCookiesActionsMap s)"
    by (rule map_inv_push) (use m assms(2-) in auto)
  show "map_inv (rs @ [r]) (its @ ext) (actionLocations s @ [l]) MakeHTTPS (makeHTTPSActionsMap s)"
    by (rule map_inv_push) (use m assms(2-) in auto)
  show "map_inv (rs @ [r]) (its @ ext) (actionLocations s @ [l]) IgnorePreviousRules (ignorePreviousRuleActionsMap s)"
    by (rule map_inv_push) (use m assms(2-) in auto)
qed

lemma push_item_inv:
  assumes core: "core_inv rs pend its acts locs" and pend: "pending rs \<subseteq> pend \<or> isIgnore r"
    and noPend: "isIgnore r \<Longrightarrow> pend = {}" and wf: "rule_wf r" "item_wf it"
    and it: "rule_item (rs @ [r]) (length rs) = it" and acts': "acts' = acts @ item_bytes it" "length acts' < 2 ^ 32"
  shows "core_inv (rs @ [r]) pend (its @ [it]) acts' (locs @ [length acts])"
proof -
  have acts: "acts = items_bytes its" using core by (auto simp: core_inv_def)
  have less: "locs ! i < length acts" if "i < length rs" "isIgnore (rs ! i) \<noteq> isIgnore r" for i
  proof -
    have "i \<notin> pend" using core noPend that joins_not_ignore by (auto simp: core_inv_def)
    then show ?thesis using core that acts by (auto simp: core_inv_def intro: item_at_less)
  qed
  have "item_at (its @ [it]) (length acts) it" using item_at_end [of its it "[]"] acts by simp
  then show ?thesis using core_inv_push [OF core pend _ _ _ _ _ less, of "[it]"] it acts acts' wf by simp
qed

lemma serialize_with_domains_inv:
  assumes core: "core_inv rs pend its (s_actions s) (actionLocations s)"
    and pend: "pending rs \<subseteq> pend \<or> isIgnore r" "isIgnore r \<Longrightarrow> pend = {}"
    and maps: "maps_inv rs its s" and cleared: "isIgnore r \<Longrightarrow> blockLoadActionsMap s = Map.empty \<and>
      blockCookiesActionsMap s = Map.empty \<and> makeHTTPSActionsMap s = Map.empty"
      "\<not> isIgnore r \<Longrightarrow> ignorePreviousRuleActionsMap s = Map.empty"
    and wf: "rule_wf r" and dom: "domains (m_trigger r) \<noteq> []" and ser: "serialize_with_domains r s = Some s'"
  shows "\<exists>its'. core_inv (rs @ [r]) pend its' (s_actions s') (actionLocations s') \<and> maps_inv (rs @ [r]) its' s' \<and>
    cssDisplayNoneActionsMap s' = cssDisplayNoneActionsMap s"
proof -
  let ?it = "rule_item (rs @ [r]) (length rs)"
  have l: "length (s_actions s) < 2 ^ 32" and L: "length (actionLocations s) = length rs"
    using core by (auto simp: core_inv_def)
  let ?acts = "s_actions s @ item_bytes ?it"
  have "(if m_type (m_action r) = CSSDisplayNoneSelector
      then serializeSelector (s_actions s) (stringArgument (m_action r))
      else s_actions s @ [byte_of_type (m_type (m_action r))]) = ?acts"
    using dom by (simp add: rule_item_def Let_def serializeSelector_append del: item_bytes.simps(2))
  moreover have u: "u32 (length (s_actions s)) = length (s_actions s)" using l by (rule u32_id)
  ultimately have acts: "length ?acts < 2 ^ 32"
    and s': "s' = s\<lparr>actionLocations := actionLocations s @ [length (s_actions s)], s_actions := ?acts\<rparr>"
    using ser unfolding serialize_with_domains_def Let_def
    by (auto simp: bind_eq_Some_conv vector_of_Some u)
  have "core_inv (rs @ [r]) pend (its @ [?it]) ?acts (actionLocations s @ [length (s_actions s)])"
  proof (rule push_item_inv [OF core pend wf _ refl refl acts])
    show "item_wf ?it" using wf dom by (auto simp: rule_item_def Let_def rule_wf_def)
  qed
  moreover have "maps_inv (rs @ [r]) (its @ [?it]) s'"
    using maps_inv_push [OF maps L cleared] by (simp add: maps_inv_def s')
  ultimately show ?thesis by (intro exI [of _ "its @ [?it]"]) (simp add: s')
qed

lemma serialize_without_domains_inv:
  assumes core: "core_inv rs pend its (s_actions s) (actionLocations s)"
    and pend: "pending rs \<subseteq> pend \<or> isIgnore r" "isIgnore r \<Longrightarrow> pend = {}" and noJoin: "\<not> joins r"
    and maps: "maps_inv rs its s" and cleared: "isIgnore r \<Longrightarrow> blockLoadActionsMap s = Map.empty \<and>
      blockCookiesActionsMap s = Map.empty \<and> makeHTTPSActionsMap s = Map.empty"
      "\<not> isIgnore r \<Longrightarrow> ignorePreviousRuleActionsMap s = Map.empty"
    and wf: "rule_wf r" and dom: "domains (m_trigger r) = []" and ser: "serialize_without_domains r s = Some s'"
  shows "\<exists>its'. core_inv (rs @ [r]) pend its' (s_actions s') (actionLocations s') \<and> maps_inv (rs @ [r]) its' s' \<and>
    cssDisplayNoneActionsMap s' = cssDisplayNoneActionsMap s"
proof -
  have L: "length (actionLocations s) = length rs" using core by (auto simp: core_inv_def)
  let ?type = "m_type (m_action r)"
  define m where "m = (case ?type of IgnorePreviousRules \<Rightarrow> ignorePreviousRuleActionsMap s
    | BlockLoad \<Rightarrow> blockLoadActionsMap s | BlockCookies \<Rightarrow> blockCookiesActionsMap s | _ \<Rightarrow> makeHTTPSActionsMap s)"
  have type: "?type \<in> {IgnorePreviousRules, BlockLoad, BlockCookies, MakeHTTPS}"
    using ser noJoin dom by (cases ?type) (auto simp: serialize_without_domains_def joins_def)
  then obtain l acts m' where
    f: "findOrMakeActionLocation ?type (trigger_flags (m_trigger r)) (s_actions s) m = Some (l, acts, m')"
    and s': "s_actions s' = acts" "actionLocations s' = actionLocations s @ [l]"
      "cssDisplayNoneActionsMap s' = cssDisplayNoneActionsMap s"
      "ignorePreviousRuleActionsMap s' = (if ?type = IgnorePreviousRules then m' else ignorePreviousRuleActionsMap s)"
      "blockLoadActionsMap s' = (if ?type = BlockLoad then m' else blockLoadActionsMap s)"
      "blockCookiesActionsMap s' = (if ?type = BlockCookies then m' else blockCookiesActionsMap s)"
      "makeHTTPSActionsMap s' = (if ?type = MakeHTTPS then m' else makeHTTPSActionsMap s)"
    using ser by (auto simp: serialize_without_domains_def Let_def bind_eq_Some_conv m_def)
  have m: "map_inv rs its (actionLocations s) ?type m" using maps type by (auto simp: maps_inv_def m_def)
  have "?type \<noteq> CSSDisplayNoneSelector" using type by auto
  from findOrMake_inv [OF core pend m refl this wf f] obtain ext where
    ext: "core_inv (rs @ [r]) pend (its @ ext) acts (actionLocations s @ [l])"
    "map_inv (rs @ [r]) (its @ ext) (actionLocations s @ [l]) ?type m'" by blast
  have "maps_inv (rs @ [r]) (its @ ext) s'"
    using ext(2) maps_inv_push [OF maps L cleared] unfolding maps_inv_def s' by auto
  then show ?thesis using ext(1) s' by auto
qed

lemma serialize_rule_inv:
  assumes inv: "ser_inv rs its s" and n: "length rs < 2 ^ 32" and wf: "rule_wf r"
    and ser: "serialize_rule r s = Some s'"
  shows "\<exists>its'. ser_inv (rs @ [r]) its' s'"
proof (cases "isIgnore r")
  case True
  obtain acts locs where res: "resolvePendingDisplayNoneActions (s_actions s) (actionLocations s)
      (cssDisplayNoneActionsMap s) = Some (acts, locs)"
    and ser': "(\<lambda>s. if domains (m_trigger r) \<noteq> [] then serialize_with_domains r s else serialize_without_domains r s)
      (clear_maps (s\<lparr>s_actions := acts, actionLocations := locs, cssDisplayNoneActionsMap := []\<rparr>)) = Some s'"
    using ser True by (auto simp: serialize_rule_def resolve_pending_def isIgnore_def bind_eq_Some_conv)
  define s1 where "s1 = clear_maps (s\<lparr>s_actions := acts, actionLocations := locs, cssDisplayNoneActionsMap := []\<rparr>)"
  have s1: "s_actions s1 = acts" "actionLocations s1 = locs" "cssDisplayNoneActionsMap s1 = []"
    "blockLoadActionsMap s1 = Map.empty" "blockCookiesActionsMap s1 = Map.empty" "makeHTTPSActionsMap s1 = Map.empty"
    "ignorePreviousRuleActionsMap s1 = ignorePreviousRuleActionsMap s"
    by (simp_all add: s1_def clear_maps_def)
  have core: "core_inv rs (pending rs) its (s_actions s) (actionLocations s)"
    and css: "css_inv rs (cssDisplayNoneActionsMap s)"
    and m: "map_inv rs its (actionLocations s) IgnorePreviousRules (ignorePreviousRuleActionsMap s)"
    using inv by (auto simp: ser_inv_def maps_inv_def)
  obtain rest where rest: "core_inv rs {} (its @ rest) (s_actions s1) (actionLocations s1)"
    "\<forall>i < length rs. i \<notin> pending rs \<longrightarrow> actionLocations s1 ! i = actionLocations s ! i"
    using core_inv_resolve [OF core css res] s1 by auto
  have "maps_inv rs (its @ rest) s1"
    using ignore_map_resolve [OF core m rest(2)] s1 by (simp add: maps_inv_def)
  moreover have "\<not> joins r" using True joins_not_ignore by blast
  ultimately have "\<exists>its'. core_inv (rs @ [r]) {} its' (s_actions s') (actionLocations s') \<and>
      maps_inv (rs @ [r]) its' s' \<and> cssDisplayNoneActionsMap s' = cssDisplayNoneActionsMap s1"
    using serialize_with_domains_inv [OF rest(1), of r s'] serialize_without_domains_inv [OF rest(1), of r s']
      ser' True s1 wf unfolding s1_def [symmetric] by (auto split: if_splits)
  then show ?thesis using pending_ignore [OF True] css_inv_ignore [OF True] s1(3)
    by (auto simp: ser_inv_def)
next
  case False
  define s1 where "s1 = s\<lparr>ignorePreviousRuleActionsMap := Map.empty\<rparr>"
  have ser': "(if domains (m_trigger r) \<noteq> [] then serialize_with_domains r else serialize_without_domains r) s1 = Some s'"
    using ser False by (auto simp: serialize_rule_def isIgnore_def s1_def)
  have core: "core_inv rs (pending rs) its (s_actions s1) (actionLocations s1)"
    and css: "css_inv rs (cssDisplayNoneActionsMap s1)" and maps: "maps_inv rs its s1"
    using inv by (auto simp: ser_inv_def maps_inv_def s1_def)
  have L: "length (actionLocations s1) = length rs" using core by (auto simp: core_inv_def)
  show ?thesis
  proof (cases "joins r")
    case True
    then have s': "s' = s1\<lparr>cssDisplayNoneActionsMap := add_pending (m_trigger r) (stringArgument (m_action r))
        (length rs) (cssDisplayNoneActionsMap s1), actionLocations := actionLocations s1 @ [u32_max]\<rparr>"
      using ser' n L by (auto simp: joins_def serialize_without_domains_def u32_id)
    have "maps_inv (rs @ [r]) its s'"
      using maps L False map_inv_push [of rs its "actionLocations s1" _ _ r "[]"]
      by (auto simp: maps_inv_def s' s1_def)
    then show ?thesis using core_inv_pending [OF core True wf] css_inv_joins [OF css True]
      by (auto simp: ser_inv_def s')
  next
    case noJoin: False
    have "\<exists>its'. core_inv (rs @ [r]) (pending rs) its' (s_actions s') (actionLocations s') \<and>
        maps_inv (rs @ [r]) its' s' \<and> cssDisplayNoneActionsMap s' = cssDisplayNoneActionsMap s1"
      using serialize_with_domains_inv [OF core _ _ maps, of r s']
        serialize_without_domains_inv [OF core _ _ noJoin maps, of s'] ser' False noJoin wf
      by (auto simp: s1_def split: if_splits)
    then show ?thesis using css_inv_other [OF css noJoin False] pending_append [OF False, of rs] noJoin
      by (auto simp: ser_inv_def)
  qed
qed

lemma ser_inv_new: "ser_inv [] [] Serializer_new"
  by (simp add: ser_inv_def core_inv_def maps_inv_def css_inv_def Serializer_new_def pending_def joined_def
      item_at_def)

lemma serialize_rules_inv:
  "\<lbrakk>ser_inv done_rules its s; length (done_rules @ rs) \<le> 2 ^ 32; list_all rule_wf rs; serialize_rules rs s = Some s'\<rbrakk>
   \<Longrightarrow> \<exists>its'. ser_inv (done_rules @ rs) its' s'"
proof (induction rs arbitrary: done_rules its s)
  case (Cons r rs)
  then obtain s1 where s1: "serialize_rule r s = Some s1" "serialize_rules rs s1 = Some s'"
    by (auto simp: bind_eq_Some_conv)
  then obtain its1 where "ser_inv (done_rules @ [r]) its1 s1"
    using serialize_rule_inv [OF Cons.prems(1) _ _ s1(1)] Cons.prems(2,3) by auto
  from Cons.IH [OF this _ _ s1(2)] Cons.prems(2,3) show ?case by simp
qed auto

text \<open>The result for a whole list.\<close>

lemma serializeActions_inv:
  assumes "serializeActions rules = Some (acts, locs)" "length rules \<le> 2 ^ 32" "list_all rule_wf rules"
  shows "\<exists>its. core_inv rules {} its acts locs"
proof -
  obtain s s' where s: "serialize_rules rules Serializer_new = Some s" "resolve_pending s = Some s'"
    "acts = s_actions s'" "locs = actionLocations s'"
    using assms(1) by (auto simp: serializeActions_def bind_eq_Some_conv)
  obtain its where inv: "ser_inv rules its s"
    using serialize_rules_inv [OF ser_inv_new _ _ s(1)] assms(2,3) by auto
  have "resolvePendingDisplayNoneActions (s_actions s) (actionLocations s) (cssDisplayNoneActionsMap s) =
      Some (acts, locs)"
    using s by (auto simp: resolve_pending_def bind_eq_Some_conv)
  then show ?thesis using core_inv_resolve [of rules its "s_actions s" "actionLocations s"] inv
    by (fastforce simp: ser_inv_def)
qed

lemma core_inv_deserialize:
  assumes inv: "core_inv rules {} its acts locs" and i: "i < length rules"
  shows "\<exists>a. deserialize acts (length acts) (locs ! i) = Some a \<and>
    Action_equal a (item_action (locs ! i) (rule_item rules i))"
proof -
  have at: "item_at its (locs ! i) (rule_item rules i)" and acts: "acts = items_bytes its" "length acts < 2 ^ 32"
    and wf: "list_all item_wf its"
    using inv i by (auto simp: core_inv_def)
  obtain pre post where pre: "acts = pre @ item_bytes (rule_item rules i) @ post" "length pre = locs ! i"
    using item_at_bytes [OF at] acts by metis
  have "item_wf (rule_item rules i)" using at wf by (auto simp: item_at_def)
  from deserialize_item [OF pre(1) this acts(2)] show ?thesis unfolding pre(2) .
qed

text \<open>
  C23: serializing a rule list. Every rule gets a location at which its action is read back: the type of
  the rule, and for a rule that hides elements its selector, joined with the selectors of the rules
  that have the same trigger and no domains and lie between the same two ignore-previous-rules rules. A
  rule before an ignore-previous-rules rule gets a smaller location and a rule after it a larger one,
  although locations are shared and the joined selectors are written late.
\<close>

theorem serialized_rules:
  assumes "serializeActions rules = Some (acts, locs)" "length rules \<le> 2 ^ 32" "list_all rule_wf rules"
  shows "length locs = length rules \<and>
    (\<forall>i < length rules. \<exists>a. deserialize acts (length acts) (locs ! i) = Some a \<and>
       Action_equal a (item_action (locs ! i) (rule_item rules i))) \<and>
    (\<forall>i < length rules. \<forall>j < length rules. isIgnore (rules ! j) \<longrightarrow> \<not> isIgnore (rules ! i) \<longrightarrow>
       (i < j \<longleftrightarrow> locs ! i < locs ! j))"
proof -
  obtain its where inv: "core_inv rules {} its acts locs" using serializeActions_inv [OF assms] by blast
  have "length locs = length rules" "\<forall>i < length rules. \<forall>j < length rules. isIgnore (rules ! j) \<longrightarrow>
      \<not> isIgnore (rules ! i) \<longrightarrow> (i < j \<longleftrightarrow> locs ! i < locs ! j)"
    using inv by (simp_all add: core_inv_def)
  then show ?thesis using core_inv_deserialize [OF inv] by blast
qed

definition sample_trigger :: "UChars \<Rightarrow> Trigger" where
  "sample_trigger f = Trigger_new\<lparr>urlFilter := f\<rparr>"

definition sample_css :: "UChars \<Rightarrow> UChars \<Rightarrow> ContentExtensionRule" where
  "sample_css f s = \<lparr>m_trigger = sample_trigger f,
     m_action = Action_of_string CSSDisplayNoneSelector \<lparr>characters = s, is8Bit = True\<rparr> u32_max\<rparr>"

definition sample_simple :: "UChars \<Rightarrow> ActionType \<Rightarrow> ContentExtensionRule" where
  "sample_simple f type = \<lparr>m_trigger = sample_trigger f, m_action = Action_of_type type u32_max\<rparr>"

text \<open>Two selectors of one trigger around a block, an ignore-previous-rules rule, and a block again.\<close>

definition sample_rules :: "ContentExtensionRule list" where
  "sample_rules = [sample_css [97] [35], sample_simple [98] BlockLoad, sample_css [97] [46],
     sample_simple [99] IgnorePreviousRules, sample_simple [100] BlockLoad]"

lemma sample_serialized:
  "serializeActions sample_rules = Some ([0, 2, 3, 0, 0, 0, 0, 35, 44, 46, 4, 0], [1, 0, 1, 10, 11])"
  by code_simp

theorem serialized_rules_witness:
  "\<exists>a. deserialize [0, 2, 3, 0, 0, 0, 0, 35, 44, 46, 4, 0] (length [0::u8, 2, 3, 0, 0, 0, 0, 35, 44, 46, 4, 0]) 1 = Some a \<and>
     Action_equal a (item_action 1 (Selector \<lparr>characters = [35, 44, 46], is8Bit = True\<rparr>))"
proof -
  have wf: "list_all rule_wf sample_rules" "length sample_rules = 5"
    by (simp_all add: sample_rules_def sample_css_def sample_simple_def rule_wf_def stringArgument_def
        Action_of_string_def Action_of_type_def string_wf_def StringBuilder_new_def)
  have "rule_item sample_rules 0 = Selector \<lparr>characters = [35, 44, 46], is8Bit = True\<rparr>"
    by code_simp
  moreover have "(0::nat) < length sample_rules" using wf by simp
  ultimately show ?thesis using serialized_rules [OF sample_serialized _ wf(1)] wf(2) by fastforce
qed

end
