(* ===== verification/Content_Extension.thy ===== *)
theory Content_Extension
  imports Rule_Serializer Bytecode_Interpreter
begin

text \<open>
  \<open>ContentExtension.cpp\<close> and \<open>ContentExtensionsBackend.cpp\<close>: a compiled extension as it is used at load
  time. Constructing it collects the actions that apply to every URL and turns the selectors among them
  into one style sheet; a load runs the interpreter, sorts the locations of the actions and reads the
  actions back from the last one to the first, up to an ignore-previous-rules action. Parsing CSS is an
  argument of the definitions. \<open>None\<close> is a failed release assertion, a read out of bounds or a loop that
  does not end.
\<close>

section \<open>Strings as the interpreter reads them\<close>

definition char_of_byte :: "nat \<Rightarrow> cchar" where
  "char_of_byte b = (if b mod 256 < 128 then int (b mod 256) else int (b mod 256) - 256)"

text \<open>\<open>convertUTF16ToUTF8\<close>, not strict: the bytes of one code point, and the loop over the code units.\<close>

definition utf8_code_point :: "nat \<Rightarrow> cchar list" where
  "utf8_code_point ch =
     map char_of_byte
       (if ch < 0x80 then [ch]
        else if ch < 0x800 then [0xC0 + ch div 64, 0x80 + ch mod 64]
        else if ch < 0x10000 then [0xE0 + ch div 4096, 0x80 + ch div 64 mod 64, 0x80 + ch mod 64]
        else [0xF0 + ch div 262144, 0x80 + ch div 4096 mod 64, 0x80 + ch div 64 mod 64, 0x80 + ch mod 64])"

fun utf8 :: "UChars \<Rightarrow> cchar list" where
  "utf8 [] = []"
| "utf8 [ch] = utf8_code_point ch"
| "utf8 (ch # ch2 # source) =
     (if 0xD800 \<le> ch \<and> ch \<le> 0xDBFF \<and> 0xDC00 \<le> ch2 \<and> ch2 \<le> 0xDFFF
      then utf8_code_point ((ch - 0xD800) * 1024 + (ch2 - 0xDC00) + 0x10000) @ utf8 source
      else utf8_code_point ch @ utf8 (ch2 # source))"

text \<open>A null \<open>String\<close> is converted like an empty one.\<close>

definition utf8_of_String :: "UChars option \<Rightarrow> cchar list" where
  "utf8_of_String s = (case s of None \<Rightarrow> [] | Some cs \<Rightarrow> utf8 cs)"

section \<open>Extensions\<close>

record CompiledContentExtension =
  filtersWithoutDomainsBytecode :: "u8 list"
  filtersWithDomainsBytecode :: "u8 list"
  domainFiltersBytecode :: "u8 list"
  compiled_actions :: "u8 list"

text \<open>
  The style sheet is represented by the text it was parsed from, a \<open>String\<close> that may be null by an
  option.
\<close>

record ContentExtension =
  m_identifier :: WString
  m_compiledExtension :: CompiledContentExtension
  m_globalDisplayNoneStyleSheet :: "WString option"
  m_cachedDomain :: "UChars option"
  m_cachedDomainActions :: "u64 set"
  m_cachedUniversalDomainActions :: "nat list"
  m_universalActionsWithoutDomains :: "nat list"
  m_universalActionsWithDomains :: "u64 list"

definition low32 :: "u64 \<Rightarrow> nat" where
  "low32 action = unat action mod 2 ^ 32"

text \<open>Iterating over a set of actions; the order of a hash table is not specified, the model takes the
  order of the numbers.\<close>

definition action_list :: "u64 set \<Rightarrow> u64 list" where
  "action_list acts = sorted_list_of_set acts"

partial_function (option) find_ignore_loop :: "u8 list \<Rightarrow> nat \<Rightarrow> nat \<Rightarrow> nat option" where
  "find_ignore_loop actions actionsLength currentActionIndex =
     (if currentActionIndex < actionsLength
      then do {
        type \<leftarrow> deserializeType actions actionsLength currentActionIndex;
        if type = IgnorePreviousRules then Some currentActionIndex
        else do {
          len \<leftarrow> serializedLength actions actionsLength currentActionIndex;
          find_ignore_loop actions actionsLength (u32 (currentActionIndex + len))
        }
      }
      else Some u32_max)"

declare find_ignore_loop.simps [code]

definition findFirstIgnorePreviousRules :: "u8 list \<Rightarrow> nat option" where
  "findFirstIgnorePreviousRules actions = find_ignore_loop actions (length actions) 0"

definition inGlobalDisplayNoneStyleSheet :: "u8 list \<Rightarrow> nat \<Rightarrow> nat \<Rightarrow> bool option" where
  "inGlobalDisplayNoneStyleSheet actions firstIgnorePreviousRules location =
     (if location < firstIgnorePreviousRules
      then map_option (\<lambda>type. type = CSSDisplayNoneSelector) (deserializeType actions (length actions) location)
      else Some False)"

fun collect_global_css :: "u8 list \<Rightarrow> nat \<Rightarrow> WString \<Rightarrow> nat list \<Rightarrow> WString option" where
  "collect_global_css actions firstIgnorePreviousRules css [] = Some css"
| "collect_global_css actions firstIgnorePreviousRules css (universalActionLocation # locations) =
     do {
       inSheet \<leftarrow> inGlobalDisplayNoneStyleSheet actions firstIgnorePreviousRules universalActionLocation;
       if inSheet
       then do {
         let css = (if characters css \<noteq> [] then StringBuilder_append_char css 44 else css);
         action \<leftarrow> deserialize actions (length actions) universalActionLocation;
         collect_global_css actions firstIgnorePreviousRules
           (StringBuilder_append css (stringArgument action)) locations
       }
       else collect_global_css actions firstIgnorePreviousRules css locations
     }"

fun removeAllMatching :: "(nat \<Rightarrow> bool option) \<Rightarrow> nat list \<Rightarrow> nat list option" where
  "removeAllMatching matches [] = Some []"
| "removeAllMatching matches (x # xs) =
     do {
       m \<leftarrow> matches x;
       rest \<leftarrow> removeAllMatching matches xs;
       Some (if m then rest else x # rest)
     }"

definition literal :: "string \<Rightarrow> WString" where
  "literal s = \<lparr>characters = map of_char s, is8Bit = True\<rparr>"

definition displayNoneCSSRule :: WString where
  "displayNoneCSSRule = literal ''display:none !important;''"

definition compileGlobalDisplayNoneStyleSheet ::
  "(WString \<Rightarrow> bool) \<Rightarrow> ContentExtension \<Rightarrow> ContentExtension option" where
  "compileGlobalDisplayNoneStyleSheet parseString e =
     do {
       let acts = compiled_actions (m_compiledExtension e);
       firstIgnorePreviousRules \<leftarrow> findFirstIgnorePreviousRules acts;
       css \<leftarrow> collect_global_css acts firstIgnorePreviousRules StringBuilder_new (m_universalActionsWithoutDomains e);
       if characters css = [] then Some e
       else do {
         let css = StringBuilder_append (StringBuilder_append (StringBuilder_append css (literal ''{''))
                     displayNoneCSSRule) (literal ''}'');
         locations \<leftarrow> removeAllMatching (inGlobalDisplayNoneStyleSheet acts firstIgnorePreviousRules)
                        (m_universalActionsWithoutDomains e);
         Some (e\<lparr>m_globalDisplayNoneStyleSheet := (if parseString css then Some css else None),
                 m_universalActionsWithoutDomains := locations\<rparr>)
       }
     }"

definition universal_actions :: "u8 list \<Rightarrow> u64 set option" where
  "universal_actions bytecode =
     actionsMatchingEverything \<lparr>i_bytecode = bytecode, i_url = [], i_flags = 0, i_domainActions = None\<rparr>"

definition ContentExtension_create ::
  "(WString \<Rightarrow> bool) \<Rightarrow> WString \<Rightarrow> CompiledContentExtension \<Rightarrow> ContentExtension option" where
  "ContentExtension_create parseString identifier compiledExtension =
     do {
       withoutDomains \<leftarrow> universal_actions (filtersWithoutDomainsBytecode compiledExtension);
       withDomains \<leftarrow> universal_actions (filtersWithDomainsBytecode compiledExtension);
       compileGlobalDisplayNoneStyleSheet parseString
         \<lparr>m_identifier = identifier, m_compiledExtension = compiledExtension,
          m_globalDisplayNoneStyleSheet = None, m_cachedDomain = None, m_cachedDomainActions = {},
          m_cachedUniversalDomainActions = [],
          m_universalActionsWithoutDomains = map low32 (action_list withoutDomains),
          m_universalActionsWithDomains = action_list withDomains\<rparr>
     }"

definition populateDomainCacheIfNeeded :: "UChars option \<Rightarrow> ContentExtension \<Rightarrow> ContentExtension option" where
  "populateDomainCacheIfNeeded domain e =
     (if m_cachedDomain e \<noteq> domain
      then do {
        domainActions \<leftarrow> interpret_url (domainFiltersBytecode (m_compiledExtension e)) (utf8_of_String domain)
                           (LoadTypeMask OR ResourceTypeMask);
        Some (e\<lparr>m_cachedDomainActions := domainActions,
                m_cachedUniversalDomainActions :=
                  map low32 (filter (\<lambda>action. matchesDomain action domainActions) (m_universalActionsWithDomains e)),
                m_cachedDomain := domain\<rparr>)
      }
      else Some e)"

section \<open>The backend\<close>

type_synonym Backend = "(UChars \<times> ContentExtension) list"

fun set_extension :: "UChars \<Rightarrow> ContentExtension \<Rightarrow> Backend \<Rightarrow> Backend" where
  "set_extension identifier e [] = [(identifier, e)]"
| "set_extension identifier e ((i, e') # b) =
     (if i = identifier then (i, e) # b else (i, e') # set_extension identifier e b)"

definition removeContentExtension :: "UChars \<Rightarrow> Backend \<Rightarrow> Backend" where
  "removeContentExtension identifier b = filter (\<lambda>(i, e). i \<noteq> identifier) b"

definition removeAllContentExtensions :: "Backend \<Rightarrow> Backend" where
  "removeAllContentExtensions b = []"

definition addContentExtension ::
  "(WString \<Rightarrow> bool) \<Rightarrow> WString \<Rightarrow> CompiledContentExtension option \<Rightarrow> Backend \<Rightarrow> Backend option" where
  "addContentExtension parseString identifier compiledContentExtension b =
     (if characters identifier = [] then Some b
      else case compiledContentExtension of
             None \<Rightarrow> Some (removeContentExtension (characters identifier) b)
           | Some compiled \<Rightarrow>
               do {
                 extension \<leftarrow> ContentExtension_create parseString identifier compiled;
                 Some (set_extension (characters identifier) extension b)
               })"

text \<open>What a load is matched against; the URL classes and security origins are read into these fields.\<close>

record ResourceLoadInfo =
  resourceURL_string :: UChars
  resourceURL_protocolIsData :: bool
  mainDocumentURL_host :: "UChars option"
  resource_type :: ResourceFlags
  isThirdParty :: bool

definition getResourceFlags :: "ResourceLoadInfo \<Rightarrow> ResourceFlags" where
  "getResourceFlags info = (0 OR resource_type info) OR (if isThirdParty info then 0x0800 else 0x0400)"

text \<open>The loop over the sorted locations, from the last one; the flag is \<open>sawIgnorePreviousRules\<close>.\<close>

fun final_actions :: "u8 list \<Rightarrow> UChars \<Rightarrow> nat list \<Rightarrow> Action list \<Rightarrow> (Action list \<times> bool) option" where
  "final_actions actions identifier [] finalActions = Some (finalActions, False)"
| "final_actions actions identifier (location # locations) finalActions =
     do {
       action \<leftarrow> deserialize actions (length actions) location;
       let action = setExtensionIdentifier identifier action;
       if m_type action = IgnorePreviousRules then Some (finalActions, True)
       else final_actions actions identifier locations (finalActions @ [action])
     }"

definition process_locations :: "u8 list \<Rightarrow> UChars \<Rightarrow> nat list \<Rightarrow> (Action list \<times> bool) option" where
  "process_locations actions identifier locations =
     final_actions actions identifier (rev (sort locations)) []"

definition extension_actions ::
  "ResourceLoadInfo \<Rightarrow> ContentExtension \<Rightarrow> Action list \<Rightarrow> (Action list \<times> ContentExtension) option" where
  "extension_actions info e finalActions =
     do {
       let url = utf8 (resourceURL_string info);
       let flags = getResourceFlags info;
       let compiled = m_compiledExtension e;
       withoutDomainsActions \<leftarrow> interpret_url (filtersWithoutDomainsBytecode compiled) url flags;
       let domain = mainDocumentURL_host info;
       e \<leftarrow> populateDomainCacheIfNeeded domain e;
       withDomainsActions \<leftarrow>
         interpretWithDomains (filtersWithDomainsBytecode compiled) url flags (m_cachedDomainActions e);
       let universalWithDomains = m_cachedUniversalDomainActions e;
       let universalWithoutDomains = m_universalActionsWithoutDomains e;
       (new, sawIgnorePreviousRules) \<leftarrow>
         (if withoutDomainsActions \<noteq> {} \<or> withDomainsActions \<noteq> {} \<or> universalWithDomains \<noteq> [] \<or>
             universalWithoutDomains \<noteq> []
          then process_locations (compiled_actions compiled) (characters (m_identifier e))
                 (map low32 (action_list withoutDomainsActions) @ map low32 (action_list withDomainsActions) @
                  universalWithoutDomains @ universalWithDomains)
          else Some ([], False));
       Some (finalActions @ new @
               (if sawIgnorePreviousRules then []
                else [setExtensionIdentifier (characters (m_identifier e))
                        (Action_of_string CSSDisplayNoneStyleSheet (m_identifier e) u32_max)]),
             e)
     }"

fun all_extension_actions :: "ResourceLoadInfo \<Rightarrow> Backend \<Rightarrow> Action list \<Rightarrow> (Action list \<times> Backend) option" where
  "all_extension_actions info [] finalActions = Some (finalActions, [])"
| "all_extension_actions info ((i, e) # b) finalActions =
     do {
       (finalActions, e) \<leftarrow> extension_actions info e finalActions;
       (finalActions, b) \<leftarrow> all_extension_actions info b finalActions;
       Some (finalActions, (i, e) # b)
     }"

definition actionsForResourceLoad :: "ResourceLoadInfo \<Rightarrow> Backend \<Rightarrow> (Action list \<times> Backend) option" where
  "actionsForResourceLoad info b =
     (if resourceURL_protocolIsData info then Some ([], b) else all_extension_actions info b [])"

definition globalDisplayNoneStyleSheet :: "UChars \<Rightarrow> Backend \<Rightarrow> WString option" where
  "globalDisplayNoneStyleSheet identifier b =
     (case map_of b identifier of None \<Rightarrow> None | Some e \<Rightarrow> m_globalDisplayNoneStyleSheet e)"

section \<open>Applying the actions to a load\<close>

text \<open>
  The parts of a request's URL that are read and set, and what a load does to its surroundings, in order.
\<close>

record RequestURL =
  url_protocol :: UChars
  url_port :: "nat option"
  url_rest :: UChars

datatype load_effect =
    AddPendingSelector "UChars option" WString nat
  | AddSelector "UChars option" WString nat
  | AddPendingSheet WString WString
  | MaybeAddSheet WString WString
  | SetDocumentLoaderURL RequestURL
  | PromotedMessage RequestURL RequestURL
  | PreventedMessage

record ResourceRequest =
  request_url :: RequestURL
  allowCookies :: bool

definition defaultPortForProtocol :: "UChars \<Rightarrow> nat" where
  "defaultPortForProtocol protocol =
     (let p = map (\<lambda>c. nat (toASCIILower (int c))) protocol in
      if p = characters (literal ''http'') then 80 else if p = characters (literal ''https'') then 443
      else if p = characters (literal ''ftp'') then 21 else if p = characters (literal ''ftps'') then 990 else 0)"

definition isDefaultPortForProtocol :: "nat \<Rightarrow> UChars \<Rightarrow> bool" where
  "isDefaultPortForProtocol port protocol \<longleftrightarrow> protocol \<noteq> [] \<and> defaultPortForProtocol protocol = port"

text \<open>The facts about the loader that the code asks for: is the load a document, is there a current
  document, is the loader loading its main resource.\<close>

record LoadContext =
  isDocument :: bool
  hasCurrentDocument :: bool
  isLoadingMainResource :: bool

definition make_https :: "LoadContext \<Rightarrow> ResourceRequest \<Rightarrow> ResourceRequest \<times> load_effect list" where
  "make_https ctx request =
     (let originalURL = request_url request in
      if map (\<lambda>c. nat (toASCIILower (int c))) (url_protocol originalURL) = characters (literal ''http'') \<and>
         (url_port originalURL = None \<or> isDefaultPortForProtocol (the (url_port originalURL)) (url_protocol originalURL))
      then let newURL = originalURL\<lparr>url_protocol := characters (literal ''https'')\<rparr>;
               newURL = (if url_port originalURL \<noteq> None
                         then newURL\<lparr>url_port := Some (defaultPortForProtocol (characters (literal ''https'')))\<rparr> else newURL)
           in (request\<lparr>request_url := newURL\<rparr>,
               (if isDocument ctx \<and> isLoadingMainResource ctx then [SetDocumentLoaderURL newURL] else []) @
               (if hasCurrentDocument ctx then [PromotedMessage originalURL newURL] else []))
      else (request, []))"

fun apply_actions ::
  "(UChars \<Rightarrow> WString option) \<Rightarrow> LoadContext \<Rightarrow> Action list \<Rightarrow> ResourceRequest \<Rightarrow> bool \<Rightarrow> load_effect list
   \<Rightarrow> (ResourceRequest \<times> bool \<times> load_effect list) option" where
  "apply_actions sheet ctx [] request willBlockLoad effects = Some (request, willBlockLoad, effects)"
| "apply_actions sheet ctx (action # actions) request willBlockLoad effects =
     (case m_type action of
        BlockLoad \<Rightarrow> apply_actions sheet ctx actions request True effects
      | BlockCookies \<Rightarrow> apply_actions sheet ctx actions (request\<lparr>allowCookies := False\<rparr>) willBlockLoad effects
      | CSSDisplayNoneSelector \<Rightarrow>
          apply_actions sheet ctx actions request willBlockLoad
            (effects @
               (if isDocument ctx
                then [AddPendingSelector (m_extensionIdentifier action) (stringArgument action) (m_actionID action)]
                else if hasCurrentDocument ctx
                then [AddSelector (m_extensionIdentifier action) (stringArgument action) (m_actionID action)]
                else []))
      | CSSDisplayNoneStyleSheet \<Rightarrow>
          apply_actions sheet ctx actions request willBlockLoad
            (effects @
               (case sheet (characters (stringArgument action)) of
                  None \<Rightarrow> []
                | Some contents \<Rightarrow>
                    if isDocument ctx then [AddPendingSheet (stringArgument action) contents]
                    else if hasCurrentDocument ctx then [MaybeAddSheet (stringArgument action) contents] else []))
      | MakeHTTPS \<Rightarrow>
          (case make_https ctx request of (request, new) \<Rightarrow>
             apply_actions sheet ctx actions request willBlockLoad (effects @ new))
      | IgnorePreviousRules \<Rightarrow> None
      | InvalidAction \<Rightarrow> None)"

datatype BlockedStatus = Blocked | NotBlocked

definition processContentExtensionRulesForLoad ::
  "LoadContext \<Rightarrow> ResourceLoadInfo \<Rightarrow> ResourceRequest \<Rightarrow> Backend
   \<Rightarrow> (BlockedStatus \<times> ResourceRequest \<times> load_effect list \<times> Backend) option" where
  "processContentExtensionRulesForLoad ctx info request b =
     do {
       (actions, b) \<leftarrow> actionsForResourceLoad info b;
       (request, willBlockLoad, effects) \<leftarrow>
         apply_actions (\<lambda>identifier. globalDisplayNoneStyleSheet identifier b) ctx actions request False [];
       Some (if willBlockLoad
             then (Blocked, request, effects @ (if hasCurrentDocument ctx then [PreventedMessage] else []), b)
             else (NotBlocked, request, effects, b))
     }"

section \<open>Style sheets of a document\<close>

text \<open>\<open>ContentExtensionStyleSheet\<close>: the identifiers already added and the rules parsed so far.\<close>

record ContentExtensionStyleSheet =
  m_addedSelectorIDs :: "nat set"
  m_styleSheet :: "WString list"

definition addDisplayNoneSelector ::
  "WString \<Rightarrow> nat \<Rightarrow> ContentExtensionStyleSheet \<Rightarrow> bool \<times> ContentExtensionStyleSheet" where
  "addDisplayNoneSelector selector selectorID s =
     (if selectorID \<in> m_addedSelectorIDs s then (False, s)
      else let css = StringBuilder_append_char (StringBuilder_append (StringBuilder_append_char
                 (StringBuilder_append StringBuilder_new selector) 123) displayNoneCSSRule) 125
           in (True, s\<lparr>m_addedSelectorIDs := insert selectorID (m_addedSelectorIDs s),
                       m_styleSheet := m_styleSheet s @ [css]\<rparr>))"

section \<open>Which actions a load gets\<close>

definition location_type :: "u8 list \<Rightarrow> nat \<Rightarrow> ActionType" where
  "location_type acts l = m_type (the (deserialize acts (length acts) l))"

lemma final_actions_takeWhile:
  "(\<And>l. l \<in> set ls \<Longrightarrow> deserialize acts (length acts) l \<noteq> None) \<Longrightarrow>
   final_actions acts ident ls found =
     Some (found @ map (\<lambda>l. setExtensionIdentifier ident (the (deserialize acts (length acts) l)))
             (takeWhile (\<lambda>l. location_type acts l \<noteq> IgnorePreviousRules) ls),
           \<exists>l \<in> set ls. location_type acts l = IgnorePreviousRules)"
proof (induction ls arbitrary: found)
  case (Cons l ls)
  then obtain a where "deserialize acts (length acts) l = Some a" by fastforce
  then show ?case using Cons
    by (auto simp: Let_def location_type_def setExtensionIdentifier_def)
qed simp

lemma takeWhile_descending:
  assumes "sorted_wrt (\<ge>) ls" "l \<in> set ls"
  shows "l \<in> set (takeWhile (\<lambda>l. \<not> P l) ls) \<longleftrightarrow> \<not> P l \<and> (\<forall>k \<in> set ls. P k \<longrightarrow> k < (l::nat))"
  using assms
proof (induction ls)
  case (Cons k ls)
  have ge: "l' \<le> k" if "l' \<in> set ls" for l' using Cons.prems(1) that by auto
  show ?case
  proof (cases "P k")
    case True
    then show ?thesis using Cons.prems(2) ge by (auto simp: not_less)
  next
    case False
    show ?thesis
    proof (cases "l \<in> set ls")
      case True
      then show ?thesis using Cons False by auto
    next
      case l: False
      then have "l = k" using Cons.prems(2) by simp
      then show ?thesis using False l ge by (auto simp: order.strict_iff_order)
    qed
  qed
qed simp

text \<open>The rules of \<open>M\<close> that no later ignore-previous-rules rule of \<open>M\<close> cancels.\<close>

definition effective :: "ContentExtensionRule list \<Rightarrow> nat set \<Rightarrow> nat set" where
  "effective rules M = {i \<in> M. \<not> isIgnore (rules ! i) \<and> (\<forall>j \<in> M. isIgnore (rules ! j) \<longrightarrow> j < i)}"

lemma rule_item_ignore: "item_type (rule_item rules i) = IgnorePreviousRules \<longleftrightarrow> isIgnore (rules ! i)"
  by (auto simp: rule_item_def Let_def isIgnore_def)

lemma item_action_type: "m_type (item_action l it) = item_type it"
  by (cases it) (simp_all add: Action_of_type_def Action_of_string_def)

lemma process_serialized:
  assumes inv: "core_inv rules {} its acts locs" and M: "set M \<subseteq> {..<length rules}"
  shows "\<exists>found. process_locations acts identifier (map ((!) locs) M) =
      Some (found, \<exists>j \<in> set M. isIgnore (rules ! j)) \<and>
    (\<forall>a. a \<in> set found \<longleftrightarrow> (\<exists>i \<in> effective rules (set M). \<exists>a'. deserialize acts (length acts) (locs ! i) = Some a' \<and>
       a = setExtensionIdentifier identifier a'))"
proof -
  let ?ls = "rev (sort (map ((!) locs) M))"
  let ?d = "\<lambda>l. deserialize acts (length acts) l"
  have d: "\<exists>a. ?d (locs ! i) = Some a \<and> m_type a = item_type (rule_item rules i)" if "i \<in> set M" for i
    using core_inv_deserialize [OF inv, of i] M that by (auto simp: Action_equal_def item_action_type)
  have ty: "location_type acts (locs ! i) = IgnorePreviousRules \<longleftrightarrow> isIgnore (rules ! i)" if "i \<in> set M" for i
    using d [OF that] rule_item_ignore [of rules i] by (auto simp: location_type_def)
  have some: "?d l \<noteq> None" if "l \<in> set ?ls" for l using that d by fastforce
  let ?t = "takeWhile (\<lambda>l. location_type acts l \<noteq> IgnorePreviousRules) ?ls"
  have f: "final_actions acts identifier ?ls [] =
      Some ([] @ map (\<lambda>l. setExtensionIdentifier identifier (the (?d l))) ?t,
        \<exists>l \<in> set ?ls. location_type acts l = IgnorePreviousRules)"
    by (rule final_actions_takeWhile) (rule some)
  have desc: "sorted_wrt (\<ge>) ?ls" by (simp add: sorted_wrt_rev)
  have ord: "locs ! j < locs ! i \<longleftrightarrow> j < i"
    if "i \<in> set M" "j \<in> set M" "isIgnore (rules ! j)" "\<not> isIgnore (rules ! i)" for i j
  proof -
    have b: "i < length rules" "j < length rules" using that M by auto
    have "i < j \<longleftrightarrow> locs ! i < locs ! j" using inv that b by (simp add: core_inv_def)
    moreover have "locs ! i \<noteq> locs ! j" using ty [OF that(1)] ty [OF that(2)] that(3,4) by auto
    moreover have "i \<noteq> j" using that by auto
    ultimately show ?thesis by linarith
  qed
  have mem: "locs ! i \<in> set ?t \<longleftrightarrow> i \<in> effective rules (set M)" if i: "i \<in> set M" for i
    using takeWhile_descending [OF desc, of "locs ! i" "\<lambda>l. location_type acts l = IgnorePreviousRules"] i ty ord
    by (auto simp: effective_def)
  have sub: "set ?t \<subseteq> (!) locs ` set M" by (auto dest: set_takeWhileD)
  have "a \<in> (\<lambda>l. setExtensionIdentifier identifier (the (?d l))) ` set ?t \<longleftrightarrow>
      (\<exists>i \<in> effective rules (set M). \<exists>a'. ?d (locs ! i) = Some a' \<and> a = setExtensionIdentifier identifier a')"
    (is "?l \<longleftrightarrow> ?r") for a
  proof
    assume ?l
    then obtain l where l: "l \<in> set ?t" "a = setExtensionIdentifier identifier (the (?d l))" by auto
    then obtain i where "i \<in> set M" "l = locs ! i" using sub by auto
    then show ?r using mem l d by fastforce
  next
    assume ?r
    then obtain i a' where i: "i \<in> effective rules (set M)" "?d (locs ! i) = Some a'"
      "a = setExtensionIdentifier identifier a'" by auto
    then have "locs ! i \<in> set ?t" using mem by (auto simp: effective_def)
    then show ?l using i by (intro image_eqI [of _ _ "locs ! i"]) simp_all
  qed
  moreover have "(\<exists>l \<in> set ?ls. location_type acts l = IgnorePreviousRules) \<longleftrightarrow> (\<exists>j \<in> set M. isIgnore (rules ! j))"
    using ty by auto
  ultimately show ?thesis unfolding process_locations_def f by (simp del: set_rev set_sort)
qed

text \<open>
  C24: what \<open>ignore-previous-rules\<close> means. Given the locations of the rules that match a load, in any order and
  with repetitions, the backend returns exactly the actions of those matching rules that come after the last
  matching ignore-previous-rules rule, and it reports whether there was one. Sorting locations
  therefore implements the order of the rules.
\<close>

theorem load_applies_effective_rules:
  assumes "serializeActions rules = Some (acts, locs)" "length rules \<le> 2 ^ 32" "list_all rule_wf rules"
    and "set M \<subseteq> {..<length rules}"
  shows "\<exists>found. process_locations acts identifier (map ((!) locs) M) =
      Some (found, \<exists>j \<in> set M. isIgnore (rules ! j)) \<and>
    (\<forall>a. a \<in> set found \<longleftrightarrow> (\<exists>i \<in> effective rules (set M). \<exists>a'. deserialize acts (length acts) (locs ! i) = Some a' \<and>
       a = setExtensionIdentifier identifier a'))"
  using process_serialized [OF _ assms(4)] serializeActions_inv [OF assms(1-3)] by blast

theorem load_applies_effective_rules_witness:
  "\<exists>found. process_locations [0, 2, 3, 0, 0, 0, 0, 35, 44, 46, 4, 0] [101] (map ((!) [1, 0, 1, 10, 11]) [4, 0, 3]) =
      Some (found, True) \<and> set (map m_type found) \<subseteq> {BlockLoad} \<and> effective sample_rules {4, 0, 3} = {4}"
proof -
  have wf: "list_all rule_wf sample_rules" "length sample_rules = 5"
    by (simp_all add: sample_rules_def sample_css_def sample_simple_def rule_wf_def stringArgument_def
        Action_of_string_def Action_of_type_def string_wf_def StringBuilder_new_def)
  have e: "effective sample_rules {4, 0, 3} = {4}" "isIgnore (sample_rules ! 3)"
    by (auto simp: effective_def sample_rules_def isIgnore_def sample_css_def sample_simple_def
        Action_of_string_def Action_of_type_def)
  have "deserialize [0, 2, 3, 0, 0, 0, 0, 35, 44, 46, 4, 0]
      (length [0::u8, 2, 3, 0, 0, 0, 0, 35, 44, 46, 4, 0]) 11 = Some (Action_of_type BlockLoad 11)" by code_simp
  then show ?thesis using load_applies_effective_rules [OF sample_serialized, of "[4, 0, 3]" "[101]"] wf e
    by (auto simp: setExtensionIdentifier_def Action_of_type_def)
qed

section \<open>The first ignore-previous-rules action\<close>

text \<open>The items before the first one that ignores the previous rules.\<close>

definition not_ignore :: "action_item \<Rightarrow> bool" where
  "not_ignore it \<longleftrightarrow> item_type it \<noteq> IgnorePreviousRules"

lemma find_ignore_items:
  assumes "list_all item_wf (xs @ ys)" "length (items_bytes (xs @ ys)) < 2 ^ 32"
  shows "find_ignore_loop (items_bytes (xs @ ys)) (length (items_bytes (xs @ ys))) (length (items_bytes xs)) =
    Some (if list_all not_ignore ys then u32_max
          else length (items_bytes (xs @ takeWhile not_ignore ys)))"
  using assms
proof (induction ys arbitrary: xs)
  case Nil
  then show ?case by (subst find_ignore_loop.simps) simp
next
  case (Cons it ys)
  let ?b = "items_bytes (xs @ it # ys)"
  have b: "?b = items_bytes xs @ item_bytes it @ items_bytes ys" by simp
  have wf: "item_wf it" using Cons.prems(1) by simp
  have ty: "deserializeType ?b (length ?b) (length (items_bytes xs)) = Some (item_type it)"
    by (rule deserializeType_item [OF b wf])
  have len: "serializedLength ?b (length ?b) (length (items_bytes xs)) = Some (length (item_bytes it))"
    by (rule serializedLength_item [OF b wf Cons.prems(2)])
  have less: "length (items_bytes xs) < length ?b" using item_bytes_ne [of it] by simp
  have u: "u32 (length (items_bytes xs) + length (item_bytes it)) = length (items_bytes (xs @ [it]))"
    using Cons.prems(2) by (simp add: u32_id)
  have IH: "find_ignore_loop ?b (length ?b) (length (items_bytes (xs @ [it]))) =
      Some (if list_all not_ignore ys then u32_max else length (items_bytes ((xs @ [it]) @ takeWhile not_ignore ys)))"
    using Cons.IH [of "xs @ [it]"] Cons.prems by simp
  show ?case
  proof (cases "not_ignore it")
    case True
    then have "find_ignore_loop ?b (length ?b) (length (items_bytes xs)) =
        find_ignore_loop ?b (length ?b) (length (items_bytes (xs @ [it])))"
      by (subst find_ignore_loop.simps) (use less ty len u in \<open>simp add: not_ignore_def\<close>)
    then show ?thesis unfolding IH using True by simp
  next
    case False
    then show ?thesis by (subst find_ignore_loop.simps) (use less ty in \<open>simp add: not_ignore_def\<close>)
  qed
qed

lemma first_ignore_item:
  assumes "\<not> list_all not_ignore its" "list_all item_wf its"
  shows "item_at its (length (items_bytes (takeWhile not_ignore its))) (Simple IgnorePreviousRules)"
proof -
  let ?d = "dropWhile not_ignore its"
  have "?d \<noteq> []" using assms(1) by (auto simp: list_all_iff dropWhile_eq_Nil_conv)
  then obtain it ys where d: "?d = it # ys" by (cases ?d) auto
  then have "\<not> not_ignore it" by (simp add: dropWhile_eq_Cons_conv)
  moreover have "it \<in> set its" using d by (metis list.set_intros(1) set_dropWhileD)
  ultimately have "it = Simple IgnorePreviousRules" by (cases it) (auto simp: not_ignore_def)
  then show ?thesis using d takeWhile_dropWhile_id [of not_ignore its] unfolding item_at_def by metis
qed

lemma item_at_order:
  assumes "item_at its l it" "\<not> not_ignore it"
  shows "length (items_bytes (takeWhile not_ignore its)) \<le> l"
proof -
  obtain xs ys where "its = xs @ it # ys" "l = length (items_bytes xs)" using assms(1) by (auto simp: item_at_def)
  moreover have "\<exists>zs. xs = takeWhile not_ignore (xs @ it # ys) @ zs"
  proof -
    have "takeWhile not_ignore (xs @ it # ys) = takeWhile not_ignore xs"
      using assms(2) by (induction xs) auto
    then show ?thesis by (metis takeWhile_dropWhile_id)
  qed
  ultimately show ?thesis by (metis items_bytes_simps(2) le_add1 length_append)
qed

text \<open>
  C25: \<open>findFirstIgnorePreviousRules\<close> ends on the actions of every rule list, and finds the boundary it is named
  after: a rule lies before it exactly when no ignore-previous-rules rule comes before the rule in
  the list, and the location of every ignore-previous-rules rule is at it or after it. Without such a rule it is the largest
  32-bit number.
\<close>

theorem first_ignore_found:
  assumes "serializeActions rules = Some (acts, locs)" "length rules \<le> 2 ^ 32" "list_all rule_wf rules"
  shows "\<exists>first. findFirstIgnorePreviousRules acts = Some first \<and>
    (first = u32_max \<longleftrightarrow> (\<forall>j < length rules. \<not> isIgnore (rules ! j))) \<and>
    (\<forall>i < length rules. locs ! i < first \<longleftrightarrow> (\<forall>j \<le> i. \<not> isIgnore (rules ! j)))"
proof -
  obtain its where inv: "core_inv rules {} its acts locs" using serializeActions_inv [OF assms] by blast
  then have acts: "acts = items_bytes its" "length acts < 2 ^ 32" and wf: "list_all item_wf its"
    and at: "\<And>i. i < length rules \<Longrightarrow> item_at its (locs ! i) (rule_item rules i)"
    and origin: "\<And>l. item_at its l (Simple IgnorePreviousRules) \<Longrightarrow> \<exists>j < length rules. isIgnore (rules ! j) \<and> locs ! j = l"
    and ord: "\<And>i j. \<lbrakk>i < length rules; j < length rules; isIgnore (rules ! j); \<not> isIgnore (rules ! i)\<rbrakk> \<Longrightarrow>
      (i < j \<longleftrightarrow> locs ! i < locs ! j)"
    by (auto simp: core_inv_def)
  define first where "first = (if list_all not_ignore its then u32_max else length (items_bytes (takeWhile not_ignore its)))"
  have f: "findFirstIgnorePreviousRules acts = Some first"
    using find_ignore_items [of "[]" its] wf acts by (simp add: findFirstIgnorePreviousRules_def first_def)
  have small: "locs ! i < u32_max" if "i < length rules" for i
    using item_at_less [OF at [OF that]] acts by (simp add: u32_max_def)
  have le: "first \<le> locs ! j" if "j < length rules" "isIgnore (rules ! j)" for j
  proof -
    have n: "\<not> not_ignore (rule_item rules j)" using that rule_item_ignore by (simp add: not_ignore_def)
    then have "\<not> list_all not_ignore its" using at [OF that(1)] by (auto simp: item_at_def)
    then show ?thesis using item_at_order [OF at [OF that(1)] n] by (simp add: first_def)
  qed
  have reached: "\<exists>j < length rules. isIgnore (rules ! j) \<and> locs ! j = first" if "first \<noteq> u32_max"
    using origin first_ignore_item [OF _ wf] that by (auto simp: first_def split: if_splits)
  have "locs ! i < first \<longleftrightarrow> (\<forall>j \<le> i. \<not> isIgnore (rules ! j))" if i: "i < length rules" for i
  proof
    assume less: "locs ! i < first"
    show "\<forall>j \<le> i. \<not> isIgnore (rules ! j)"
    proof (intro allI impI notI)
      fix j assume j: "j \<le> i" "isIgnore (rules ! j)"
      have "first \<le> locs ! j" using le j i by simp
      then have "locs ! i < locs ! j" using less by simp
      moreover have "\<not> isIgnore (rules ! i)" using le [OF i] less by auto
      ultimately show False using ord [of i j] i j by simp
    qed
  next
    assume none: "\<forall>j \<le> i. \<not> isIgnore (rules ! j)"
    show "locs ! i < first"
    proof (cases "first = u32_max")
      case False
      then obtain j where "j < length rules" "isIgnore (rules ! j)" "locs ! j = first" using reached by blast
      then show ?thesis using ord [of i j] none i by (metis not_le order_refl)
    qed (use small i in simp)
  qed
  moreover have "first = u32_max \<longleftrightarrow> (\<forall>j < length rules. \<not> isIgnore (rules ! j))"
    using reached le small by (metis not_le)
  ultimately show ?thesis using f by blast
qed

theorem first_ignore_found_witness:
  "findFirstIgnorePreviousRules [0, 2, 3, 0, 0, 0, 0, 35, 44, 46, 4, 0] \<noteq> None"
  using first_ignore_found [OF sample_serialized]
  by (auto simp: sample_rules_def sample_css_def sample_simple_def rule_wf_def stringArgument_def
      Action_of_string_def Action_of_type_def string_wf_def StringBuilder_new_def)

section \<open>Applying actions\<close>

text \<open>The actions of a load have no type on which applying them stops.\<close>

lemma deserialize_type:
  "deserialize acts n l = Some a \<Longrightarrow> m_type a \<in> {BlockLoad, BlockCookies, CSSDisplayNoneSelector, IgnorePreviousRules, MakeHTTPS}"
proof -
  assume d: "deserialize acts n l = Some a"
  then obtain b type where b: "read_byte acts l = Some b" "type_of_byte b = Some type"
    by (auto simp: deserialize_def bind_eq_Some_conv split: if_splits option.splits)
  have "m_type a = CSSDisplayNoneSelector" if "deserialize_selector acts n l = Some a"
    using that by (auto simp: deserialize_selector_def Let_def bind_eq_Some_conv Action_of_string_def split: if_splits)
  then show ?thesis using d b
    by (cases type) (auto simp: deserialize_def Action_of_type_def split: if_splits)
qed

definition applicable :: "Action \<Rightarrow> bool" where
  "applicable a \<longleftrightarrow> m_type a \<noteq> IgnorePreviousRules \<and> m_type a \<noteq> InvalidAction"

lemma final_actions_applicable:
  "\<lbrakk>final_actions acts ident ls found = Some (r, saw); list_all applicable found\<rbrakk> \<Longrightarrow> list_all applicable r"
proof (induction ls arbitrary: found)
  case (Cons l ls)
  obtain a where a: "deserialize acts (length acts) l = Some a" using Cons.prems(1) by (auto simp: bind_eq_Some_conv)
  show ?case
  proof (cases "m_type a = IgnorePreviousRules")
    case True
    then show ?thesis using Cons.prems a by (simp add: Let_def setExtensionIdentifier_def)
  next
    case False
    then have "applicable (setExtensionIdentifier ident a)"
      using deserialize_type [OF a] by (auto simp: applicable_def setExtensionIdentifier_def)
    then show ?thesis using Cons False a by (simp add: Let_def setExtensionIdentifier_def)
  qed
qed simp

lemma extension_actions_applicable:
  assumes "extension_actions info e found = Some (r, e')" "list_all applicable found"
  shows "list_all applicable r"
  using assms
  by (auto simp: extension_actions_def Let_def bind_eq_Some_conv process_locations_def applicable_def
      setExtensionIdentifier_def Action_of_string_def split: if_splits dest!: final_actions_applicable)

lemma all_extension_actions_applicable:
  "\<lbrakk>all_extension_actions info b found = Some (r, b'); list_all applicable found\<rbrakk> \<Longrightarrow> list_all applicable r"
proof (induction b arbitrary: found b')
  case (Cons x b)
  obtain i e where x: "x = (i, e)" by (cases x)
  obtain found1 e1 where "extension_actions info e found = Some (found1, e1)"
    using Cons.prems(1) x by (auto simp: bind_eq_Some_conv)
  then show ?case using Cons.prems Cons.IH [of found1] extension_actions_applicable [of info e found found1 e1] x
    by (auto simp: bind_eq_Some_conv)
qed simp

lemma apply_actions_blocks:
  "list_all applicable as \<Longrightarrow> \<exists>request' effects'. apply_actions sheet ctx as request block effects =
     Some (request', block \<or> (\<exists>a \<in> set as. m_type a = BlockLoad), effects') \<and>
     (allowCookies request' \<longleftrightarrow> allowCookies request \<and> (\<forall>a \<in> set as. m_type a \<noteq> BlockCookies))"
proof (induction as arbitrary: request block effects)
  case (Cons a as)
  have keep: "allowCookies (fst (make_https ctx request)) = allowCookies request"
    by (simp add: make_https_def Let_def)
  have as: "list_all applicable as" and a: "applicable a" using Cons.prems by simp_all
  note IH = Cons.IH [OF as]
  show ?case
  proof (cases "m_type a")
    case BlockLoad
    then show ?thesis using IH [of request True effects] by auto
  next
    case BlockCookies
    then show ?thesis using IH [of "request\<lparr>allowCookies := False\<rparr>" block effects] by auto
  next
    case MakeHTTPS
    then show ?thesis
      using IH [of "fst (make_https ctx request)" block "effects @ snd (make_https ctx request)"] keep
      by (auto simp: case_prod_beta)
  next
    case CSSDisplayNoneSelector
    then show ?thesis using IH [of request block] by simp
  next
    case CSSDisplayNoneStyleSheet
    then show ?thesis using IH [of request block] by simp
  qed (use a in \<open>simp_all add: applicable_def\<close>)
qed simp

text \<open>
  C26: when the actions of a load are known, applying them returns without a failed assertion: no
  ignore-previous-rules or invalid action reaches the switch. The load is blocked exactly when a
  block action is among them, and cookies are allowed afterwards exactly when they were allowed before
  and no action blocks them.
\<close>

theorem load_blocked_iff:
  assumes "actionsForResourceLoad info b = Some (as, b')"
  shows "\<exists>status request' effects. processContentExtensionRulesForLoad ctx info request b =
      Some (status, request', effects, b') \<and>
    (status = Blocked \<longleftrightarrow> (\<exists>a \<in> set as. m_type a = BlockLoad)) \<and>
    (allowCookies request' \<longleftrightarrow> allowCookies request \<and> (\<forall>a \<in> set as. m_type a \<noteq> BlockCookies))"
proof -
  have "list_all applicable as"
    using assms all_extension_actions_applicable [of info b "[]" as b']
    by (auto simp: actionsForResourceLoad_def split: if_splits)
  from apply_actions_blocks [OF this, of "\<lambda>i. globalDisplayNoneStyleSheet i b'" ctx request False "[]"]
  show ?thesis using assms
    by (auto simp: processContentExtensionRulesForLoad_def)
qed

text \<open>
  An extension with one rule: block every URL, unless the domain is \<open>b\<close>. Loads of one URL, given by the
  hosts of their main documents.
\<close>

definition sample_compiled :: CompiledContentExtension where
  "sample_compiled = \<lparr>filtersWithoutDomainsBytecode = [5, 0, 0, 0, 10],
     filtersWithDomainsBytecode = [10, 0, 0, 0, 6, 0, 0, 0, 0, 10],
     domainFiltersBytecode = [14, 0, 0, 0, 17, 98, 4, 10, 6, 0, 0, 0, 0, 10],
     compiled_actions = [0]\<rparr>"

definition sample_info :: "UChars option \<Rightarrow> ResourceLoadInfo" where
  "sample_info host = \<lparr>resourceURL_string = [120], resourceURL_protocolIsData = False,
     mainDocumentURL_host = host, resource_type = 2, isThirdParty = False\<rparr>"

definition sample_request :: ResourceRequest where
  "sample_request = \<lparr>request_url = \<lparr>url_protocol = [104, 116, 116, 112], url_port = None, url_rest = []\<rparr>,
     allowCookies = True\<rparr>"

definition sample_context :: LoadContext where
  "sample_context = \<lparr>isDocument = False, hasCurrentDocument = True, isLoadingMainResource = False\<rparr>"

fun sample_loads :: "UChars option list \<Rightarrow> Backend \<Rightarrow> BlockedStatus list option" where
  "sample_loads [] b = Some []"
| "sample_loads (host # hosts) b =
     do {
       (status, request, effects, b) \<leftarrow>
         processContentExtensionRulesForLoad sample_context (sample_info host) sample_request b;
       statuses \<leftarrow> sample_loads hosts b;
       Some (status # statuses)
     }"

definition sample_backend :: "Backend option" where
  "sample_backend = addContentExtension (\<lambda>css. True) (literal ''e'') (Some sample_compiled) []"

lemma sample_load:
  "\<exists>b as b'. sample_backend = Some b \<and> actionsForResourceLoad (sample_info (Some [97])) b = Some (as, b') \<and>
     m_type (hd as) = BlockLoad \<and> as \<noteq> []"
proof -
  have "(case sample_backend of None \<Rightarrow> False | Some b \<Rightarrow>
      (case actionsForResourceLoad (sample_info (Some [97])) b of None \<Rightarrow> False
       | Some (as, b') \<Rightarrow> m_type (hd as) = BlockLoad \<and> as \<noteq> []))"
    by code_simp
  then show ?thesis by (auto split: option.splits)
qed

theorem load_blocked_iff_witness:
  "\<exists>b request' effects b'. sample_backend = Some b \<and>
     processContentExtensionRulesForLoad sample_context (sample_info (Some [97])) sample_request b =
       Some (Blocked, request', effects, b')"
proof -
  obtain b as b' where s: "sample_backend = Some b" "actionsForResourceLoad (sample_info (Some [97])) b = Some (as, b')"
    "m_type (hd as) = BlockLoad" "as \<noteq> []" using sample_load by blast
  then have "\<exists>a \<in> set as. m_type a = BlockLoad" by (metis list.set_sel(1))
  then show ?thesis using load_blocked_iff [OF s(2), of sample_context sample_request] s(1) by blast
qed

section \<open>The cache of a domain\<close>

text \<open>The caches that the domain filters and the universal actions of an extension give for a domain.\<close>

definition cache_right :: "CompiledContentExtension \<Rightarrow> u64 list \<Rightarrow> UChars option \<Rightarrow> ContentExtension \<Rightarrow> bool" where
  "cache_right compiled universal domain e \<longleftrightarrow>
     interpret_url (domainFiltersBytecode compiled) (utf8_of_String domain) (LoadTypeMask OR ResourceTypeMask) =
       Some (m_cachedDomainActions e) \<and>
     m_cachedUniversalDomainActions e =
       map low32 (filter (\<lambda>action. matchesDomain action (m_cachedDomainActions e)) universal)"

fun extension_loads :: "ResourceLoadInfo list \<Rightarrow> ContentExtension \<Rightarrow> ContentExtension option" where
  "extension_loads [] e = Some e"
| "extension_loads (info # infos) e = Option.bind (extension_actions info e []) (\<lambda>(as, e). extension_loads infos e)"

definition cache_inv :: "CompiledContentExtension \<Rightarrow> u64 list \<Rightarrow> bool \<Rightarrow> ContentExtension \<Rightarrow> bool" where
  "cache_inv compiled universal filled e \<longleftrightarrow> m_compiledExtension e = compiled \<and> m_universalActionsWithDomains e = universal \<and>
     (if filled then cache_right compiled universal (m_cachedDomain e) e
      else m_cachedDomain e = None \<and> m_cachedDomainActions e = {} \<and> m_cachedUniversalDomainActions e = [])"

lemma extension_actions_cache:
  "extension_actions info e found = Some (as, e') \<Longrightarrow> populateDomainCacheIfNeeded (mainDocumentURL_host info) e = Some e'"
  by (auto simp: extension_actions_def Let_def bind_eq_Some_conv split: if_splits)

lemma populate_inv:
  assumes "populateDomainCacheIfNeeded domain e = Some e'" "cache_inv compiled universal filled e"
  shows "cache_inv compiled universal (filled \<or> domain \<noteq> None) e' \<and> m_cachedDomain e' = domain"
  using assms
  by (auto simp: populateDomainCacheIfNeeded_def cache_inv_def cache_right_def bind_eq_Some_conv split: if_splits)

lemma loads_inv:
  "extension_loads infos e = Some e' \<Longrightarrow> cache_inv compiled universal filled e \<Longrightarrow>
   cache_inv compiled universal (filled \<or> list_ex (\<lambda>info. mainDocumentURL_host info \<noteq> None) infos) e'"
proof (induction infos arbitrary: e filled)
  case (Cons info infos)
  obtain as e1 where e1: "extension_actions info e [] = Some (as, e1)" "extension_loads infos e1 = Some e'"
    using Cons.prems(1) by (auto split: Option.bind_splits)
  then have "cache_inv compiled universal (filled \<or> mainDocumentURL_host info \<noteq> None) e1"
    using populate_inv [OF extension_actions_cache Cons.prems(2)] by blast
  from Cons.IH [OF e1(2) this] show ?case by (simp add: disj_assoc)
qed simp

lemma create_inv:
  assumes "ContentExtension_create parseString identifier compiled = Some e"
  shows "cache_inv compiled (m_universalActionsWithDomains e) False e"
  using assms
  by (auto simp: ContentExtension_create_def compileGlobalDisplayNoneStyleSheet_def cache_inv_def Let_def
      bind_eq_Some_conv split: if_splits)

text \<open>
  C27. A load reads the actions of its domain from caches. They are those that the domain filters and the
  universal actions give for the host of its main document, as soon as any load so far, this one
  included, has had a host. The cached domain of a new extension is a null string, which equals the null
  host of a load without a main document: up to the first load with a host the caches are empty, and no
  rule that applies to every URL unless a domain matches is applied. The instance: the load that is not
  blocked in a new backend is blocked after a load from another domain.
\<close>

theorem null_domain_finds_empty_cache:
  assumes "ContentExtension_create parseString identifier compiled = Some e"
    "extension_loads infos e = Some e1" "extension_actions info e1 [] = Some (as, e2)"
  shows "if list_ex (\<lambda>i. mainDocumentURL_host i \<noteq> None) (infos @ [info])
    then interpret_url (domainFiltersBytecode compiled) (utf8_of_String (mainDocumentURL_host info))
        (LoadTypeMask OR ResourceTypeMask) = Some (m_cachedDomainActions e2) \<and>
      m_cachedUniversalDomainActions e2 =
        map low32 (filter (\<lambda>a. matchesDomain a (m_cachedDomainActions e2)) (m_universalActionsWithDomains e))
    else m_cachedDomainActions e2 = {} \<and> m_cachedUniversalDomainActions e2 = []"
  using populate_inv [OF extension_actions_cache [OF assms(3)] loads_inv [OF assms(2) create_inv [OF assms(1)]]]
  by (auto simp: cache_inv_def cache_right_def split: if_splits)

theorem null_domain_finds_empty_cache_witness:
  "\<exists>e e1 e2 e3 as bs. ContentExtension_create (\<lambda>css. True) (literal ''e'') sample_compiled = Some e \<and>
     m_universalActionsWithDomains e \<noteq> [] \<and>
     extension_actions (sample_info None) e [] = Some (as, e1) \<and> m_cachedUniversalDomainActions e1 = [] \<and>
     extension_loads [sample_info (Some [97])] e = Some e2 \<and> extension_actions (sample_info None) e2 [] = Some (bs, e3) \<and>
     m_cachedUniversalDomainActions e3 =
       map low32 (filter (\<lambda>a. matchesDomain a (m_cachedDomainActions e3)) (m_universalActionsWithDomains e)) \<and>
     Option.bind sample_backend (sample_loads [None]) = Some [NotBlocked] \<and>
     Option.bind sample_backend (sample_loads [Some [97], None]) = Some [Blocked, Blocked]"
proof -
  have "case ContentExtension_create (\<lambda>css. True) (literal ''e'') sample_compiled of None \<Rightarrow> False | Some e \<Rightarrow>
      m_universalActionsWithDomains e \<noteq> [] \<and> extension_actions (sample_info None) e [] \<noteq> None \<and>
      (case extension_loads [sample_info (Some [97])] e of None \<Rightarrow> False
       | Some e2 \<Rightarrow> extension_actions (sample_info None) e2 [] \<noteq> None)" by code_simp
  then obtain e e1 e2 e3 as bs where e: "ContentExtension_create (\<lambda>css. True) (literal ''e'') sample_compiled = Some e"
    "m_universalActionsWithDomains e \<noteq> []" "extension_actions (sample_info None) e [] = Some (as, e1)"
    "extension_loads [sample_info (Some [97])] e = Some e2" "extension_actions (sample_info None) e2 [] = Some (bs, e3)"
    by (auto split: option.splits)
  have "m_cachedUniversalDomainActions e1 = []"
    using null_domain_finds_empty_cache [OF e(1) _ e(3), of "[]"] by (simp add: sample_info_def)
  moreover have "m_cachedUniversalDomainActions e3 =
       map low32 (filter (\<lambda>a. matchesDomain a (m_cachedDomainActions e3)) (m_universalActionsWithDomains e))"
    using null_domain_finds_empty_cache [OF e(1,4,5)] by (simp add: sample_info_def)
  moreover have "Option.bind sample_backend (sample_loads [None]) = Some [NotBlocked]" by code_simp
  moreover have "Option.bind sample_backend (sample_loads [Some [97], None]) = Some [Blocked, Blocked]" by code_simp
  ultimately show ?thesis using e by blast
qed

section \<open>Selectors of a document\<close>

text \<open>A selector is added to the sheet of a document once.\<close>

lemma addDisplayNoneSelector_twice:
  assumes "addDisplayNoneSelector selector i s = (added, s')"
  shows "addDisplayNoneSelector selector' i s' = (False, s') \<and>
    length (m_styleSheet s') = length (m_styleSheet s) + (if added then 1 else 0)"
  using assms by (auto simp: addDisplayNoneSelector_def Let_def split: if_splits)

end
