(* ===== verification/Spec2Isabelle.thy ===== *)
theory Spec2Isabelle
  imports Compile_Correct Dfa_Merger Partition_Refinement Url_Filter_Parser Content_Extension
begin

text \<open>
  The content extensions of WebKit, \<open>src/Source/WebCore/contentextensions\<close>: the engine that decides for
  every load which rules of a content blocker apply to its URL. A rule has a URL filter, a restricted
  regular expression. Filters are compiled ahead of time: a filter is parsed into terms, the terms become
  the graph of a nondeterministic automaton (NFA), which is converted into a deterministic one (DFA), which
  is compiled into a bytecode. The actions of the rules are serialized into a vector of bytes, and an action of
  the automata is a location in it with the flags of the rule. At load time an interpreter runs the bytecode over the URL and collects the
  actions of the nodes it passes; the backend reads them and blocks or changes the load.

  \<^bold>\<open>The theories, in the order of the pipeline.\<close>

  \<^item> \<open>Prelude\<close>: machine integers, little-endian storage, \<open>WTF::HashSet\<close> as a list without duplicates in the
    order of insertion, and list lemmas. A \<open>char\<close> is an \<open>int\<close> between -128 and 127, an \<open>unsigned\<close> is a \<open>nat\<close>
    with the reduction modulo \<open>2 ^ 32\<close> written out where the code can wrap, an action is a 64-bit word. \<open>None\<close>
    is a failed release assertion, an access out of bounds or a loop that does not end.
  \<^item> \<open>Yarr_Parser\<close> (\<open>JavaScriptCore/yarr/YarrParser.h\<close>): the regular expression parser, whose calls of its
    delegate are a list of tokens. The calls obey the protocol that the delegate relies on.
  \<^item> \<open>Bit_Count\<close> (\<open>WTF/StdLibExtras.h\<close>): the parallel bit count, equal to the number of bits set.
  \<^item> \<open>Pattern_Term\<close> (\<open>Term.h\<close>): character sets, groups and quantifiers, what the parser asks about them, and
    the generation of their graph. The language of a term is defined on its own, and the graph reads it.
  \<^item> \<open>Url_Filter_Parser\<close> (\<open>URLFilterParser.cpp\<close>): the delegate that builds terms, and their simplification,
    which keeps what a filter matches; the debug and release assertions on the way are predicates of their own.
  \<^item> \<open>Range_List\<close> (\<open>MutableRange.h\<close>, \<open>MutableRangeList.h\<close>): lists of character ranges linked by indices in a
    vector. \<open>extend\<close> is refined to a merge of sorted lists; the locale \<open>range_data\<close> states what a data
    converter must promise for the merged data to mean the union of its inputs.
  \<^item> \<open>Nfa\<close> (\<open>ImmutableNFA.h\<close>, \<open>ImmutableNFANodeBuilder.h\<close>): the compact NFA and the builders of its nodes. Its
    meaning is a set of edges and of actions; the builders keep the vectors well formed.
  \<^item> \<open>Nfa_To_Dfa\<close> (\<open>NFAToDFA.cpp\<close>): epsilon closures and the subset construction, which ends and matches what
    the NFA matches.
  \<^item> \<open>Dfa\<close> (\<open>DFA.h\<close>, \<open>DFANode.h\<close>, \<open>DFANode.cpp\<close>): nodes, ranges, fallback transitions, runs and matches.
  \<^item> \<open>Dfa_Merger\<close> (\<open>DFACombiner.cpp\<close>): the product of two DFAs, whose nodes are pairs of indices in a word.
  \<^item> \<open>Partition_Refinement\<close> (\<open>DFAMinimizer.cpp\<close>): the partition that the minimiser refines, segments of one
    vector with marked elements in front.
  \<^item> \<open>Bytecode\<close>, \<open>Bytecode_Compiler\<close>, \<open>Bytecode_Interpreter\<close> (\<open>DFABytecode.h\<close>, \<open>DFABytecodeCompiler.cpp\<close>,
    \<open>DFABytecodeInterpreter.cpp\<close>): the instructions, the compiler with its jump tables, ranges and the
    linking of jumps, and the interpreter as a loop over the bytes.
  \<^item> \<open>Transition_Tables\<close>, \<open>Code_Layout\<close>, \<open>Code_Execution\<close>, \<open>Compile_Correct\<close>: the transitions of a node as
    the compiler splits them, where the code of each node lies and what its linked jumps hold, what each
    instruction does when it is executed, and the correctness of compiling and then interpreting. The locale
    \<open>run_result\<close> carries the lemmas on runs, for the actions the loop returns and for the state it stops in.
  \<^item> \<open>Rule_Actions\<close>, \<open>Rule_Serializer\<close> (\<open>ContentExtensionRule.h\<close>, \<open>ContentExtensionRule.cpp\<close>,
    \<open>serializeActions\<close> of \<open>ContentExtensionCompiler.cpp\<close>): rules, the bytes of an action, and the serialization of a rule list, in
    which rules share locations where the order of their effects allows it.
  \<^item> \<open>Content_Extension\<close> (\<open>ContentExtension.cpp\<close>, \<open>ContentExtensionsBackend.cpp\<close>,
    \<open>ContentExtensionStyleSheet.cpp\<close>): one loaded extension with its caches, the actions of a load, their
    application, and the style sheet of a document.

  \<^bold>\<open>What the properties show.\<close> Interpreting compiled DFAs yields exactly the actions of the nodes that the
  DFAs visit, with and without domains (C1, C2), under conditions on the transitions for the end of the URL:
  C3 says for all DFAs which matches at the end are missed without them, C4 that the interpreter reads
  behind the end of the URL where the other one fails. The range lists (C5), the node builders (C6), the subset construction (C7) and its table of sets (C8) do what
  their callers rely on. The graph of a term reads its language (C9); the queries on terms are right (C10,
  C11), the bit count counts (C12), and one class is taken for an end of line (C13). The regular expression
  parser obeys its protocol (C14) and reads numbers (C15); C16 says what it makes of numbers that do not fit. The filter
  parser answers and its assertions hold (C17) unless a class has certain characters (C19), it keeps the meaning of filters (C18),
  it takes one filter for matching everything (C20), and C21 says which rejected filters leave a pattern behind. Serialized
  actions are read back (C22), each rule of a list at a location of its own effect (C23). A load applies the
  actions of the rules after the last one that ignores previous rules (C24), the search for the first such
  rule ends (C25), a load is blocked exactly when a block action is among them (C26), and the caches of a domain are right from the first load
  with a host on (C27). The merged DFA matches what one of two DFAs matches (C28), and
  refining a partition splits it by the marks and by nothing else (C29).

  \<^bold>\<open>Bounds.\<close> Loops of the source that end are functions with a termination proof: the closure and the
  conversion loop by the number of unvisited nodes and sets, the parsers by the length of the pattern. The
  interpreter's loop is a partial function, and the properties about it state that it returns, or in which state it stops.
  Sizes of vectors are natural numbers without a bound. A hash table that the code iterates over is enumerated in the
  order of insertion, a set of actions in the order of the numbers; the source leaves both orders open.

  \<^bold>\<open>Not modelled.\<close> The rest of WebKit. Inside the content extensions: the main loop of the minimiser, the
  prefix tree that combines filters (\<open>CombinedURLFilters.cpp\<close>), the reading of rule lists from JSON with the
  JavaScript engine (\<open>ContentExtensionParser.cpp\<close>), the driver \<open>compileRuleList\<close>, and the debug printing, the
  memory accounting and the timing reports.
\<close>

end
